(* ===== verification/CBase.thy ===== *)
theory CBase
  imports Main "HOL-Library.Word" "HOL-Library.Signed_Division"
begin

text \<open>
  Prelude of the development: the C types and library calls the components share.

  \<^item> machine integers: \<^verbatim>\<open>u8\<close>, \<^verbatim>\<open>u32\<close>, \<^verbatim>\<open>i64\<close> are words of the width the
    code has; a C \<^verbatim>\<open>int\<close> whose width plays no role in a function is an \<^typ>\<open>int\<close>;
  \<^item> \<^verbatim>\<open>exec\<close>: the result of a C function that may run into undefined behaviour
    (a NULL dereference, a write past a stack buffer, an uninitialised read);
  \<^item> \<^verbatim>\<open>mem\<close>: the bytes around a caller's buffer, addressed relative to the pointer the
    function receives, so that a write before or behind the buffer is visible;
  \<^item> the SQLite result codes, with their values in the collection \<^verbatim>\<open>result_codes\<close>.
\<close>

unbundle bit_operations_syntax

subsection \<open>Types\<close>

type_synonym u8 = "8 word"
type_synonym u16 = "16 word"
type_synonym u32 = "32 word"
type_synonym u64 = "64 word"
type_synonym i32 = "32 word"
type_synonym i64 = "64 word"
type_synonym mem = "int \<Rightarrow> u8"

datatype 'a exec = Done 'a | Undefined

text \<open>Sequencing: undefined behaviour stays undefined.\<close>

fun exec_bind :: "'a exec \<Rightarrow> ('a \<Rightarrow> 'b exec) \<Rightarrow> 'b exec" where
  "exec_bind (Done x) f = f x"
| "exec_bind Undefined f = Undefined"

lemma exec_bind_Done [simp]: "exec_bind m f = Done y \<longleftrightarrow> (\<exists>x. m = Done x \<and> f x = Done y)"
  by (cases m) auto

text \<open>
  \<^verbatim>\<open>malloc\<close>: the outcomes of the calls to come are a list in the state; past its end the
  calls succeed.
\<close>

fun alloc :: "bool list \<Rightarrow> bool \<times> bool list" where
  "alloc [] = (True, [])"
| "alloc (b # ms) = (b, ms)"

fun well_defined :: "'a exec \<Rightarrow> bool" where
  "well_defined (Done _) = True"
| "well_defined Undefined = False"

subsection \<open>Words bit by bit\<close>

lemma u64_bits_eqI:
  fixes x y :: u64
  assumes "list_all (\<lambda>n. bit x n = bit y n) [0,1,2,3,4,5,6,7,8,9,10,11,12,13,14,15,16,17,18,19,
    20,21,22,23,24,25,26,27,28,29,30,31,32,33,34,35,36,37,38,39,40,41,42,43,44,45,46,47,48,49,
    50,51,52,53,54,55,56,57,58,59,60,61,62,63]"
  shows "x = y"
proof (rule bit_word_eqI)
  have "[0..<64] = [0,1,2,3,4,5,6,7,8,9,10,11,12,13,14,15,16,17,18,19,
    20,21,22,23,24,25,26,27,28,29,30,31,32,33,34,35,36,37,38,39,40,41,42,43,44,45,46,47,48,49,
    50,51,52,53,54,55,56,57,58,59,60,61,62,63]" by code_simp
  then have "list_all (\<lambda>n. bit x n = bit y n) [0..<64]" using assms by simp
  then have "\<forall>n<64. bit x n = bit y n" by (simp add: list_all_iff)
  then show "bit x n = bit y n" if "n < LENGTH(64)" for n using that by simp
qed

lemma u32_bits_eqI:
  fixes x y :: u32
  assumes "list_all (\<lambda>n. bit x n = bit y n) [0,1,2,3,4,5,6,7,8,9,10,11,12,13,14,15,16,17,18,19,
    20,21,22,23,24,25,26,27,28,29,30,31]"
  shows "x = y"
proof (rule bit_word_eqI)
  have "[0..<32] = [0,1,2,3,4,5,6,7,8,9,10,11,12,13,14,15,16,17,18,19,
    20,21,22,23,24,25,26,27,28,29,30,31]" by code_simp
  then have "list_all (\<lambda>n. bit x n = bit y n) [0..<32]" using assms by simp
  then have "\<forall>n<32. bit x n = bit y n" by (simp add: list_all_iff)
  then show "bit x n = bit y n" if "n < LENGTH(32)" for n using that by simp
qed

lemma u8_bits_eqI:
  fixes x y :: u8
  assumes "list_all (\<lambda>n. bit x n = bit y n) [0,1,2,3,4,5,6,7]"
  shows "x = y"
proof (rule bit_word_eqI)
  have "[0..<8] = [0,1,2,3,4,5,6,7]" by code_simp
  then have "list_all (\<lambda>n. bit x n = bit y n) [0..<8]" using assms by simp
  then have "\<forall>n<8. bit x n = bit y n" by (simp add: list_all_iff)
  then show "bit x n = bit y n" if "n < LENGTH(8)" for n using that by simp
qed

lemma byte_bit_high: "8 \<le> k \<Longrightarrow> \<not> bit (b :: u8) k"
  by (auto dest: bit_imp_le_length)

subsection \<open>Result codes\<close>

named_theorems result_codes \<open>values of the SQLite result codes\<close>

definition SQLITE_OK :: int where "SQLITE_OK = 0"
definition SQLITE_BUSY :: int where "SQLITE_BUSY = 5"
definition SQLITE_NOMEM :: int where "SQLITE_NOMEM = 7"
definition SQLITE_CORRUPT :: int where "SQLITE_CORRUPT = 11"
definition SQLITE_TOOBIG :: int where "SQLITE_TOOBIG = 18"
definition SQLITE_IOERR :: int where "SQLITE_IOERR = 10"
definition SQLITE_CANTOPEN :: int where "SQLITE_CANTOPEN = 14"
definition SQLITE_IOERR_SHORT_READ :: int where
  "SQLITE_IOERR_SHORT_READ = (SQLITE_IOERR OR push_bit 8 2)"
definition SQLITE_IOERR_WRITE :: int where
  "SQLITE_IOERR_WRITE = (SQLITE_IOERR OR push_bit 8 3)"
definition SQLITE_IOERR_TRUNCATE :: int where
  "SQLITE_IOERR_TRUNCATE = (SQLITE_IOERR OR push_bit 8 6)"
definition SQLITE_IOERR_FSTAT :: int where
  "SQLITE_IOERR_FSTAT = (SQLITE_IOERR OR push_bit 8 7)"
definition SQLITE_IOERR_UNLOCK :: int where
  "SQLITE_IOERR_UNLOCK = (SQLITE_IOERR OR push_bit 8 8)"
definition SQLITE_IOERR_DELETE :: int where
  "SQLITE_IOERR_DELETE = (SQLITE_IOERR OR push_bit 8 10)"
definition SQLITE_IOERR_NOMEM :: int where
  "SQLITE_IOERR_NOMEM = (SQLITE_IOERR OR push_bit 8 12)"
definition SQLITE_IOERR_DELETE_NOENT :: int where
  "SQLITE_IOERR_DELETE_NOENT = (SQLITE_IOERR OR push_bit 8 23)"

lemma result_code_values [result_codes]:
  "SQLITE_OK = 0" "SQLITE_BUSY = 5" "SQLITE_NOMEM = 7" "SQLITE_IOERR = 10"
  "SQLITE_CANTOPEN = 14" "SQLITE_IOERR_SHORT_READ = 522" "SQLITE_IOERR_WRITE = 778"
  "SQLITE_IOERR_TRUNCATE = 1546" "SQLITE_IOERR_FSTAT = 1802" "SQLITE_IOERR_UNLOCK = 2058"
  "SQLITE_IOERR_DELETE = 2570" "SQLITE_IOERR_NOMEM = 3082" "SQLITE_IOERR_DELETE_NOENT = 5898"
  by code_simp+

subsection \<open>Memory around a buffer\<close>

named_theorems mem_simps \<open>reading after writing in a buffer\<close>

definition mem_put :: "mem \<Rightarrow> int \<Rightarrow> u8 list \<Rightarrow> mem" where
  "mem_put m a bs = (\<lambda>i. if a \<le> i \<and> i < a + int (length bs) then bs ! nat (i - a) else m i)"

definition mem_fill :: "mem \<Rightarrow> int \<Rightarrow> u8 \<Rightarrow> int \<Rightarrow> mem" where
  "mem_fill m a v n = (\<lambda>i. if a \<le> i \<and> i < a + n then v else m i)"

definition mem_get :: "mem \<Rightarrow> int \<Rightarrow> nat \<Rightarrow> u8 list" where
  "mem_get m a n = map (\<lambda>k. m (a + int k)) [0..<n]"

lemma length_mem_get [simp]: "length (mem_get m a n) = n"
  by (simp add: mem_get_def)

lemma nth_mem_get [simp]: "k < n \<Longrightarrow> mem_get m a n ! k = m (a + int k)"
  by (simp add: mem_get_def)

lemma mem_get_put_same [mem_simps]: "mem_get (mem_put m a bs) a (length bs) = bs"
  by (rule nth_equalityI) (auto simp: mem_put_def)

lemma mem_put_Nil [simp]: "mem_put m a [] = m"
  by (rule ext) (auto simp: mem_put_def)

lemma mem_get_0 [simp]: "mem_get m a 0 = []"
  by (simp add: mem_get_def)

lemma mem_get_append:
  "mem_get m a (i + j) = mem_get m a i @ mem_get m (a + int i) j"
  by (rule nth_equalityI) (auto simp: nth_append)

lemma take_mem_get: "n \<le> k \<Longrightarrow> take n (mem_get m a k) = mem_get m a n"
  by (rule nth_equalityI) auto

subsection \<open>C strings\<close>

definition NUL :: char where "NUL = CHR 0x00"

text \<open>\<^verbatim>\<open>sprintf(buf, \"%d\", n)\<close>.\<close>

fun show_nat :: "nat \<Rightarrow> string" where
  "show_nat n = (if n < 10 then [char_of (48 + n)]
                 else show_nat (n div 10) @ [char_of (48 + n mod 10)])"

declare show_nat.simps [simp del]

definition show_int :: "int \<Rightarrow> string" where
  "show_int n = (if n < 0 then CHR ''-'' # show_nat (nat (- n)) else show_nat (nat n))"

text \<open>
  \<^verbatim>\<open>sprintf(buf, z)\<close> with \<^verbatim>\<open>z\<close> itself as the format and no argument: a directive
  other than \<^verbatim>\<open>%%\<close> reads an argument that is not there.
\<close>

fun fmt_noargs :: "string \<Rightarrow> string option" where
  "fmt_noargs [] = Some []"
| "fmt_noargs [c] = (if c = CHR ''%'' then None else Some [c])"
| "fmt_noargs (c # d # cs) =
     (if c = CHR ''%'' then (if d = CHR ''%'' then map_option (Cons c) (fmt_noargs cs) else None)
      else map_option (Cons c) (fmt_noargs (d # cs)))"

lemma fmt_noargs_plain [simp]: "CHR ''%'' \<notin> set z \<Longrightarrow> fmt_noargs z = Some z"
  by (induction z rule: fmt_noargs.induct) auto

text \<open>\<^verbatim>\<open>atoi\<close>: blanks, a sign, then digits up to the first other character.\<close>

definition is_digit :: "char \<Rightarrow> bool" where
  "is_digit c \<longleftrightarrow> 48 \<le> (of_char c :: nat) \<and> (of_char c :: nat) \<le> 57"

definition is_space :: "char \<Rightarrow> bool" where
  "is_space c \<longleftrightarrow> of_char c \<in> {9, 10, 11, 12, 13, 32 :: nat}"

fun atoi_digits :: "int \<Rightarrow> string \<Rightarrow> int" where
  "atoi_digits n [] = n"
| "atoi_digits n (c # cs) =
     (if is_digit c then atoi_digits (10 * n + (int (of_char c) - 48)) cs else n)"

definition atoi :: "string \<Rightarrow> int" where
  "atoi z = (case dropWhile is_space z of
       [] \<Rightarrow> 0
     | c # cs \<Rightarrow> if c = CHR ''-'' then - atoi_digits 0 cs
                else if c = CHR ''+'' then atoi_digits 0 cs
                else atoi_digits 0 (c # cs))"

definition bytes_of :: "string \<Rightarrow> u8 list" where
  "bytes_of z = map of_char z"

lemma length_bytes_of [simp]: "length (bytes_of z) = length z"
  by (simp add: bytes_of_def)


subsection \<open>Overwriting part of a file\<close>

text \<open>
  Writing \<^verbatim>\<open>bs\<close> at position \<^verbatim>\<open>p\<close> of a file with content \<^verbatim>\<open>c\<close>; a gap before \<^verbatim>\<open>p\<close> reads as
  zeros.
\<close>

definition file_splice :: "u8 list \<Rightarrow> nat \<Rightarrow> u8 list \<Rightarrow> u8 list" where
  "file_splice c p bs =
     (if bs = [] then c
      else take p c @ replicate (p - length c) 0 @ bs @ drop (p + length bs) c)"

lemma file_splice_Nil [simp]: "file_splice c p [] = c"
  by (simp add: file_splice_def)

lemma length_file_splice:
  "bs \<noteq> [] \<Longrightarrow> length (file_splice c p bs) = max (length c) (p + length bs)"
  by (auto simp: file_splice_def)

lemma file_splice_append_end: "file_splice c (length c) bs = c @ bs"
  by (simp add: file_splice_def)

lemma file_splice_read:
  "bs \<noteq> [] \<Longrightarrow> take (length bs) (drop p (file_splice c p bs)) = bs"
  by (auto simp: file_splice_def min_def)

lemma file_splice_comp:
  assumes "as \<noteq> []"
  shows "file_splice (file_splice c p as) (p + length as) bs = file_splice c p (as @ bs)"
  using assms by (auto simp: file_splice_def min_def add.assoc add.commute add.left_commute)

lemma file_splice_take:
  "take p (file_splice c p bs) = take p (c @ replicate (p - length c) 0)" if "bs \<noteq> []"
  using that by (auto simp: file_splice_def)

subsection \<open>Allocations of a database connection\<close>

text \<open>
  The part of \<^verbatim>\<open>struct sqlite3\<close> the allocator uses: once an allocation of the connection has failed,
  \<^verbatim>\<open>mallocFailed\<close> makes every later one fail until it is reset.  Whether a block comes from the
  lookaside slots or from \<^verbatim>\<open>sqlite3Malloc\<close> does not show in the result.
\<close>

record conn =
  mallocFailed :: bool
  mallocs :: "bool list"

definition sqlite3DbMallocRaw :: "conn \<Rightarrow> bool \<times> conn" where
  "sqlite3DbMallocRaw db =
     (if mallocFailed db then (False, db)
      else (case alloc (mallocs db) of (ok, ms) \<Rightarrow>
        (ok, db\<lparr>mallocs := ms, mallocFailed := \<not> ok\<rparr>)))"

text \<open>Memory never runs out.\<close>

definition plenty :: "conn \<Rightarrow> bool" where
  "plenty db \<longleftrightarrow> \<not> mallocFailed db \<and> False \<notin> set (mallocs db)"

lemma alloc_plenty: "False \<notin> set ms \<Longrightarrow> fst (alloc ms) \<and> False \<notin> set (snd (alloc ms))"
  by (cases ms) auto

lemma sqlite3DbMallocRaw_plenty:
  "plenty db \<Longrightarrow> \<exists>db'. sqlite3DbMallocRaw db = (True, db') \<and> plenty db'"
  using alloc_plenty [of "mallocs db"]
  by (auto simp: sqlite3DbMallocRaw_def plenty_def split: prod.split)

lemma sqlite3DbMallocRaw_failed:
  "sqlite3DbMallocRaw db = (ok, db') \<Longrightarrow> mallocFailed db' = (\<not> ok)"
  by (auto simp: sqlite3DbMallocRaw_def split: prod.splits if_splits)

subsection \<open>Histories and simulation\<close>

text \<open>
  A component as a machine: each operation maps a state to an answer and a new state.  The
  history of a list of operations collects the answers; the first undefined operation makes the
  whole history undefined.
\<close>

primrec history :: "('op \<Rightarrow> 's \<Rightarrow> ('out \<times> 's) exec) \<Rightarrow> 'op list \<Rightarrow> 's \<Rightarrow> ('out list \<times> 's) exec" where
  "history step [] s = Done ([], s)"
| "history step (x # xs) s = exec_bind (step x s) (\<lambda>(r, s').
     exec_bind (history step xs s') (\<lambda>(rs, s''). Done (r # rs, s'')))"

lemma history_append:
  "history step (xs @ ys) s = exec_bind (history step xs s) (\<lambda>(rs, s').
     exec_bind (history step ys s') (\<lambda>(rs', s''). Done (rs @ rs', s'')))"
proof (induction xs arbitrary: s)
  case Nil
  then show ?case by (cases "history step ys s") auto
next
  case (Cons x xs)
  show ?case
  proof (cases "step x s")
    case (Done rs)
    obtain r s' where rs: "rs = (r, s')" by fastforce
    show ?thesis
    proof (cases "history step xs s'")
      case (Done q)
      obtain rs2 s2 where "q = (rs2, s2)" by fastforce
      then show ?thesis
        using \<open>step x s = Done rs\<close> rs Done Cons by (cases "history step ys s2") auto
    qed (use \<open>step x s = Done rs\<close> rs Cons in simp)
  qed simp
qed

primrec spec_history :: "('op \<Rightarrow> 'a \<Rightarrow> 'out \<times> 'a) \<Rightarrow> 'op list \<Rightarrow> 'a \<Rightarrow> 'out list \<times> 'a" where
  "spec_history spec [] a = ([], a)"
| "spec_history spec (x # xs) a =
     (fst (spec x a) # fst (spec_history spec xs (snd (spec x a))),
      snd (spec_history spec xs (snd (spec x a))))"

primrec allowed :: "('op \<Rightarrow> 'a \<Rightarrow> bool) \<Rightarrow> ('op \<Rightarrow> 'a \<Rightarrow> 'out \<times> 'a) \<Rightarrow> 'op list \<Rightarrow> 'a \<Rightarrow> bool" where
  "allowed may spec [] a \<longleftrightarrow> True"
| "allowed may spec (x # xs) a \<longleftrightarrow> may x a \<and> allowed may spec xs (snd (spec x a))"

text \<open>
  The contract between a component and its specification: from related states, every operation
  the client may call returns, answers as specified and leads to related states.
\<close>

locale simulation =
  fixes step :: "'op \<Rightarrow> 's \<Rightarrow> ('out \<times> 's) exec"
    and spec :: "'op \<Rightarrow> 'a \<Rightarrow> 'out \<times> 'a"
    and may :: "'op \<Rightarrow> 'a \<Rightarrow> bool"
    and rel :: "'s \<Rightarrow> 'a \<Rightarrow> bool"
  assumes step_simulates:
    "rel s a \<Longrightarrow> may x a \<Longrightarrow> \<exists>s'. step x s = Done (fst (spec x a), s') \<and> rel s' (snd (spec x a))"
begin

lemma history_simulates:
  "rel s a \<Longrightarrow> allowed may spec xs a \<Longrightarrow>
     \<exists>s'. history step xs s = Done (fst (spec_history spec xs a), s') \<and>
       rel s' (snd (spec_history spec xs a))"
proof (induction xs arbitrary: s a)
  case Nil
  then show ?case by simp
next
  case (Cons x xs)
  obtain s' where s': "step x s = Done (fst (spec x a), s')" "rel s' (snd (spec x a))"
    using step_simulates [of s a x] Cons.prems by auto
  then obtain s'' where "history step xs s' = Done (fst (spec_history spec xs (snd (spec x a))), s'')"
      "rel s'' (snd (spec_history spec xs (snd (spec x a))))"
    using Cons.IH [of s' "snd (spec x a)"] Cons.prems by auto
  then show ?case using s' by simp
qed

end

text \<open>
  The same with a specification that may itself be undefined: the component is then undefined for the
  same history, and answers as specified for every other.
\<close>

primrec exec_allowed :: "('op \<Rightarrow> 'a \<Rightarrow> bool) \<Rightarrow> ('op \<Rightarrow> 'a \<Rightarrow> ('out \<times> 'a) exec) \<Rightarrow> 'op list \<Rightarrow> 'a \<Rightarrow> bool" where
  "exec_allowed may spec [] a \<longleftrightarrow> True"
| "exec_allowed may spec (x # xs) a \<longleftrightarrow> may x a \<and>
     (case spec x a of Undefined \<Rightarrow> True | Done (r, a') \<Rightarrow> exec_allowed may spec xs a')"

definition same_outcome :: "('s \<Rightarrow> 'a \<Rightarrow> bool) \<Rightarrow> ('r \<times> 's) exec \<Rightarrow> ('r \<times> 'a) exec \<Rightarrow> bool" where
  "same_outcome rel c a =
     (case a of Undefined \<Rightarrow> c = Undefined | Done (r, a') \<Rightarrow> \<exists>s'. c = Done (r, s') \<and> rel s' a')"

lemma same_outcome_simps [simp]:
  "same_outcome rel c Undefined \<longleftrightarrow> c = Undefined"
  "same_outcome rel c (Done (r, a')) \<longleftrightarrow> (\<exists>s'. c = Done (r, s') \<and> rel s' a')"
  by (simp_all add: same_outcome_def)

locale outcome_simulation =
  fixes step :: "'op \<Rightarrow> 's \<Rightarrow> ('out \<times> 's) exec"
    and spec :: "'op \<Rightarrow> 'a \<Rightarrow> ('out \<times> 'a) exec"
    and may :: "'op \<Rightarrow> 'a \<Rightarrow> bool"
    and rel :: "'s \<Rightarrow> 'a \<Rightarrow> bool"
  assumes step_outcome: "rel s a \<Longrightarrow> may x a \<Longrightarrow> same_outcome rel (step x s) (spec x a)"
begin

lemma history_outcome:
  "rel s a \<Longrightarrow> exec_allowed may spec xs a \<Longrightarrow> same_outcome rel (history step xs s) (history spec xs a)"
proof (induction xs arbitrary: s a)
  case Nil
  then show ?case by simp
next
  case (Cons x xs)
  note out = step_outcome [OF Cons.prems(1), of x]
  show ?case
  proof (cases "spec x a")
    case Undefined
    then show ?thesis using out Cons.prems(2) by simp
  next
    case (Done q)
    obtain r a' where q: "q = (r, a')" by fastforce
    obtain s' where s': "step x s = Done (r, s')" "rel s' a'" using out Cons.prems(2) Done q by auto
    then have "same_outcome rel (history step xs s') (history spec xs a')"
      using Cons.IH Cons.prems(2) Done q by simp
    then show ?thesis using s'(1) Done q by (cases "history spec xs a'") auto
  qed
qed

end

sublocale simulation \<subseteq> outcome: outcome_simulation step "\<lambda>x a. Done (spec x a)" may rel
proof
  fix s a x assume "rel s a" "may x a"
  then obtain s' where "step x s = Done (fst (spec x a), s')" "rel s' (snd (spec x a))" using step_simulates by blast
  then show "same_outcome rel (step x s) (Done (spec x a))" by (cases "spec x a") simp
qed

end
