(* ===== verification/Verix.thy ===== *)
theory Verix
  imports CBase
begin

text \<open>
  The Verix portability layer, \<^verbatim>\<open>src/verix/verix.c\<close>: the file object \<^verbatim>\<open>verixFile\<close>, the
  twelve I/O methods of \<^verbatim>\<open>verixIoMethod\<close> and the methods of the \<^verbatim>\<open>sqlite3_vfs\<close> object.

  The Verix operating system (\<^verbatim>\<open>svc.h\<close>, \<^verbatim>\<open>svctxo.h\<close>) is not part of the repository: it is the
  record \<^verbatim>\<open>verix_os\<close>, an argument of every definition that makes an OS call.  Each call takes
  the state of the device and returns its result with the new state.  The log calls
  (\<^verbatim>\<open>LOG_PRINTF\<close>) are left out.
\<close>

unbundle bit_operations_syntax

subsection \<open>The operating system, a parameter\<close>

record 'w verix_os =
  os_open :: "string \<Rightarrow> int \<Rightarrow> 'w \<Rightarrow> int \<times> 'w"
  os_close :: "int \<Rightarrow> 'w \<Rightarrow> int \<times> 'w"
  os_remove :: "string \<Rightarrow> 'w \<Rightarrow> int \<times> 'w"
  os_lseek :: "int \<Rightarrow> int \<Rightarrow> 'w \<Rightarrow> int \<times> 'w"
  os_read :: "int \<Rightarrow> int \<Rightarrow> 'w \<Rightarrow> int \<times> u8 list \<times> 'w"
  os_write :: "int \<Rightarrow> u8 list \<Rightarrow> 'w \<Rightarrow> int \<times> 'w"
  os_get_file_size :: "int \<Rightarrow> 'w \<Rightarrow> int \<times> int \<times> 'w"
  os_delete_bytes :: "int \<Rightarrow> int \<Rightarrow> 'w \<Rightarrow> int \<times> 'w"
  os_dir_get_file_sz :: "string \<Rightarrow> 'w \<Rightarrow> int \<times> 'w"
  os_dir_get_attributes :: "string \<Rightarrow> 'w \<Rightarrow> int \<times> 'w"
  os_lock :: "int \<Rightarrow> 'w \<Rightarrow> int \<times> 'w"
  os_unlock :: "int \<Rightarrow> 'w \<Rightarrow> int \<times> 'w"
  os_errno :: "'w \<Rightarrow> int"
  os_rand :: "'w \<Rightarrow> int \<times> 'w"
  os_SVC_WAIT :: "int \<Rightarrow> 'w \<Rightarrow> 'w"
  os_read_clock :: "'w \<Rightarrow> string \<times> 'w"
  os_read_ticks :: "'w \<Rightarrow> int \<times> 'w"
  os_SVC_INFO_SERLNO :: "'w \<Rightarrow> string \<times> 'w"
  os_SHA1 :: "u8 list \<Rightarrow> u8 list"
  os_get_group :: "'w \<Rightarrow> int"
  os_set_group :: "int \<Rightarrow> 'w \<Rightarrow> 'w"
  os_O_RDWR :: int
  os_O_RDONLY :: int
  os_O_CREAT :: int
  os_ENOENT :: int
  os_ATTR_READONLY :: int

subsection \<open>State\<close>

datatype io_methods = VerixIoMethod | MemJournalMethods

record verixFile =
  pMethod :: "io_methods option"
  vf_h :: int
  temporary :: int
  filename :: string

text \<open>
  The two globals of the file and the state of the device.  \<^verbatim>\<open>zeroed_file\<close> is a file object
  after \<^verbatim>\<open>memset(pFile, 0, sizeof(*pFile))\<close>.
\<close>

record 'w vx =
  verified :: int
  last_errno :: int
  world :: 'w

definition MAX_VERIX_FILE_NAME :: nat where "MAX_VERIX_FILE_NAME = 50"

definition SQLITE_VERSION :: string where "SQLITE_VERSION = ''3.8.11''"

definition zeroed_file :: verixFile where
  "zeroed_file = \<lparr>pMethod = None, vf_h = 0, temporary = 0, filename = []\<rparr>"

definition set_errno :: "'w verix_os \<Rightarrow> 'w vx \<Rightarrow> 'w vx" where
  "set_errno os s = s\<lparr>last_errno := os_errno os (world s)\<rparr>"

subsection \<open>The I/O methods\<close>

definition verixClose :: "'w verix_os \<Rightarrow> verixFile \<Rightarrow> 'w vx \<Rightarrow> int \<times> 'w vx" where
  "verixClose os f s =
     (case os_close os (vf_h f) (world s) of (rc, w) \<Rightarrow>
        let s1 = s\<lparr>world := w\<rparr> in
        if rc \<noteq> 0 then (SQLITE_IOERR, set_errno os s1)
        else case (if temporary f = 1 then os_remove os (filename f) w else (rc, w)) of
          (rc2, w2) \<Rightarrow>
            let s2 = s1\<lparr>world := w2\<rparr> in
            if rc2 = 0 then (SQLITE_OK, s2) else (SQLITE_IOERR, set_errno os s2))"

text \<open>
  \<^verbatim>\<open>m\<close> is the memory around \<^verbatim>\<open>pBuf\<close>, which is address 0.  \<^verbatim>\<open>(int)offset\<close> keeps the low 32
  bits of the 64-bit offset.
\<close>

definition int_of_i64 :: "i64 \<Rightarrow> int" where
  "int_of_i64 x = sint (ucast x :: i32)"

definition verixRead ::
  "'w verix_os \<Rightarrow> verixFile \<Rightarrow> mem \<Rightarrow> int \<Rightarrow> i64 \<Rightarrow> 'w vx \<Rightarrow> int \<times> mem \<times> 'w vx" where
  "verixRead os f m amt offset s =
     (case os_lseek os (vf_h f) (int_of_i64 offset) (world s) of (ls, w) \<Rightarrow>
        let s1 = s\<lparr>world := w\<rparr> in
        if ls = - 1 then (SQLITE_IOERR_SHORT_READ, mem_fill m 0 0 amt, set_errno os s1)
        else case os_read os (vf_h f) amt w of (rd, bs, w2) \<Rightarrow>
          let s2 = s1\<lparr>world := w2\<rparr>; m2 = mem_put m 0 bs in
          if rd = amt then (SQLITE_OK, m2, s2)
          else (SQLITE_IOERR_SHORT_READ, mem_fill m2 rd 0 (amt - rd), set_errno os s2))"

text \<open>
  The write loop: it stops when the remaining amount is used up or a call fails; \<^verbatim>\<open>None\<close> is a
  loop that never ends.  \<^verbatim>\<open>p\<close> is the address \<^verbatim>\<open>pBuf\<close> has reached.
\<close>

partial_function (option) verixWriteLoop ::
  "'w verix_os \<Rightarrow> int \<Rightarrow> mem \<Rightarrow> int \<Rightarrow> int \<Rightarrow> 'w vx \<Rightarrow> (int \<times> 'w vx) option" where
  "verixWriteLoop os h m p amt s =
     (if amt > 0 then
        (case os_write os h (mem_get m p (nat amt)) (world s) of (w, wd) \<Rightarrow>
           let s1 = s\<lparr>world := wd\<rparr> in
           if w = - 1 then Some (SQLITE_IOERR_WRITE, set_errno os s1)
           else verixWriteLoop os h m (p + w) (amt - w) s1)
      else Some (SQLITE_OK, s))"

definition verixWrite ::
  "'w verix_os \<Rightarrow> verixFile \<Rightarrow> mem \<Rightarrow> int \<Rightarrow> i64 \<Rightarrow> 'w vx \<Rightarrow> (int \<times> 'w vx) option" where
  "verixWrite os f m amt offset s =
     (case os_lseek os (vf_h f) (int_of_i64 offset) (world s) of (ls, w) \<Rightarrow>
        let s1 = s\<lparr>world := w\<rparr> in
        if ls = - 1 then Some (SQLITE_IOERR_WRITE, set_errno os s1)
        else verixWriteLoop os (vf_h f) m 0 amt s1)"

definition verixTruncate ::
  "'w verix_os \<Rightarrow> verixFile \<Rightarrow> i64 \<Rightarrow> 'w vx \<Rightarrow> int \<times> 'w vx" where
  "verixTruncate os f nByte s =
     (case os_get_file_size os (vf_h f) (world s) of (rc, sz, w) \<Rightarrow>
        let s1 = s\<lparr>world := w\<rparr> in
        if rc \<noteq> 0 then (SQLITE_IOERR_TRUNCATE, set_errno os s1)
        else case os_lseek os (vf_h f) (int_of_i64 nByte) w of (ls, w2) \<Rightarrow>
          let s2 = s1\<lparr>world := w2\<rparr> in
          if ls = - 1 then (SQLITE_IOERR_TRUNCATE, set_errno os s2)
          else case os_delete_bytes os (vf_h f) (sz - int_of_i64 nByte) w2 of (d, w3) \<Rightarrow>
            let s3 = s2\<lparr>world := w3\<rparr> in
            if d \<noteq> 0 then (SQLITE_IOERR_TRUNCATE, set_errno os s3) else (SQLITE_OK, s3))"

definition verixSync :: "verixFile \<Rightarrow> int \<Rightarrow> 'w vx \<Rightarrow> int \<times> 'w vx" where
  "verixSync f flags s = (SQLITE_OK, s)"

text \<open>\<^verbatim>\<open>*pSize\<close> is written on success only: its old value is an argument.\<close>

definition verixFileSize ::
  "'w verix_os \<Rightarrow> verixFile \<Rightarrow> int \<Rightarrow> 'w vx \<Rightarrow> int \<times> int \<times> 'w vx" where
  "verixFileSize os f pSize s =
     (case os_dir_get_file_sz os (filename f) (world s) of (sz, w) \<Rightarrow>
        let s1 = s\<lparr>world := w\<rparr> in
        if sz = - 1 then (SQLITE_IOERR_FSTAT, pSize, set_errno os s1)
        else (SQLITE_OK, sz, s1))"

definition verixLock :: "'w verix_os \<Rightarrow> verixFile \<Rightarrow> int \<Rightarrow> 'w vx \<Rightarrow> int \<times> 'w vx" where
  "verixLock os f locktype s =
     (case os_lock os (vf_h f) (world s) of (ret, w) \<Rightarrow>
        let s1 = s\<lparr>world := w\<rparr> in
        if ret = 0 then (SQLITE_OK, s1) else (SQLITE_BUSY, set_errno os s1))"

text \<open>
  \<^verbatim>\<open>rc = 0\<close> of the branch that got the lock is overwritten by the \<^verbatim>\<open>rc = 1\<close> that follows the
  branch.
\<close>

definition verixCheckReservedLock ::
  "'w verix_os \<Rightarrow> verixFile \<Rightarrow> 'w vx \<Rightarrow> int \<times> int \<times> 'w vx" where
  "verixCheckReservedLock os f s =
     (case os_lock os (vf_h f) (world s) of (ret, w) \<Rightarrow>
        let w2 = (if ret = 0 then snd (os_unlock os (vf_h f) w) else w);
            rc = 1
        in (SQLITE_OK, rc, s\<lparr>world := w2\<rparr>))"

definition verixUnlock :: "'w verix_os \<Rightarrow> verixFile \<Rightarrow> int \<Rightarrow> 'w vx \<Rightarrow> int \<times> 'w vx" where
  "verixUnlock os f locktype s =
     (case os_unlock os (vf_h f) (world s) of (ret, w) \<Rightarrow>
        let s1 = s\<lparr>world := w\<rparr> in
        if ret = 0 then (SQLITE_OK, s1) else (SQLITE_IOERR_UNLOCK, set_errno os s1))"

definition verixFileControl :: "verixFile \<Rightarrow> int \<Rightarrow> 'w vx \<Rightarrow> int \<times> 'w vx" where
  "verixFileControl f op s = (SQLITE_OK, s)"

definition verixSectorSize :: "verixFile \<Rightarrow> int" where
  "verixSectorSize f = 4096"

definition verixDeviceCharacteristics :: "verixFile \<Rightarrow> int" where
  "verixDeviceCharacteristics f = 0"


subsection \<open>The VFS methods\<close>

definition SQLITE_OPEN_READONLY :: i32 where "SQLITE_OPEN_READONLY = 0x1"
definition SQLITE_OPEN_READWRITE :: i32 where "SQLITE_OPEN_READWRITE = 0x2"
definition SQLITE_OPEN_CREATE :: i32 where "SQLITE_OPEN_CREATE = 0x4"
definition SQLITE_OPEN_DELETEONCLOSE :: i32 where "SQLITE_OPEN_DELETEONCLOSE = 0x8"

lemma sqlite_open_flags [result_codes]:
  "SQLITE_OPEN_READONLY = 1" "SQLITE_OPEN_READWRITE = 2"
  "SQLITE_OPEN_CREATE = 4" "SQLITE_OPEN_DELETEONCLOSE = 8"
  by (simp_all add: SQLITE_OPEN_READONLY_def SQLITE_OPEN_READWRITE_def
      SQLITE_OPEN_CREATE_def SQLITE_OPEN_DELETEONCLOSE_def)

text \<open>
  The name that \<^verbatim>\<open>open\<close> is called with, in the local \<^verbatim>\<open>char filename[50]\<close>: \<^verbatim>\<open>tmp\<ticks>\<close> for a
  NULL name, else the name printed with itself as the format string.  \<^verbatim>\<open>None\<close> is undefined
  behaviour: a directive without its argument, or a name that does not fit.
\<close>

definition verixOpenName ::
  "'w verix_os \<Rightarrow> string option \<Rightarrow> 'w \<Rightarrow> string option \<times> 'w" where
  "verixOpenName os zName w =
     (case zName of
        None \<Rightarrow> (case os_read_ticks os w of (t, w2) \<Rightarrow> (Some (''tmp'' @ show_int t), w2))
      | Some z \<Rightarrow> (case fmt_noargs z of
            None \<Rightarrow> (None, w)
          | Some z' \<Rightarrow> (if length z' < 50 then Some z' else None, w)))"

definition verixOpenFlags :: "'w verix_os \<Rightarrow> i32 \<Rightarrow> int" where
  "verixOpenFlags os flags =
     (let openFlags = (if flags AND SQLITE_OPEN_READWRITE \<noteq> 0 then os_O_RDWR os
                       else os_O_RDONLY os)
      in if flags AND SQLITE_OPEN_CREATE \<noteq> 0 then openFlags OR os_O_CREAT os else openFlags)"

text \<open>
  \<^verbatim>\<open>pOutFlags\<close> is NULL (\<^verbatim>\<open>None\<close>) or the flags it points to.  The last statement copies
  \<^verbatim>\<open>zName\<close> itself into the 50 bytes of \<^verbatim>\<open>pFile->filename\<close>: undefined for a NULL name and for
  one that does not fit.
\<close>

definition verixOpen ::
  "'w verix_os \<Rightarrow> string option \<Rightarrow> verixFile \<Rightarrow> i32 \<Rightarrow> i32 option \<Rightarrow> 'w vx \<Rightarrow>
   (int \<times> verixFile \<times> i32 option \<times> 'w vx) exec" where
  "verixOpen os zName pFile flags pOutFlags s =
     (case verixOpenName os zName (world s) of
        (None, w) \<Rightarrow> Undefined
      | (Some fname, w) \<Rightarrow>
          let isTemp = (if flags AND SQLITE_OPEN_DELETEONCLOSE \<noteq> 0 then 1 else 0) in
          case os_open os fname (verixOpenFlags os flags) w of (h, w2) \<Rightarrow>
            let s2 = s\<lparr>world := w2\<rparr> in
            if h = - 1 then Done (SQLITE_CANTOPEN, pFile, pOutFlags, set_errno os s2)
            else
              let out = map_option (\<lambda>_. if flags AND SQLITE_OPEN_READWRITE \<noteq> 0
                          then SQLITE_OPEN_READWRITE else SQLITE_OPEN_READONLY) pOutFlags;
                  f1 = zeroed_file\<lparr>pMethod := Some VerixIoMethod, vf_h := h, temporary := isTemp\<rparr>
              in case zName of
                   None \<Rightarrow> Undefined
                 | Some z \<Rightarrow> if length z < MAX_VERIX_FILE_NAME
                              then Done (SQLITE_OK, f1\<lparr>filename := z\<rparr>, out, s2)
                              else Undefined)"

definition verixDelete :: "'w verix_os \<Rightarrow> string \<Rightarrow> int \<Rightarrow> 'w vx \<Rightarrow> int \<times> 'w vx" where
  "verixDelete os zFilename syncDir s =
     (case os_remove os zFilename (world s) of (ret, w) \<Rightarrow>
        let s1 = s\<lparr>world := w\<rparr> in
        if ret = 0 then (SQLITE_OK, s1)
        else (if os_errno os w = os_ENOENT os then SQLITE_IOERR_DELETE_NOENT
              else SQLITE_IOERR_DELETE, s1))"

text \<open>
  Access flags other than the three leave \<^verbatim>\<open>rc\<close> uninitialised (the \<^verbatim>\<open>assert\<close> is compiled
  out).
\<close>

definition verixAccess ::
  "'w verix_os \<Rightarrow> string \<Rightarrow> int \<Rightarrow> 'w vx \<Rightarrow> (int \<times> bool \<times> 'w vx) exec" where
  "verixAccess os zFilename flags s =
     (case os_dir_get_attributes os zFilename (world s) of (attr, w) \<Rightarrow>
        let s1 = s\<lparr>world := w\<rparr> in
        if flags = 2 \<or> flags = 0 then Done (SQLITE_OK, attr \<noteq> - 1, s1)
        else if flags = 1 then Done (SQLITE_OK, attr AND os_ATTR_READONLY os = 0, s1)
        else Undefined)"

text \<open>
  \<^verbatim>\<open>sqlite3_snprintf(mxPathname, zFull, "%s", zRelative)\<close>: at most \<^verbatim>\<open>mxPathname - 1\<close> bytes.
  The caller's \<^verbatim>\<open>nFull\<close> is not used.
\<close>

definition verix_mxPathname :: nat where "verix_mxPathname = 128"

definition verixFullPathname :: "string \<Rightarrow> nat \<Rightarrow> int \<times> string" where
  "verixFullPathname zRelative nFull = (SQLITE_OK, take (verix_mxPathname - 1) zRelative)"

fun verixRandomnessLoop :: "'w verix_os \<Rightarrow> nat \<Rightarrow> 'w \<Rightarrow> u8 list \<times> 'w" where
  "verixRandomnessLoop os 0 w = ([], w)"
| "verixRandomnessLoop os (Suc n) w =
     (case os_rand os w of (r, w1) \<Rightarrow>
        case verixRandomnessLoop os n w1 of (bs, w2) \<Rightarrow> (of_int (r smod 255) # bs, w2))"

definition verixRandomness :: "'w verix_os \<Rightarrow> int \<Rightarrow> 'w vx \<Rightarrow> int \<times> u8 list \<times> 'w vx" where
  "verixRandomness os nBuf s =
     (case verixRandomnessLoop os (nat nBuf) (world s) of (bs, w) \<Rightarrow>
        (nBuf, bs, s\<lparr>world := w\<rparr>))"

definition verixSleep :: "'w verix_os \<Rightarrow> int \<Rightarrow> 'w vx \<Rightarrow> (int \<times> 'w vx) exec" where
  "verixSleep os microsec s =
     (if microsec + 999 > 2 ^ 31 - 1 then Undefined
      else let ms = (microsec + 999) sdiv 1000
           in Done (ms * 1000, s\<lparr>world := os_SVC_WAIT os ms (world s)\<rparr>))"

text \<open>
  \<^verbatim>\<open>read_clock\<close> fills the zeroed 16-byte buffer with \<^verbatim>\<open>YYYYMMDDhhmmssW\<close>.  Each field is two
  bytes of it; the calendar arithmetic is in \<^verbatim>\<open>int\<close>, so every division truncates and the
  \<^verbatim>\<open>double\<close> result is a whole number.
\<close>

definition clock_field :: "string \<Rightarrow> nat \<Rightarrow> int" where
  "clock_field buf i = atoi (take 2 (drop i buf))"

definition verixJulianDay :: "int \<Rightarrow> int \<Rightarrow> int \<Rightarrow> int" where
  "verixJulianDay year month day =
     (let a = (14 - month) sdiv 12;
          y = year + 4800 - a;
          m = month + 12 * a - 3
      in day + (153 * m + 2) sdiv 5 + 365 * y + y sdiv 4 - y sdiv 100 + y sdiv 400 - 32045)"

definition verixCurrentTime :: "'w verix_os \<Rightarrow> 'w vx \<Rightarrow> int \<times> int \<times> 'w vx" where
  "verixCurrentTime os s =
     (case os_read_clock os (world s) of (clk, w) \<Rightarrow>
        let buf = clk @ replicate (16 - length clk) NUL;
            jdn = verixJulianDay (clock_field buf 2) (clock_field buf 4) (clock_field buf 6);
            jd = jdn + (clock_field buf 8 - 12) sdiv 24 + clock_field buf 10 sdiv 1440
                 + clock_field buf 12 sdiv 86400
        in (0, jd, s\<lparr>world := w\<rparr>))"

text \<open>
  The message is built in \<^verbatim>\<open>char msg[20]\<close>; the result has no terminating NUL.
\<close>

definition verixGetLastError :: "nat \<Rightarrow> 'w vx \<Rightarrow> (int \<times> u8 list) exec" where
  "verixGetLastError nBuf s =
     (let msg = ''verix errno: '' @ show_int (last_errno s) in
      if length msg \<ge> 20 then Undefined
      else if length msg \<ge> nBuf then Done (1, bytes_of (take nBuf msg))
      else Done (0, bytes_of msg))"

text \<open>
  The licence check, which nothing calls any more (its call in \<^verbatim>\<open>verixOpen\<close> is commented
  out).  \<^verbatim>\<open>memcmp\<close> is 0 exactly for equal bytes; which other value it has is not specified,
  here 1.
\<close>

definition verixLicensedVersion :: "'w verix_os \<Rightarrow> 'w vx \<Rightarrow> int \<times> 'w vx" where
  "verixLicensedVersion os s =
     (if verified s \<noteq> 0 then
        case os_SVC_INFO_SERLNO os (world s) of (sn, w1) \<Rightarrow>
          let sha = os_SHA1 os (bytes_of (sn @ ''an1che'' @ SQLITE_VERSION));
              iOldGroup = os_get_group os w1;
              w2 = os_set_group os 15 w1
          in case os_open os ''vxsqlite.lic'' (os_O_RDONLY os) w2 of (h, w3) \<Rightarrow>
            let w4 = os_set_group os iOldGroup w3 in
            if h \<le> 0 then (1, s\<lparr>world := w4\<rparr>)
            else case os_read os h 12 w4 of (rd, license, w5) \<Rightarrow>
              let w6 = snd (os_close os h w5) in
              if rd \<noteq> 12 then (1, s\<lparr>world := w6\<rparr>)
              else let v = (if license = take 12 (drop 5 sha) then 0 else 1)
                   in (v, s\<lparr>verified := v, world := w6\<rparr>)
      else (verified s, s))"

end
