(* ===== verification/VerixFile.thy ===== *)
theory VerixFile
  imports Verix
begin

text \<open>
  What the I/O methods of the Verix layer do to a file, under the documented behaviour of the
  Verix file calls (\<^verbatim>\<open>file_contract\<close>), and a small device that shows the contract can hold.
\<close>

subsection \<open>The contract of the Verix file calls\<close>

text \<open>
  \<^verbatim>\<open>cont w h\<close> is the content of the file behind handle \<^verbatim>\<open>h\<close> and \<^verbatim>\<open>pos w h\<close> its position.
  \<^verbatim>\<open>write\<close> of a non-empty buffer fails or writes at least one byte; \<^verbatim>\<open>delete_\<close> removes bytes
  at the position.
\<close>

definition lseek_contract where
  "lseek_contract os pos cont \<longleftrightarrow>
     (\<forall>h off w r w'. os_lseek os h off w = (r, w') \<longrightarrow> cont w' h = cont w h \<and>
        (r \<noteq> - 1 \<longrightarrow> 0 \<le> off \<and> pos w' h = nat off))"

definition write_contract where
  "write_contract os pos cont \<longleftrightarrow>
     (\<forall>h bs w r w'. os_write os h bs w = (r, w') \<longrightarrow> bs \<noteq> [] \<longrightarrow>
        r = - 1 \<or> (1 \<le> r \<and> r \<le> int (length bs) \<and>
          cont w' h = file_splice (cont w h) (pos w h) (take (nat r) bs) \<and>
          pos w' h = pos w h + nat r))"

definition read_contract where
  "read_contract os pos cont \<longleftrightarrow>
     (\<forall>h n w r bs w'. os_read os h n w = (r, bs, w') \<longrightarrow> 0 \<le> n \<longrightarrow>
        cont w' h = cont w h \<and>
        ((r = - 1 \<and> bs = []) \<or>
         (bs = take (nat n) (drop (pos w h) (cont w h)) \<and> r = int (length bs))))"

definition truncate_contract where
  "truncate_contract os pos cont \<longleftrightarrow>
     (\<forall>h w r sz w'. os_get_file_size os h w = (r, sz, w') \<longrightarrow> cont w' h = cont w h \<and>
        (r = 0 \<longrightarrow> sz = int (length (cont w h)))) \<and>
     (\<forall>h n w r w'. os_delete_bytes os h n w = (r, w') \<longrightarrow> r = 0 \<longrightarrow>
        0 \<le> n \<and> pos w h + nat n \<le> length (cont w h) \<and>
        cont w' h = take (pos w h) (cont w h) @ drop (pos w h + nat n) (cont w h))"

definition file_contract ::
  "'w verix_os \<Rightarrow> ('w \<Rightarrow> int \<Rightarrow> nat) \<Rightarrow> ('w \<Rightarrow> int \<Rightarrow> u8 list) \<Rightarrow> bool" where
  "file_contract os pos cont \<longleftrightarrow> lseek_contract os pos cont \<and> write_contract os pos cont \<and>
     read_contract os pos cont \<and> truncate_contract os pos cont"

lemma contract_lseek:
  assumes "file_contract os pos cont" and "os_lseek os h off w = (r, w')"
  shows "cont w' h = cont w h" and "r \<noteq> - 1 \<Longrightarrow> 0 \<le> off \<and> pos w' h = nat off"
  using assms by (auto simp: file_contract_def lseek_contract_def)

lemma contract_write:
  assumes "file_contract os pos cont" and "os_write os h bs w = (r, w')"
    and "bs \<noteq> []" and "r \<noteq> - 1"
  shows "1 \<le> r" and "r \<le> int (length bs)"
    and "cont w' h = file_splice (cont w h) (pos w h) (take (nat r) bs)"
    and "pos w' h = pos w h + nat r"
  using assms unfolding file_contract_def write_contract_def by blast+

lemma contract_read:
  assumes "file_contract os pos cont" and "os_read os h n w = (r, bs, w')" and "0 \<le> n"
  shows "cont w' h = cont w h"
    and "(r = - 1 \<and> bs = []) \<or>
      (bs = take (nat n) (drop (pos w h) (cont w h)) \<and> r = int (length bs))"
  using assms unfolding file_contract_def read_contract_def by blast+

lemma contract_truncate:
  assumes "file_contract os pos cont"
  shows "os_get_file_size os h w = (r, sz, w') \<Longrightarrow> cont w' h = cont w h"
    and "os_get_file_size os h w = (0, sz, w') \<Longrightarrow> sz = int (length (cont w h))"
    and "os_delete_bytes os h n w = (0, w') \<Longrightarrow>
      0 \<le> n \<and> pos w h + nat n \<le> length (cont w h) \<and>
      cont w' h = take (pos w h) (cont w h) @ drop (pos w h + nat n) (cont w h)"
  using assms unfolding file_contract_def truncate_contract_def by blast+

lemma world_set_errno [simp]: "world (set_errno os s) = world s"
  by (simp add: set_errno_def)

subsection \<open>Writing\<close>

lemma mem_get_nonempty [simp]: "mem_get m p n = [] \<longleftrightarrow> n = 0"
  by (metis length_0_conv length_mem_get)

text \<open>
  A transfer fails only where the device does: \<^verbatim>\<open>seek_fails\<close> is a seek that reports -1, and
  \<^verbatim>\<open>write_stopped\<close> says that the device ended in state \<^verbatim>\<open>w'\<close> when its \<^verbatim>\<open>write\<close> reported -1 for what was
  left of the bytes \<^verbatim>\<open>bs\<close>, after the \<^verbatim>\<open>k\<close> bytes before that had been written from \<^verbatim>\<open>q\<close> on.
\<close>

definition seek_fails :: "'w verix_os \<Rightarrow> int \<Rightarrow> int \<Rightarrow> 'w \<Rightarrow> bool" where
  "seek_fails os h off w \<longleftrightarrow> fst (os_lseek os h off w) = - 1"

definition write_stopped ::
  "'w verix_os \<Rightarrow> ('w \<Rightarrow> int \<Rightarrow> u8 list) \<Rightarrow> int \<Rightarrow> u8 list \<Rightarrow> nat \<Rightarrow> u8 list \<Rightarrow> 'w \<Rightarrow> bool"
where
  "write_stopped os cont h c q bs w' \<longleftrightarrow>
     (\<exists>k w. k < length bs \<and> cont w h = file_splice c q (take k bs) \<and> os_write os h (drop k bs) w = (- 1, w'))"

lemma write_stopped_first:
  "bs \<noteq> [] \<Longrightarrow> os_write os h bs w = (- 1, w') \<Longrightarrow> write_stopped os cont h (cont w h) q bs w'"
  unfolding write_stopped_def by (intro exI [of _ 0] exI [of _ w]) simp

lemma write_stopped_later:
  assumes "write_stopped os cont h (file_splice c q as) (q + length as) bs w'" "as \<noteq> []"
  shows "write_stopped os cont h c q (as @ bs) w'"
proof -
  from assms(1) obtain k w where k: "k < length bs" "os_write os h (drop k bs) w = (- 1, w')"
      "cont w h = file_splice (file_splice c q as) (q + length as) (take k bs)" by (auto simp: write_stopped_def)
  then show ?thesis
    unfolding write_stopped_def using file_splice_comp [OF assms(2)]
    by (intro exI [of _ "length as + k"] exI [of _ w]) simp
qed

lemma verixWriteLoop_ok:
  assumes "file_contract os pos cont"
  shows "\<exists>rc s'. verixWriteLoop os h m p amt s = Some (rc, s') \<and>
    (rc = SQLITE_OK \<and>
       cont (world s') h =
         file_splice (cont (world s) h) (pos (world s) h) (mem_get m p (nat amt)) \<or>
     rc = SQLITE_IOERR_WRITE \<and> last_errno s' = os_errno os (world s') \<and>
       write_stopped os cont h (cont (world s) h) (pos (world s) h) (mem_get m p (nat amt)) (world s'))"
proof (induction "nat amt" arbitrary: p amt s rule: less_induct)
  case less
  show ?case
  proof (cases "amt > 0")
    case False
    then show ?thesis by (subst verixWriteLoop.simps) simp
  next
    case True
    let ?bs = "mem_get m p (nat amt)"
    obtain w wd where w: "os_write os h ?bs (world s) = (w, wd)" by force
    show ?thesis
    proof (cases "w = - 1")
      case True
      then have "write_stopped os cont h (cont (world s) h) (pos (world s) h) ?bs wd"
        using w \<open>amt > 0\<close> by (intro write_stopped_first) simp_all
      with True \<open>amt > 0\<close> w show ?thesis by (subst verixWriteLoop.simps) (simp add: set_errno_def)
    next
      case False
      have ne: "?bs \<noteq> []" using True by simp
      note step = contract_write [OF assms w ne False]
      let ?s = "s\<lparr>world := wd\<rparr>"
      have "nat (amt - w) < nat amt" using True step(1) by simp
      from less [OF this, of "p + w" ?s] obtain rc s' where
        run: "verixWriteLoop os h m (p + w) (amt - w) ?s = Some (rc, s')" and
        post: "rc = SQLITE_OK \<and> cont (world s') h = file_splice (cont wd h) (pos wd h)
                 (mem_get m (p + w) (nat (amt - w))) \<or>
          rc = SQLITE_IOERR_WRITE \<and> last_errno s' = os_errno os (world s') \<and>
            write_stopped os cont h (cont wd h) (pos wd h) (mem_get m (p + w) (nat (amt - w))) (world s')"
        by auto
      have w_le: "nat w \<le> nat amt" using step(2) True by simp
      have split: "?bs = mem_get m p (nat w) @ mem_get m (p + w) (nat (amt - w))"
      proof -
        have "nat w + nat (amt - w) = nat amt" using step(1,2) True by simp
        with mem_get_append [of m p "nat w" "nat (amt - w)"] step(1) show ?thesis by simp
      qed
      have first: "take (nat w) ?bs = mem_get m p (nat w)"
        using w_le by (rule take_mem_get)
      have "file_splice (cont wd h) (pos wd h) (mem_get m (p + w) (nat (amt - w)))
            = file_splice (cont (world s) h) (pos (world s) h) ?bs"
        using file_splice_comp [of "mem_get m p (nat w)" "cont (world s) h" "pos (world s) h"
            "mem_get m (p + w) (nat (amt - w))"] step(1) split
        by (simp add: step(3,4) first)
      moreover have "write_stopped os cont h (cont (world s) h) (pos (world s) h) ?bs (world s')"
        if "write_stopped os cont h (cont wd h) (pos wd h) (mem_get m (p + w) (nat (amt - w))) (world s')"
        unfolding split
      proof (rule write_stopped_later)
        have "length (mem_get m p (nat w)) = nat w" by simp
        then show "write_stopped os cont h (file_splice (cont (world s) h) (pos (world s) h) (mem_get m p (nat w)))
            (pos (world s) h + length (mem_get m p (nat w))) (mem_get m (p + w) (nat (amt - w))) (world s')"
          using that step(3,4) by (simp only: first)
      qed (use step(1) in simp)
      ultimately have "rc = SQLITE_OK \<and> cont (world s') h =
          file_splice (cont (world s) h) (pos (world s) h) ?bs \<or>
          rc = SQLITE_IOERR_WRITE \<and> last_errno s' = os_errno os (world s') \<and>
            write_stopped os cont h (cont (world s) h) (pos (world s) h) ?bs (world s')"
        using post by auto
      moreover have "verixWriteLoop os h m p amt s = Some (rc, s')"
        using True False w run by (subst verixWriteLoop.simps) simp
      ultimately show ?thesis by blast
    qed
  qed
qed

lemma verixWrite_ok:
  assumes "file_contract os pos cont"
  shows "\<exists>rc s'. verixWrite os f m amt offset s = Some (rc, s') \<and>
    (rc = SQLITE_OK \<and> 0 \<le> int_of_i64 offset \<and>
       cont (world s') (vf_h f) =
         file_splice (cont (world s) (vf_h f)) (nat (int_of_i64 offset)) (mem_get m 0 (nat amt)) \<or>
     rc = SQLITE_IOERR_WRITE \<and> last_errno s' = os_errno os (world s') \<and>
       (seek_fails os (vf_h f) (int_of_i64 offset) (world s) \<and>
          world s' = snd (os_lseek os (vf_h f) (int_of_i64 offset) (world s)) \<or>
        0 \<le> int_of_i64 offset \<and> write_stopped os cont (vf_h f) (cont (world s) (vf_h f)) (nat (int_of_i64 offset))
          (mem_get m 0 (nat amt)) (world s')))"
proof -
  obtain ls w where ls: "os_lseek os (vf_h f) (int_of_i64 offset) (world s) = (ls, w)" by force
  note seek = contract_lseek [OF assms ls]
  show ?thesis
  proof (cases "ls = - 1")
    case True
    then show ?thesis by (simp add: verixWrite_def ls seek_fails_def set_errno_def)
  next
    case False
    with verixWriteLoop_ok [OF assms, of "vf_h f" m 0 amt "s\<lparr>world := w\<rparr>"] seek
    show ?thesis by (auto simp: verixWrite_def ls)
  qed
qed

lemma verixWriteLoop_stuck:
  assumes stuck: "\<forall>bs w. os_write os h bs w = (0, w)" and "amt > 0"
  shows "verixWriteLoop os h m p amt s = None"
proof (rule ccontr)
  assume "verixWriteLoop os h m p amt s \<noteq> None"
  then obtain r where "verixWriteLoop os h m p amt s = Some r" by auto
  then have "(\<forall>bs w. os_write os h bs w = (0, w)) \<longrightarrow> amt \<le> 0"
  proof (rule verixWriteLoop.raw_induct [rotated], goal_cases)
    case (1 f os h m p amt s r)
    show ?case
    proof
      assume stuck: "\<forall>bs w. os_write os h bs w = (0, w)"
      show "amt \<le> 0"
      proof (rule ccontr)
        assume "\<not> amt \<le> 0"
        with 1(2) stuck have "f os h m p amt (s\<lparr>world := world s\<rparr>) = Some r" by simp
        from 1(1) [OF this] stuck \<open>\<not> amt \<le> 0\<close> show False by blast
      qed
    qed
  qed
  with assms show False by simp
qed

subsection \<open>Reading\<close>

lemma mem_get_put_fill:
  assumes "length bs \<le> n"
  shows "mem_get (mem_fill (mem_put m 0 bs) (int (length bs)) 0 (int n - int (length bs))) 0 n
         = bs @ replicate (n - length bs) 0"
  using assms
  by (intro nth_equalityI) (auto simp: mem_fill_def mem_put_def nth_append)

lemma mem_get_fill_zero: "mem_get (mem_fill m 0 0 (int n)) 0 n = replicate n 0"
  by (rule nth_equalityI) (auto simp: mem_fill_def)

definition read_fails :: "'w verix_os \<Rightarrow> int \<Rightarrow> int \<Rightarrow> int \<Rightarrow> 'w \<Rightarrow> bool" where
  "read_fails os h off amt w \<longleftrightarrow> fst (os_read os h amt (snd (os_lseek os h off w))) = - 1"

text \<open>The three outcomes: no seek, a failed \<^verbatim>\<open>read\<close>, and bytes, all or as many as the file has.\<close>

lemma verixRead_noseek:
  assumes "seek_fails os (vf_h f) (int_of_i64 offset) (world s)" and "0 < amt"
    and run: "verixRead os f m amt offset s = (rc, m', s')"
  shows "rc = SQLITE_IOERR_SHORT_READ" "mem_get m' 0 (nat amt) = replicate (nat amt) 0"
    "i < 0 \<or> amt \<le> i \<Longrightarrow> m' i = m i" "last_errno s' = os_errno os (world s')"
    "world s' = snd (os_lseek os (vf_h f) (int_of_i64 offset) (world s))"
proof -
  obtain w where ls: "os_lseek os (vf_h f) (int_of_i64 offset) (world s) = (- 1, w)"
    using assms(1) by (metis seek_fails_def prod.collapse)
  have r: "rc = SQLITE_IOERR_SHORT_READ" "m' = mem_fill m 0 0 amt" "s' = set_errno os (s\<lparr>world := w\<rparr>)"
    using run by (simp_all add: verixRead_def ls)
  show "rc = SQLITE_IOERR_SHORT_READ" "last_errno s' = os_errno os (world s')"
    "world s' = snd (os_lseek os (vf_h f) (int_of_i64 offset) (world s))"
    using r by (simp_all add: ls set_errno_def)
  show "mem_get m' 0 (nat amt) = replicate (nat amt) 0"
    using r(2) mem_get_fill_zero [of m "nat amt"] assms(2) by simp
  show "m' i = m i" if "i < 0 \<or> amt \<le> i" using that r(2) by (auto simp: mem_fill_def)
qed

lemma verixRead_noread:
  assumes "file_contract os pos cont" and "\<not> seek_fails os (vf_h f) (int_of_i64 offset) (world s)"
    and "read_fails os (vf_h f) (int_of_i64 offset) amt (world s)" and "0 < amt"
    and run: "verixRead os f m amt offset s = (rc, m', s')"
  shows "rc = SQLITE_IOERR_SHORT_READ" "mem_get m' 0 (nat amt) = replicate (nat amt) 0" "m' (- 1) = 0"
    "i < - 1 \<or> amt \<le> i \<Longrightarrow> m' i = m i" "last_errno s' = os_errno os (world s')"
    "cont (world s') (vf_h f) = cont (world s) (vf_h f)"
proof -
  obtain ls w where ls: "os_lseek os (vf_h f) (int_of_i64 offset) (world s) = (ls, w)" by force
  have ok: "ls \<noteq> - 1" using assms(2) by (simp add: seek_fails_def ls)
  obtain bs w2 where rd: "os_read os (vf_h f) amt w = (- 1, bs, w2)"
    using assms(3) by (metis read_fails_def ls snd_conv prod.collapse)
  have bs: "bs = []" "cont w2 (vf_h f) = cont w (vf_h f)"
    using contract_read [OF assms(1) rd] assms(4) by auto
  have r: "rc = SQLITE_IOERR_SHORT_READ" "m' = mem_fill m (- 1) 0 (amt + 1)" "s' = set_errno os (s\<lparr>world := w2\<rparr>)"
    using run ok assms(4) by (simp_all add: verixRead_def ls rd bs(1))
  show "rc = SQLITE_IOERR_SHORT_READ" "last_errno s' = os_errno os (world s')"
    using r by (simp_all add: set_errno_def)
  show "m' (- 1) = 0" using r(2) assms(4) by (simp add: mem_fill_def)
  show "m' i = m i" if "i < - 1 \<or> amt \<le> i" using that r(2) by (auto simp: mem_fill_def)
  show "mem_get m' 0 (nat amt) = replicate (nat amt) 0"
    unfolding r(2) by (rule nth_equalityI) (auto simp: mem_fill_def)
  show "cont (world s') (vf_h f) = cont (world s) (vf_h f)"
    using r(3) bs(2) contract_lseek(1) [OF assms(1) ls] by simp
qed

lemma verixRead_bytes:
  assumes ctr: "file_contract os pos cont" and "\<not> seek_fails os (vf_h f) (int_of_i64 offset) (world s)"
    and "\<not> read_fails os (vf_h f) (int_of_i64 offset) amt (world s)" and amt: "0 < amt"
    and run: "verixRead os f m amt offset s = (rc, m', s')"
  defines "file \<equiv> cont (world s) (vf_h f)"
  defines "bs \<equiv> take (nat amt) (drop (nat (int_of_i64 offset)) file)"
  shows "0 \<le> int_of_i64 offset" "rc = (if length bs = nat amt then SQLITE_OK else SQLITE_IOERR_SHORT_READ)"
    "mem_get m' 0 (nat amt) = bs @ replicate (nat amt - length bs) 0"
    "i < 0 \<or> amt \<le> i \<Longrightarrow> m' i = m i" "cont (world s') (vf_h f) = file"
proof -
  let ?h = "vf_h f" and ?off = "int_of_i64 offset"
  obtain ls w where ls: "os_lseek os ?h ?off (world s) = (ls, w)" by force
  obtain rd rs w2 where rd: "os_read os ?h amt w = (rd, rs, w2)" by (metis prod_cases3)
  have ok: "ls \<noteq> - 1" "rd \<noteq> - 1" using assms(2,3) by (simp_all add: seek_fails_def read_fails_def ls rd)
  note seek = contract_lseek [OF ctr ls]
  show "0 \<le> ?off" using seek ok by simp
  have reads: "cont w2 ?h = file" "rs = bs" "rd = int (length bs)"
    using contract_read [OF ctr rd] amt ok seek by (auto simp: file_def bs_def)
  have len: "length bs \<le> nat amt" by (simp add: bs_def)
  have full: "rd = amt \<longleftrightarrow> length bs = nat amt" using reads(3) amt by auto
  have r: "rc = (if rd = amt then SQLITE_OK else SQLITE_IOERR_SHORT_READ)" "world s' = w2"
    "m' = (if rd = amt then mem_put m 0 bs else mem_fill (mem_put m 0 bs) rd 0 (amt - rd))"
    using run ok by (auto simp: verixRead_def ls rd reads(2) Let_def set_errno_def split: if_splits)
  show "rc = (if length bs = nat amt then SQLITE_OK else SQLITE_IOERR_SHORT_READ)" using r(1) full by simp
  show "cont (world s') ?h = file" using r(2) reads(1) by simp
  show "m' i = m i" if "i < 0 \<or> amt \<le> i"
    using that r(3) len reads(3) amt by (auto simp: mem_put_def mem_fill_def split: if_splits)
  show "mem_get m' 0 (nat amt) = bs @ replicate (nat amt - length bs) 0"
  proof (cases "rd = amt")
    case True
    then show ?thesis using r(3) full mem_get_put_same [of m 0 bs] by simp
  next
    case False
    then show ?thesis using r(3) mem_get_put_fill [OF len, of m] reads(3) amt by simp
  qed
qed

lemma verixRead_failed:
  assumes "os_lseek os (vf_h f) (int_of_i64 offset) (world s) = (ls, w)" and "ls \<noteq> - 1"
    and "os_read os (vf_h f) amt w = (- 1, bs, w2)" and "bs = []" and "0 \<le> amt"
  shows "verixRead os f m amt offset s =
    (SQLITE_IOERR_SHORT_READ, mem_fill m (- 1) 0 (amt + 1), set_errno os (s\<lparr>world := w2\<rparr>))"
  using assms by (simp add: verixRead_def)

subsection \<open>Truncating\<close>

text \<open>One of the three calls of \<^verbatim>\<open>verixTruncate\<close> fails.\<close>

definition truncate_fails :: "'w verix_os \<Rightarrow> int \<Rightarrow> int \<Rightarrow> 'w \<Rightarrow> bool" where
  "truncate_fails os h n w =
     (case os_get_file_size os h w of (g, sz, w) \<Rightarrow> g \<noteq> 0 \<or>
        (case os_lseek os h n w of (ls, w) \<Rightarrow> ls = - 1 \<or> fst (os_delete_bytes os h (sz - n) w) \<noteq> 0))"

lemma verixTruncate_ok:
  assumes ctr: "file_contract os pos cont"
    and run: "verixTruncate os f nByte s = (rc, s')"
  shows "if truncate_fails os (vf_h f) (int_of_i64 nByte) (world s)
    then rc = SQLITE_IOERR_TRUNCATE \<and> last_errno s' = os_errno os (world s')
    else rc = SQLITE_OK \<and> 0 \<le> int_of_i64 nByte \<and>
      nat (int_of_i64 nByte) \<le> length (cont (world s) (vf_h f)) \<and>
      cont (world s') (vf_h f) = take (nat (int_of_i64 nByte)) (cont (world s) (vf_h f))"
proof -
  let ?h = "vf_h f" and ?n = "int_of_i64 nByte"
  obtain g sz w where g: "os_get_file_size os ?h (world s) = (g, sz, w)" by (metis prod_cases3)
  obtain ls w2 where ls: "os_lseek os ?h ?n w = (ls, w2)" by force
  obtain d w3 where d: "os_delete_bytes os ?h (sz - ?n) w2 = (d, w3)" by force
  have fails: "truncate_fails os ?h ?n (world s) \<longleftrightarrow> \<not> (g = 0 \<and> ls \<noteq> - 1 \<and> d = 0)"
    by (auto simp: truncate_fails_def g ls d)
  show ?thesis
  proof (cases "g = 0 \<and> ls \<noteq> - 1 \<and> d = 0")
    case False
    with run show ?thesis unfolding fails by (auto simp: verixTruncate_def g ls d Let_def set_errno_def split: if_splits)
  next
    case True
    note seek = contract_lseek [OF ctr ls]
    have "sz = int (length (cont (world s) ?h))" "cont w ?h = cont (world s) ?h"
      using contract_truncate(1,2) [OF ctr] g True by metis+
    moreover have "0 \<le> ?n" "pos w2 ?h = nat ?n" "cont w2 ?h = cont w ?h"
      using seek True by auto
    moreover have "0 \<le> sz - ?n" "cont w3 ?h =
        take (pos w2 ?h) (cont w2 ?h) @ drop (pos w2 ?h + nat (sz - ?n)) (cont w2 ?h)"
      using contract_truncate(3) [OF ctr] d True by blast+
    moreover have "rc = SQLITE_OK" "world s' = w3"
      using run True by (auto simp: verixTruncate_def g ls d)
    ultimately show ?thesis using True unfolding fails by auto
  qed
qed

subsection \<open>Opening and closing\<close>

lemma verixOpen_plain:
  assumes "CHR ''%'' \<notin> set z" and "length z < MAX_VERIX_FILE_NAME"
    and "os_open os z (verixOpenFlags os flags) (world s) = (h, w)"
  shows "verixOpen os (Some z) f flags out s =
    (if h = - 1 then Done (SQLITE_CANTOPEN, f, out, set_errno os (s\<lparr>world := w\<rparr>))
     else Done (SQLITE_OK,
       \<lparr>pMethod = Some VerixIoMethod, vf_h = h,
        temporary = (if flags AND SQLITE_OPEN_DELETEONCLOSE \<noteq> 0 then 1 else 0), filename = z\<rparr>,
       map_option (\<lambda>_. if flags AND SQLITE_OPEN_READWRITE \<noteq> 0
                          then SQLITE_OPEN_READWRITE else SQLITE_OPEN_READONLY) out,
       s\<lparr>world := w\<rparr>))"
  using assms
  by (simp add: verixOpen_def verixOpenName_def MAX_VERIX_FILE_NAME_def zeroed_file_def Let_def)

lemma verixOpen_null:
  assumes "os_read_ticks os (world s) = (t, w)"
    and "os_open os (''tmp'' @ show_int t) (verixOpenFlags os flags) w = (h, w2)" and "h \<noteq> - 1"
  shows "verixOpen os None f flags out s = Undefined"
  using assms by (simp add: verixOpen_def verixOpenName_def)

lemma verixClose_ok:
  assumes "os_close os (vf_h f) (world s) = (0, w)"
  shows "temporary f \<noteq> 1 \<Longrightarrow> verixClose os f s = (SQLITE_OK, s\<lparr>world := w\<rparr>)"
    and "temporary f = 1 \<Longrightarrow> os_remove os (filename f) w = (r, w2) \<Longrightarrow>
      verixClose os f s = (if r = 0 then (SQLITE_OK, s\<lparr>world := w2\<rparr>)
        else (SQLITE_IOERR, set_errno os (s\<lparr>world := w2\<rparr>)))"
  using assms by (simp_all add: verixClose_def)

subsection \<open>The clock\<close>

fun leap_year :: "int \<Rightarrow> bool" where
  "leap_year y \<longleftrightarrow> 4 dvd y \<and> (\<not> 100 dvd y \<or> 400 dvd y)"

fun days_in_month :: "int \<Rightarrow> int \<Rightarrow> int" where
  "days_in_month y m =
     (if m = 2 then (if leap_year y then 29 else 28)
      else if m \<in> {4, 6, 9, 11} then 30 else 31)"

fun next_day :: "int \<times> int \<times> int \<Rightarrow> int \<times> int \<times> int" where
  "next_day (y, m, d) =
     (if d < days_in_month y m then (y, m, d + 1)
      else if m < 12 then (y, m + 1, 1) else (y + 1, 1, 1))"

lemma sdiv_nonneg: "0 \<le> a \<Longrightarrow> 0 < b \<Longrightarrow> a sdiv b = a div b" for a b :: int
  by (cases "a = 0") (simp_all add: signed_divide_int_def)

lemma smod_nonneg: "0 \<le> a \<Longrightarrow> 0 < b \<Longrightarrow> a smod b = a mod b" for a b :: int
  by (cases "a = 0") (simp_all add: signed_modulo_int_def)

lemma div_pred:
  fixes k y :: int
  assumes "1 < k"
  shows "y div k = (y - 1) div k + (if k dvd y then 1 else 0)"
proof (cases "k dvd y")
  case True
  then obtain q where "y = k * q" ..
  with assms have "(y - 1) div k = q - 1"
    by (intro int_div_pos_eq [where r = "k - 1"]) (auto simp: algebra_simps)
  with assms \<open>y = k * q\<close> show ?thesis by simp
next
  case False
  have "y mod k \<noteq> 0" using False by (simp add: dvd_eq_mod_eq_0)
  then have "0 \<le> y mod k - 1" "y mod k - 1 < k"
    using pos_mod_bound [of k y] pos_mod_sign [of k y] assms by linarith+
  then have "(y - 1) div k = y div k"
    by (intro int_div_pos_eq [where r = "y mod k - 1"]) (auto simp: algebra_simps)
  with False show ?thesis by simp
qed

definition years_before :: "int \<Rightarrow> int" where
  "years_before y = 365 * y + y div 4 - y div 100 + y div 400"

lemma leap_count:
  "(c100 \<longrightarrow> c4) \<Longrightarrow> (c400 \<longrightarrow> c100) \<Longrightarrow>
   a - b + c = (a - (if c4 then 1 else 0)) - (b - (if c100 then 1 else 0))
     + (c - (if c400 then 1 else 0)) + (if c4 \<and> (\<not> c100 \<or> c400) then 1 else (0::int))"
  by auto

lemma years_before_step:
  "years_before y = years_before (y - 1) + 365 + (if leap_year y then 1 else 0)"
proof -
  have dvd: "100 dvd y \<longrightarrow> 4 dvd y" "400 dvd y \<longrightarrow> 100 dvd y"
    using dvd_trans [of 4 100 y] dvd_trans [of 100 400 y] by simp_all
  have pred: "(y - 1) div 4 = y div 4 - (if 4 dvd y then 1 else 0)"
    "(y - 1) div 100 = y div 100 - (if 100 dvd y then 1 else 0)"
    "(y - 1) div 400 = y div 400 - (if 400 dvd y then 1 else 0)"
    using div_pred [of 4 y] div_pred [of 100 y] div_pred [of 400 y] by (simp_all only: diff_add_cancel add_diff_cancel)
  show ?thesis
    unfolding years_before_def pred leap_year.simps
    using leap_count [OF dvd, of "y div 4" "y div 100" "y div 400"] by (simp add: right_diff_distrib)
qed

lemma leap_year_4800 [simp]: "leap_year (y + 4800) = leap_year y"
  by (simp add: dvd_add_left_iff)

lemma verixJulianDay_eq:
  assumes "0 \<le> y" and "1 \<le> m" and "m \<le> 12"
  shows "verixJulianDay y m d = d - 32045 +
    (if m \<le> 2 then (153 * (m + 9) + 2) div 5 + years_before (y + 4800 - 1)
     else (153 * (m - 3) + 2) div 5 + years_before (y + 4800))"
proof -
  have "(14 - m) sdiv 12 = (if m \<le> 2 then 1 else 0)"
    using assms by (auto simp: sdiv_nonneg)
  with assms show ?thesis
    by (simp add: verixJulianDay_def years_before_def sdiv_nonneg Let_def)
qed

lemma verixJulianDay_next:
  assumes "0 \<le> y" and "m \<in> {1..12}" and "1 \<le> d" and "d \<le> days_in_month y m"
    and "next_day (y, m, d) = (y', m', d')"
  shows "verixJulianDay y' m' d' = verixJulianDay y m d + 1"
proof (cases "d < days_in_month y m")
  case True
  with assms show ?thesis by (auto simp: verixJulianDay_eq)
next
  case False
  with assms have d: "d = days_in_month y m" by simp
  have "m = 1 \<or> m = 2 \<or> m = 3 \<or> m = 4 \<or> m = 5 \<or> m = 6 \<or> m = 7 \<or> m = 8 \<or> m = 9 \<or>
      m = 10 \<or> m = 11 \<or> m = 12"
    using assms(2) unfolding atLeastAtMost_iff by presburger
  with d assms(1,5) years_before_step [of "y + 4800"] show ?thesis
    by (elim disjE) (auto simp del: leap_year.simps simp: verixJulianDay_eq add.commute)
qed

lemma sdiv_small: "\<bar>a\<bar> < b \<Longrightarrow> a sdiv b = 0" for a b :: int
  by (simp add: signed_divide_int_def)

subsection \<open>Randomness and sleeping\<close>

lemma verixRandomnessLoop_bytes:
  assumes "\<And>w. 0 \<le> fst (os_rand os w)"
  shows "length (fst (verixRandomnessLoop os n w)) = n \<and>
    (\<forall>b \<in> set (fst (verixRandomnessLoop os n w)). b \<noteq> 255)"
proof (induction n arbitrary: w)
  case 0
  show ?case by simp
next
  case (Suc n)
  obtain r w1 where r: "os_rand os w = (r, w1)" by force
  with assms [of w] have "0 \<le> r" by simp
  then have m: "0 \<le> r smod 255 \<and> r smod 255 < 255"
    by (simp add: smod_nonneg)
  have "(of_int (r smod 255) :: u8) \<noteq> 255"
  proof
    assume "(of_int (r smod 255) :: u8) = 255"
    then have "uint (of_int (r smod 255) :: u8) = 255" by simp
    with m show False by (simp add: uint_word_of_int)
  qed
  with Suc.IH [of w1] show ?case by (simp add: r split: prod.split) (metis fst_conv)
qed

subsection \<open>A device with one file\<close>

text \<open>
  An instance of the contract: the world is the position and the content of one file; a call
  of \<^verbatim>\<open>write\<close> takes at most three bytes, so that longer writes go round the loop.
\<close>

definition ram_os :: "(nat \<times> u8 list) verix_os" where
  "ram_os = \<lparr>
     os_open = (\<lambda>z fl w. (3, w)),
     os_close = (\<lambda>h w. (0, w)),
     os_remove = (\<lambda>z w. (0, (fst w, []))),
     os_lseek = (\<lambda>h off w. if off < 0 then (- 1, w) else (off, (nat off, snd w))),
     os_read = (\<lambda>h n w. let bs = take (nat n) (drop (fst w) (snd w))
                        in (int (length bs), bs, (fst w + length bs, snd w))),
     os_write = (\<lambda>h bs w. let ds = take 3 bs
                        in (int (length ds), (fst w + length ds, file_splice (snd w) (fst w) ds))),
     os_get_file_size = (\<lambda>h w. (0, int (length (snd w)), w)),
     os_delete_bytes = (\<lambda>h n w. if 0 \<le> n \<and> fst w + nat n \<le> length (snd w)
        then (0, (fst w, take (fst w) (snd w) @ drop (fst w + nat n) (snd w))) else (- 1, w)),
     os_dir_get_file_sz = (\<lambda>z w. (int (length (snd w)), w)),
     os_dir_get_attributes = (\<lambda>z w. (0, w)),
     os_lock = (\<lambda>h w. (0, w)), os_unlock = (\<lambda>h w. (0, w)),
     os_errno = (\<lambda>w. 22), os_rand = (\<lambda>w. (7, w)), os_SVC_WAIT = (\<lambda>n w. w),
     os_read_clock = (\<lambda>w. (''201506171530204'', w)), os_read_ticks = (\<lambda>w. (12345, w)),
     os_SVC_INFO_SERLNO = (\<lambda>w. (''123-456-789'', w)), os_SHA1 = (\<lambda>bs. replicate 20 0),
     os_get_group = (\<lambda>w. 1), os_set_group = (\<lambda>g w. w),
     os_O_RDWR = 2, os_O_RDONLY = 0, os_O_CREAT = 512, os_ENOENT = 2, os_ATTR_READONLY = 1\<rparr>"

abbreviation ram_pos :: "nat \<times> u8 list \<Rightarrow> int \<Rightarrow> nat" where
  "ram_pos w h \<equiv> fst w"

abbreviation ram_cont :: "nat \<times> u8 list \<Rightarrow> int \<Rightarrow> u8 list" where
  "ram_cont w h \<equiv> snd w"

lemma ram_os_contract: "file_contract ram_os ram_pos ram_cont"
proof -
  have "lseek_contract ram_os ram_pos ram_cont"
    by (auto simp: lseek_contract_def ram_os_def split: if_splits)
  moreover have "write_contract ram_os ram_pos ram_cont"
    by (auto simp: write_contract_def ram_os_def Let_def Suc_le_eq min_def)
  moreover have "read_contract ram_os ram_pos ram_cont"
    by (auto simp: read_contract_def ram_os_def Let_def)
  moreover have "truncate_contract ram_os ram_pos ram_cont"
    by (auto simp: truncate_contract_def ram_os_def split: if_splits)
  ultimately show ?thesis by (simp add: file_contract_def)
qed

lemma ram_never_fails:
  "seek_fails ram_os h off w \<longleftrightarrow> off < 0" "\<not> read_fails ram_os h off amt w" "\<not> write_stopped ram_os cont h c q bs w"
  by (auto simp: seek_fails_def read_fails_def write_stopped_def ram_os_def Let_def)

lemma ram_seek: "0 \<le> off \<Longrightarrow> os_lseek ram_os h off w = (off, (nat off, snd w))"
  by (simp add: ram_os_def)

definition ram_state :: "(nat \<times> u8 list) vx" where
  "ram_state = \<lparr>verified = 1, last_errno = 0, world = (0, [])\<rparr>"

definition ram_buf :: mem where
  "ram_buf = (\<lambda>i. of_int (65 + i))"

subsection \<open>Properties of the file operations\<close>

text \<open>Offsets and sizes are cut to a signed 32-bit \<^verbatim>\<open>int\<close>; these are the ones that survive.\<close>

definition fits_int :: "i64 \<Rightarrow> bool" where
  "fits_int x \<longleftrightarrow> - (2 ^ 31) \<le> sint x \<and> sint x < 2 ^ 31"

lemma int_of_i64_eq: "int_of_i64 x = signed_take_bit 31 (sint x)"
  unfolding int_of_i64_def
  by transfer (simp add: signed_take_bit_take_bit signed_take_bit_signed_take_bit)

lemma int_of_i64_fits: "int_of_i64 x = sint x \<longleftrightarrow> fits_int x"
  by (simp add: int_of_i64_eq signed_take_bit_int_eq_self_iff fits_int_def)

lemma int_of_i64_wrap: "int_of_i64 (x + 2 ^ 32) = int_of_i64 x"
proof -
  have "ucast (x + 2 ^ 32) = (ucast x :: i32)"
    by transfer (simp add: take_bit_eq_mod mod_mod_cancel)
  then show ?thesis by (simp add: int_of_i64_def)
qed

text \<open>
  Property C1. Under the contract of the Verix file calls, by which \<^verbatim>\<open>write\<close> fails or accepts at
  least one byte, \<^verbatim>\<open>verixWrite\<close> of a buffer at an offset of the signed 32-bit range returns.  It
  reports \<^verbatim>\<open>SQLITE_OK\<close> and the file is the old file with the whole buffer written at the offset,
  however the device split the transfer, or it reports \<^verbatim>\<open>SQLITE_IOERR_WRITE\<close> with the device's
  error number, and then the device failed: the seek reported -1 and the file is as it was, or
  \<^verbatim>\<open>write\<close> reported -1 for the rest of the buffer, after the bytes before it had been written at the
  offset.  After a success, reading that range gives the buffer back with
  \<^verbatim>\<open>SQLITE_OK\<close>, unless the seek or the \<^verbatim>\<open>read\<close> of the device fails.
\<close>

theorem verix_write_then_read:
  assumes "file_contract os pos cont" and "0 < amt" and "fits_int offset"
  shows "\<exists>rc s1. verixWrite os f m amt offset s = Some (rc, s1) \<and>
    (rc = SQLITE_OK \<and> 0 \<le> sint offset \<and>
       cont (world s1) (vf_h f) = file_splice (cont (world s) (vf_h f)) (nat (sint offset)) (mem_get m 0 (nat amt)) \<and>
       (\<forall>m0 rc' m' s2. verixRead os f m0 amt offset s1 = (rc', m', s2) \<longrightarrow>
          (if seek_fails os (vf_h f) (sint offset) (world s1) \<or> read_fails os (vf_h f) (sint offset) amt (world s1)
           then rc' = SQLITE_IOERR_SHORT_READ
           else rc' = SQLITE_OK \<and> mem_get m' 0 (nat amt) = mem_get m 0 (nat amt)))
     \<or> rc = SQLITE_IOERR_WRITE \<and> last_errno s1 = os_errno os (world s1) \<and>
       (seek_fails os (vf_h f) (sint offset) (world s) \<and> cont (world s1) (vf_h f) = cont (world s) (vf_h f) \<or>
        0 \<le> sint offset \<and> write_stopped os cont (vf_h f) (cont (world s) (vf_h f)) (nat (sint offset))
          (mem_get m 0 (nat amt)) (world s1)))"
proof -
  have off: "int_of_i64 offset = sint offset" using assms(3) by (simp add: int_of_i64_fits)
  have lseek: "cont (snd (os_lseek os (vf_h f) (sint offset) (world s))) (vf_h f) = cont (world s) (vf_h f)"
    using contract_lseek(1) [OF assms(1)] by (metis prod.collapse)
  obtain rc s1 where run: "verixWrite os f m amt offset s = Some (rc, s1)" and
    post: "rc = SQLITE_OK \<and> 0 \<le> sint offset \<and>
       cont (world s1) (vf_h f) = file_splice (cont (world s) (vf_h f)) (nat (sint offset)) (mem_get m 0 (nat amt)) \<or>
     rc = SQLITE_IOERR_WRITE \<and> last_errno s1 = os_errno os (world s1) \<and>
       (seek_fails os (vf_h f) (sint offset) (world s) \<and> cont (world s1) (vf_h f) = cont (world s) (vf_h f) \<or>
        0 \<le> sint offset \<and> write_stopped os cont (vf_h f) (cont (world s) (vf_h f)) (nat (sint offset))
          (mem_get m 0 (nat amt)) (world s1))"
    using verixWrite_ok [OF assms(1), of f m amt offset s] lseek unfolding off by metis
  have "if seek_fails os (vf_h f) (sint offset) (world s1) \<or> read_fails os (vf_h f) (sint offset) amt (world s1)
      then rc' = SQLITE_IOERR_SHORT_READ else rc' = SQLITE_OK \<and> mem_get m' 0 (nat amt) = mem_get m 0 (nat amt)"
    if c: "cont (world s1) (vf_h f) = file_splice (cont (world s) (vf_h f)) (nat (sint offset)) (mem_get m 0 (nat amt))"
      and r: "verixRead os f m0 amt offset s1 = (rc', m', s2)" for m0 rc' m' s2
  proof -
    note cases = verixRead_noseek(1) [OF _ assms(2) r] verixRead_noread(1) [OF assms(1) _ _ assms(2) r]
      verixRead_bytes(2,3) [OF assms(1) _ _ assms(2) r]
    have "take (nat amt) (drop (nat (sint offset)) (cont (world s1) (vf_h f))) = mem_get m 0 (nat amt)"
      unfolding c using file_splice_read [of "mem_get m 0 (nat amt)"] assms(2) by simp
    then show ?thesis using cases [unfolded off] by auto
  qed
  with run post show ?thesis by blast
qed

theorem verix_write_then_read_witness:
  "\<exists>s1. verixWrite ram_os zeroed_file ram_buf 8 16 ram_state = Some (SQLITE_OK, s1) \<and>
    snd (world s1) = file_splice [] 16 (mem_get ram_buf 0 8) \<and>
    (\<forall>m0 rc' m' s2. verixRead ram_os zeroed_file m0 8 16 s1 = (rc', m', s2) \<longrightarrow>
       rc' = SQLITE_OK \<and> mem_get m' 0 8 = mem_get ram_buf 0 8)"
proof -
  have "fits_int 16" by (simp add: fits_int_def)
  from verix_write_then_read [OF ram_os_contract _ this, of 8 zeroed_file ram_buf ram_state] show ?thesis
    by (simp add: ram_state_def ram_never_fails)
qed

text \<open>
  Property C2. \<^verbatim>\<open>verixRead\<close> at an offset of the signed 32-bit range.  When the device can seek and
  read, the buffer holds the bytes the file has there, followed by zeros for the missing ones; the
  code is \<^verbatim>\<open>SQLITE_OK\<close> exactly when none is missing and \<^verbatim>\<open>SQLITE_IOERR_SHORT_READ\<close> otherwise, and
  nothing else in memory changes.  When the seek fails the buffer is zeroed, the code is
  \<^verbatim>\<open>SQLITE_IOERR_SHORT_READ\<close> and nothing else changes.  When \<^verbatim>\<open>read\<close> itself fails it is the same,
  except that the byte before the buffer is zeroed too.  The file never changes.
\<close>

theorem verix_read_delivers:
  assumes "file_contract os pos cont" and "0 < amt" and "fits_int offset"
    and "verixRead os f m amt offset s = (rc, m', s')"
  defines "bytes \<equiv> take (nat amt) (drop (nat (sint offset)) (cont (world s) (vf_h f)))"
  shows "cont (world s') (vf_h f) = cont (world s) (vf_h f) \<and>
    (if seek_fails os (vf_h f) (sint offset) (world s)
     then rc = SQLITE_IOERR_SHORT_READ \<and> mem_get m' 0 (nat amt) = replicate (nat amt) 0 \<and>
       (\<forall>i. i < 0 \<or> amt \<le> i \<longrightarrow> m' i = m i)
     else if read_fails os (vf_h f) (sint offset) amt (world s)
     then rc = SQLITE_IOERR_SHORT_READ \<and> mem_get m' 0 (nat amt) = replicate (nat amt) 0 \<and> m' (- 1) = 0 \<and>
       (\<forall>i. i < - 1 \<or> amt \<le> i \<longrightarrow> m' i = m i)
     else rc = (if length bytes = nat amt then SQLITE_OK else SQLITE_IOERR_SHORT_READ) \<and>
       mem_get m' 0 (nat amt) = bytes @ replicate (nat amt - length bytes) 0 \<and>
       (\<forall>i. i < 0 \<or> amt \<le> i \<longrightarrow> m' i = m i))"
proof -
  have off: "int_of_i64 offset = sint offset" using assms(3) by (simp add: int_of_i64_fits)
  note noseek = verixRead_noseek [OF _ assms(2,4), unfolded off]
  note noread = verixRead_noread [OF assms(1) _ _ assms(2,4), unfolded off]
  note got = verixRead_bytes [OF assms(1) _ _ assms(2,4), unfolded off, folded bytes_def]
  have lseek: "cont (snd (os_lseek os (vf_h f) (sint offset) (world s))) (vf_h f) = cont (world s) (vf_h f)"
    using contract_lseek(1) [OF assms(1)] by (metis prod.collapse)
  consider "seek_fails os (vf_h f) (sint offset) (world s)"
    | "\<not> seek_fails os (vf_h f) (sint offset) (world s)" "read_fails os (vf_h f) (sint offset) amt (world s)"
    | "\<not> seek_fails os (vf_h f) (sint offset) (world s)" "\<not> read_fails os (vf_h f) (sint offset) amt (world s)"
    by blast
  then show ?thesis
  proof cases
    case 1
    then show ?thesis using noseek lseek by simp
  next
    case 2
    then show ?thesis using noread by simp
  next
    case 3
    then show ?thesis using got by simp
  qed
qed

theorem verix_read_delivers_witness:
  "\<exists>m' s'. verixRead ram_os zeroed_file ram_buf 4 1 (ram_state\<lparr>world := (0, [7, 8, 9])\<rparr>) =
      (SQLITE_IOERR_SHORT_READ, m', s') \<and>
    mem_get m' 0 4 = [8, 9, 0, 0] \<and> (\<forall>i. i < 0 \<or> 4 \<le> i \<longrightarrow> m' i = ram_buf i)"
proof -
  obtain rc m' s' where run: "verixRead ram_os zeroed_file ram_buf 4 1 (ram_state\<lparr>world := (0, [7, 8, 9])\<rparr>) = (rc, m', s')"
    by (metis prod_cases3)
  have "fits_int 1" by (simp add: fits_int_def)
  from verix_read_delivers [OF ram_os_contract _ this run] show ?thesis
    using run by (simp add: ram_never_fails ram_state_def eval_nat_numeral)
qed

text \<open>
  Property C39. When \<^verbatim>\<open>read\<close> itself fails (it returns -1 and no bytes), \<^verbatim>\<open>verixRead\<close> clears
  \<^verbatim>\<open>amt + 1\<close> bytes starting one byte before the caller's buffer: the byte before the buffer is
  overwritten with zero.
\<close>

theorem verix_failed_read_underflows:
  assumes "os_lseek os (vf_h f) (int_of_i64 offset) (world s) = (ls, w)" and "ls \<noteq> - 1"
    and "os_read os (vf_h f) amt w = (- 1, [], w2)" and "0 \<le> amt"
  shows "\<exists>m' s'. verixRead os f m amt offset s = (SQLITE_IOERR_SHORT_READ, m', s') \<and>
    m' (- 1) = 0 \<and> (\<forall>i. i < - 1 \<or> amt \<le> i \<longrightarrow> m' i = m i)"
  using verixRead_failed [OF assms(1,2,3) refl assms(4)] assms(4) by (auto simp: mem_fill_def)

theorem verix_failed_read_underflows_witness:
  "\<exists>m' s'. verixRead (ram_os\<lparr>os_read := \<lambda>h n w. (- 1, [], w)\<rparr>) zeroed_file ram_buf 4 2 ram_state
      = (SQLITE_IOERR_SHORT_READ, m', s') \<and>
    m' (- 1) = 0 \<and> (\<forall>i. i < - 1 \<or> 4 \<le> i \<longrightarrow> m' i = ram_buf i)"
  by (rule verix_failed_read_underflows [where ls = 2 and w = "(2, [])" and ?w2.0 = "(2, [])"])
    (simp_all add: ram_os_def ram_state_def zeroed_file_def int_of_i64_def)

text \<open>
  Property C40. \<^verbatim>\<open>verixWrite\<close> has no bound on its attempts: on a device whose \<^verbatim>\<open>write\<close> keeps
  accepting no byte without reporting an error, it never returns.
\<close>

theorem verix_write_may_not_return:
  assumes "os_lseek os (vf_h f) (int_of_i64 offset) (world s) = (ls, w)" and "ls \<noteq> - 1"
    and "\<forall>bs w. os_write os (vf_h f) bs w = (0, w)" and "0 < amt"
  shows "verixWrite os f m amt offset s = None"
  using assms verixWriteLoop_stuck [OF assms(3,4)] by (simp add: verixWrite_def)

theorem verix_write_may_not_return_witness:
  "verixWrite (ram_os\<lparr>os_write := \<lambda>h bs w. (0, w)\<rparr>) zeroed_file ram_buf 4 2 ram_state = None"
  by (rule verix_write_may_not_return [where ls = 2 and w = "(2, [])"])
    (simp_all add: ram_os_def ram_state_def zeroed_file_def int_of_i64_def)

text \<open>
  Property C4. \<^verbatim>\<open>verixTruncate\<close> to a size of the signed 32-bit range refines truncation.  When one of
  the three device calls fails it reports \<^verbatim>\<open>SQLITE_IOERR_TRUNCATE\<close> with the device's error number;
  otherwise it reports \<^verbatim>\<open>SQLITE_OK\<close>, the file had at least \<^verbatim>\<open>nByte\<close> bytes and has exactly the first
  \<^verbatim>\<open>nByte\<close> of them.  A size outside that range is cut: \<^verbatim>\<open>nByte + 2 ^ 32\<close> truncates like \<^verbatim>\<open>nByte\<close>.
\<close>

theorem verix_truncate_refines_take:
  assumes "file_contract os pos cont" and "fits_int nByte" and "verixTruncate os f nByte s = (rc, s')"
  shows "(if truncate_fails os (vf_h f) (sint nByte) (world s)
      then rc = SQLITE_IOERR_TRUNCATE \<and> last_errno s' = os_errno os (world s')
      else rc = SQLITE_OK \<and> 0 \<le> sint nByte \<and> nat (sint nByte) \<le> length (cont (world s) (vf_h f)) \<and>
        cont (world s') (vf_h f) = take (nat (sint nByte)) (cont (world s) (vf_h f))) \<and>
    verixTruncate os f (nByte + 2 ^ 32) s = (rc, s')"
proof -
  have off: "int_of_i64 nByte = sint nByte" using assms(2) by (simp add: int_of_i64_fits)
  have "verixTruncate os f (nByte + 2 ^ 32) s = (rc, s')"
    using assms(3) unfolding verixTruncate_def int_of_i64_wrap .
  then show ?thesis using verixTruncate_ok [OF assms(1,3), unfolded off] by simp
qed

theorem verix_truncate_refines_take_witness:
  "verixTruncate ram_os zeroed_file 2 (ram_state\<lparr>world := (0, [1, 2, 3])\<rparr>)
     = (SQLITE_OK, ram_state\<lparr>world := (2, [1, 2])\<rparr>) \<and>
   verixTruncate ram_os zeroed_file (2 + 2 ^ 32) (ram_state\<lparr>world := (0, [1, 2, 3])\<rparr>)
     = (SQLITE_OK, ram_state\<lparr>world := (2, [1, 2])\<rparr>) \<and>
   [1, 2 :: u8] = take 2 [1, 2, 3]"
proof -
  have run: "verixTruncate ram_os zeroed_file 2 (ram_state\<lparr>world := (0, [1, 2, 3])\<rparr>)
     = (SQLITE_OK, ram_state\<lparr>world := (2, [1, 2])\<rparr>)"
    by (simp add: verixTruncate_def ram_os_def ram_state_def zeroed_file_def int_of_i64_def)
  have ok: "\<not> truncate_fails ram_os (vf_h zeroed_file) 2 (0, [1, 2, 3])"
    by (simp add: truncate_fails_def ram_os_def)
  have "fits_int 2" by (simp add: fits_int_def)
  from verix_truncate_refines_take [OF ram_os_contract this run] run show ?thesis
    using ok by (simp add: ram_state_def)
qed

text \<open>
  File offsets are cut to 32 bits before they reach the device: an offset is
  preserved exactly when it fits a signed 32-bit integer, and a read or write at an offset
  \<^verbatim>\<open>2 ^ 32\<close> further is the same operation.
\<close>

theorem verix_offsets_wrap:
  "(int_of_i64 offset = sint offset \<longleftrightarrow> fits_int offset) \<and>
   verixWrite os f m amt (offset + 2 ^ 32) s = verixWrite os f m amt offset s \<and>
   verixRead os f m amt (offset + 2 ^ 32) s = verixRead os f m amt offset s"
  unfolding verixWrite_def verixRead_def int_of_i64_wrap by (simp add: int_of_i64_fits)

subsection \<open>Properties of locking, opening, time and randomness\<close>

text \<open>
  \<^verbatim>\<open>verixCheckReservedLock\<close> reports a reserved lock in every state, also when it
  could take the lock itself, that is when nobody held one; it gives back the lock it took.
\<close>

theorem verix_check_reserved_lock_always:
  "\<exists>s'. verixCheckReservedLock os f s = (SQLITE_OK, 1, s') \<and>
    (case os_lock os (vf_h f) (world s) of (ret, w) \<Rightarrow>
       world s' = (if ret = 0 then snd (os_unlock os (vf_h f) w) else w))"
  by (simp add: verixCheckReservedLock_def split: prod.split)

text \<open>
  Property C38. Opening a temporary file (a NULL name) is undefined whenever the device can
  create the file: the NULL name is copied into the file object after \<^verbatim>\<open>open\<close> succeeded.
\<close>

theorem verix_open_temp_undefined:
  assumes "os_read_ticks os (world s) = (t, w)"
    and "os_open os (''tmp'' @ show_int t) (verixOpenFlags os flags) w = (h, w2)" and "h \<noteq> - 1"
  shows "verixOpen os None f flags out s = Undefined"
  using assms by (rule verixOpen_null)

theorem verix_open_temp_undefined_witness:
  "verixOpen ram_os None zeroed_file 14 None ram_state = Undefined"
  by (rule verix_open_temp_undefined [where t = 12345 and w = "(0, [])" and h = 3
        and ?w2.0 = "(0, [])"])
    (simp_all add: ram_os_def ram_state_def)

text \<open>
  Property C3. A named open with a plain name that fits either reports \<^verbatim>\<open>SQLITE_CANTOPEN\<close> and
  leaves the caller's file object alone, or yields a file object of this VFS with the handle
  and the name, which \<^verbatim>\<open>verixClose\<close> removes from the device exactly when it was opened with
  \<^verbatim>\<open>SQLITE_OPEN_DELETEONCLOSE\<close>.
\<close>

theorem verix_open_close_delete:
  assumes "CHR ''%'' \<notin> set z" and "length z < MAX_VERIX_FILE_NAME"
    and "os_open os z (verixOpenFlags os flags) (world s) = (h, w)"
    and "os_close os h w = (0, w2)" and "os_remove os z w2 = (0, w3)"
  shows "h = - 1 \<and>
      (\<exists>s'. verixOpen os (Some z) f flags out s = Done (SQLITE_CANTOPEN, f, out, s')) \<or>
    h \<noteq> - 1 \<and>
      (\<exists>f' out' s'. verixOpen os (Some z) f flags out s = Done (SQLITE_OK, f', out', s') \<and>
         pMethod f' = Some VerixIoMethod \<and> vf_h f' = h \<and> filename f' = z \<and>
         verixClose os f' s' = (SQLITE_OK,
           s\<lparr>world := if flags AND SQLITE_OPEN_DELETEONCLOSE \<noteq> 0 then w3 else w2\<rparr>))"
proof (cases "h = - 1")
  case True
  with verixOpen_plain [OF assms(1-3), of f out] show ?thesis by simp
next
  case False
  let ?tmp = "if flags AND SQLITE_OPEN_DELETEONCLOSE \<noteq> 0 then 1 else 0"
  let ?f = "\<lparr>pMethod = Some VerixIoMethod, vf_h = h, temporary = ?tmp, filename = z\<rparr>"
  have "verixClose os ?f (s\<lparr>world := w\<rparr>) = (SQLITE_OK,
      s\<lparr>world := if flags AND SQLITE_OPEN_DELETEONCLOSE \<noteq> 0 then w3 else w2\<rparr>)"
    using assms(4,5) by (simp add: verixClose_def)
  with verixOpen_plain [OF assms(1-3), of f out] False show ?thesis by auto
qed

theorem verix_open_close_delete_witness:
  "\<exists>f' out' s'. verixOpen ram_os (Some ''t.db'') zeroed_file 14 None
      (ram_state\<lparr>world := (0, [1])\<rparr>) = Done (SQLITE_OK, f', out', s') \<and>
    verixClose ram_os f' s' = (SQLITE_OK, ram_state\<lparr>world := (0, [])\<rparr>)"
  using verix_open_close_delete [of "''t.db''" ram_os 14 "ram_state\<lparr>world := (0, [1])\<rparr>" 3
      "(0, [1])" "(0, [1])" "(0, [])" zeroed_file None]
  by (auto simp: ram_os_def ram_state_def MAX_VERIX_FILE_NAME_def result_codes)

text \<open>
  Property C5. The Julian day arithmetic of \<^verbatim>\<open>verixCurrentTime\<close> is the Gregorian calendar: it
  gives 2451545 for 1 January 2000 and grows by one from each date of a non-negative year to
  the next, over month ends, year ends and leap days.
\<close>

theorem verix_julian_day_calendar:
  assumes "0 \<le> y" and "m \<in> {1..12}" and "1 \<le> d" and "d \<le> days_in_month y m"
    and "next_day (y, m, d) = (y', m', d')"
  shows "verixJulianDay 2000 1 1 = 2451545 \<and>
    verixJulianDay y' m' d' = verixJulianDay y m d + 1"
proof -
  have "verixJulianDay 2000 1 1 = 2451545" by code_simp
  with verixJulianDay_next [OF assms] show ?thesis by simp
qed

theorem verix_julian_day_calendar_witness:
  "verixJulianDay 2000 1 1 = 2451545 \<and> verixJulianDay 2016 2 29 = verixJulianDay 2016 2 28 + 1"
  by (rule verix_julian_day_calendar) simp_all

text \<open>
  \<^verbatim>\<open>verixCurrentTime\<close> keeps neither the time of day nor the century: for every
  reading of the clock with a valid time the result is the whole Julian day of the date, with
  the year of the century taken as the year.
\<close>

theorem verix_current_time_truncates:
  fixes s :: "'w vx"
  assumes "os_read_clock os (world s) = (clk, w)"
  defines "fld \<equiv> clock_field (clk @ replicate (16 - length clk) NUL)"
  assumes "fld 8 \<in> {0..23}" and "fld 10 \<in> {0..59}" and "fld 12 \<in> {0..59}"
  shows "verixCurrentTime os s = (0, verixJulianDay (fld 2) (fld 4) (fld 6), s\<lparr>world := w\<rparr>)"
  using assms by (auto simp: verixCurrentTime_def Let_def sdiv_small)

theorem verix_current_time_truncates_witness:
  "verixCurrentTime ram_os ram_state = (0, verixJulianDay 15 6 17, ram_state) \<and>
   verixJulianDay 15 6 17 = 1726706 \<and> verixJulianDay 2015 6 17 = 2457191"
proof -
  have clk: "os_read_clock ram_os (world ram_state) = (''201506171530204'', (0, []))"
    by (simp add: ram_os_def ram_state_def)
  have flds: "map (clock_field (''201506171530204'' @ replicate (16 - length ''201506171530204'') NUL))
      [2, 4, 6, 8, 10, 12] = [15, 6, 17, 15, 30, 20]"
    by code_simp
  from verix_current_time_truncates [OF clk] flds
  have "verixCurrentTime ram_os ram_state = (0, verixJulianDay 15 6 17, ram_state)"
    by (simp add: ram_state_def)
  moreover have "verixJulianDay 15 6 17 = 1726706 \<and> verixJulianDay 2015 6 17 = 2457191"
    by code_simp
  ultimately show ?thesis by blast
qed

text \<open>
  \<^verbatim>\<open>verixRandomness\<close> fills the whole buffer and reports its length, but no byte
  it delivers is ever 255.
\<close>

theorem verix_randomness_bytes:
  assumes "\<And>w. 0 \<le> fst (os_rand os w)"
  shows "\<exists>bs s'. verixRandomness os nBuf s = (nBuf, bs, s') \<and> length bs = nat nBuf \<and>
    255 \<notin> set bs"
  using verixRandomnessLoop_bytes [OF assms, of "nat nBuf" "world s"]
  by (auto simp: verixRandomness_def split: prod.splits)

theorem verix_randomness_bytes_witness:
  "\<exists>bs s'. verixRandomness ram_os 3 ram_state = (3, bs, s') \<and> length bs = 3 \<and> 255 \<notin> set bs"
proof -
  have "\<And>w. 0 \<le> fst (os_rand ram_os w)" by (simp add: ram_os_def)
  from verix_randomness_bytes [OF this, of 3 ram_state] show ?thesis by simp
qed

end
