(* ===== verification/Varint.thy ===== *)
theory Varint
  imports CBase
begin

text \<open>
  Integers in files: the variable-length integers of \<^verbatim>\<open>util.c\<close> (\<^verbatim>\<open>sqlite3PutVarint\<close>,
  \<^verbatim>\<open>sqlite3GetVarint\<close>, \<^verbatim>\<open>sqlite3GetVarint32\<close>, \<^verbatim>\<open>sqlite3VarintLen\<close>) and the big-endian 32-bit
  integers (\<^verbatim>\<open>sqlite3Get4byte\<close>, \<^verbatim>\<open>sqlite3Put4byte\<close>).  A writer returns the bytes it stores at
  the pointer; a reader takes the memory at the pointer, a function from offsets to bytes.

  The unrolled decoder is shown equal to the loop that the format's description suggests, and
  both codecs to be prefix codes through the locale \<^verbatim>\<open>codec\<close>.
\<close>

unbundle bit_operations_syntax

subsection \<open>Writing\<close>

text \<open>The do-while loop that fills \<^verbatim>\<open>buf\<close>, lowest seven bits first.\<close>

lemma drop_bit_7_less:
  fixes v :: u64
  assumes "drop_bit 7 v \<noteq> 0"
  shows "unat (drop_bit 7 v) < unat v"
proof -
  have "unat (drop_bit 7 v) = unat v div 128"
    by (simp add: drop_bit_eq_div unat_div)
  moreover have "unat (drop_bit 7 v) \<noteq> 0" using assms by (simp add: unat_eq_0)
  ultimately show ?thesis by linarith
qed

function putVarintBuf :: "u64 \<Rightarrow> u8 list" where
  "putVarintBuf v =
     (ucast (v AND 0x7f) OR 0x80) #
       (if drop_bit 7 v \<noteq> 0 then putVarintBuf (drop_bit 7 v) else [])"
  by pat_completeness auto
termination
  by (relation "measure unat") (auto simp: drop_bit_7_less)

declare putVarintBuf.simps [simp del]

text \<open>The loop of the nine-byte form, which stores \<^verbatim>\<open>p[i]\<close>, \dots, \<^verbatim>\<open>p[0]\<close>.\<close>

fun putVarint9 :: "nat \<Rightarrow> u64 \<Rightarrow> u8 list" where
  "putVarint9 0 v = []"
| "putVarint9 (Suc i) v = putVarint9 i (drop_bit 7 v) @ [ucast ((v AND 0x7f) OR 0x80)]"

definition putVarint64 :: "u64 \<Rightarrow> u8 list" where
  "putVarint64 v =
     (if v AND push_bit 32 0xff000000 \<noteq> 0
      then putVarint9 8 (drop_bit 8 v) @ [ucast v]
      else (case putVarintBuf v of
              [] \<Rightarrow> []
            | b # buf \<Rightarrow> rev ((b AND 0x7f) # buf)))"

definition sqlite3PutVarint :: "u64 \<Rightarrow> u8 list" where
  "sqlite3PutVarint v =
     (if v \<le> 0x7f then [ucast (v AND 0x7f)]
      else if v \<le> 0x3fff then [ucast ((drop_bit 7 v AND 0x7f) OR 0x80), ucast (v AND 0x7f)]
      else putVarint64 v)"

function sqlite3VarintLenLoop :: "nat \<Rightarrow> u64 \<Rightarrow> nat" where
  "sqlite3VarintLenLoop i v =
     (let i' = i + 1; v' = drop_bit 7 v
      in if v' \<noteq> 0 \<and> i' < 9 then sqlite3VarintLenLoop i' v' else i')"
  by pat_completeness auto
termination
  by (relation "measure (\<lambda>(i, v). 9 - i)") auto

declare sqlite3VarintLenLoop.simps [simp del]

definition sqlite3VarintLen :: "u64 \<Rightarrow> nat" where
  "sqlite3VarintLen v = sqlite3VarintLenLoop 0 v"

subsection \<open>Reading\<close>

definition SLOT_2_0 :: u32 where "SLOT_2_0 = 0x001fc07f"
definition SLOT_4_2_0 :: u32 where "SLOT_4_2_0 = 0xf01fc07f"

text \<open>
  The unrolled decoder; \<^verbatim>\<open>a\<close>, \<^verbatim>\<open>b\<close> and \<^verbatim>\<open>s\<close> are the code's 32-bit accumulators, with a new name
  for each value they take.
\<close>

definition sqlite3GetVarint :: "(nat \<Rightarrow> u8) \<Rightarrow> nat \<times> u64" where
  "sqlite3GetVarint p =
    (let a0 = ucast (p 0) :: u32 in
     if a0 AND 0x80 = 0 then (1, ucast a0)
     else let b1 = ucast (p 1) :: u32 in
     if b1 AND 0x80 = 0 then (2, ucast (push_bit 7 (a0 AND 0x7f) OR b1))
     else let a2 = push_bit 14 a0 OR ucast (p 2) in
     if a2 AND 0x80 = 0 then
       (3, ucast ((a2 AND SLOT_2_0) OR push_bit 7 (b1 AND 0x7f)))
     else let a2m = a2 AND SLOT_2_0; b3 = push_bit 14 b1 OR ucast (p 3) in
     if b3 AND 0x80 = 0 then (4, ucast (push_bit 7 a2m OR (b3 AND SLOT_2_0)))
     else let b3m = b3 AND SLOT_2_0; s3 = a2m; a4 = push_bit 14 a2m OR ucast (p 4) in
     if a4 AND 0x80 = 0 then
       (5, push_bit 32 (ucast (drop_bit 18 s3)) OR ucast (a4 OR push_bit 7 b3m))
     else let s4 = push_bit 7 s3 OR b3m; b5 = push_bit 14 b3m OR ucast (p 5) in
     if b5 AND 0x80 = 0 then
       (6, push_bit 32 (ucast (drop_bit 18 s4)) OR
           ucast (push_bit 7 (a4 AND SLOT_2_0) OR b5))
     else let a6 = push_bit 14 a4 OR ucast (p 6) in
     if a6 AND 0x80 = 0 then
       (7, push_bit 32 (ucast (drop_bit 11 s4)) OR
           ucast ((a6 AND SLOT_4_2_0) OR push_bit 7 (b5 AND SLOT_2_0)))
     else let a6m = a6 AND SLOT_2_0; b7 = push_bit 14 b5 OR ucast (p 7) in
     if b7 AND 0x80 = 0 then
       (8, push_bit 32 (ucast (drop_bit 4 s4)) OR
           ucast (push_bit 7 a6m OR (b7 AND SLOT_4_2_0)))
     else let a8 = push_bit 15 a6m OR ucast (p 8);
              b8 = push_bit 8 (b7 AND SLOT_2_0);
              s8 = push_bit 4 s4 OR drop_bit 3 (ucast (p 4) AND 0x7f)
     in (9, push_bit 32 (ucast s8) OR ucast (a8 OR b8)))"

text \<open>
  \<^verbatim>\<open>sqlite3GetVarint32\<close> as it is compiled: \<^verbatim>\<open>getVarint32\<close> is a macro, so the one-byte case is
  not part of the function; the macro has it.
\<close>

definition sqlite3GetVarint32 :: "(nat \<Rightarrow> u8) \<Rightarrow> nat \<times> u32" where
  "sqlite3GetVarint32 p =
    (let a = ucast (p 0) :: u32; b = ucast (p 1) :: u32 in
     if b AND 0x80 = 0 then (2, push_bit 7 (a AND 0x7f) OR b)
     else let a2 = push_bit 14 a OR ucast (p 2) in
     if a2 AND 0x80 = 0 then
       (3, (a2 AND (push_bit 14 0x7f OR 0x7f)) OR push_bit 7 (b AND 0x7f))
     else (case sqlite3GetVarint p of (n, v64) \<Rightarrow>
             (n, if v64 AND 0xffffffff \<noteq> v64 then 0xffffffff else ucast v64)))"

definition getVarint32 :: "(nat \<Rightarrow> u8) \<Rightarrow> nat \<times> u32" where
  "getVarint32 p = (if p 0 < 0x80 then (1, ucast (p 0)) else sqlite3GetVarint32 p)"

definition sqlite3Get4byte :: "(nat \<Rightarrow> u8) \<Rightarrow> u32" where
  "sqlite3Get4byte p =
     push_bit 24 (ucast (p 0)) OR push_bit 16 (ucast (p 1)) OR push_bit 8 (ucast (p 2))
       OR ucast (p 3)"

definition sqlite3Put4byte :: "u32 \<Rightarrow> u8 list" where
  "sqlite3Put4byte v =
     [ucast (drop_bit 24 v), ucast (drop_bit 16 v), ucast (drop_bit 8 v), ucast v]"

subsection \<open>The format as a loop\<close>

text \<open>
  The description of the format: seven bits per byte, high bit set on all but the last, and
  all eight bits of a ninth byte.
\<close>

function varint_ref :: "(nat \<Rightarrow> u8) \<Rightarrow> nat \<Rightarrow> u64 \<Rightarrow> nat \<times> u64" where
  "varint_ref p i acc =
     (if 8 \<le> i then (9, push_bit 8 acc OR ucast (p 8))
      else let acc' = push_bit 7 acc OR ucast (p i AND 0x7f)
           in if \<not> bit (p i) 7 then (i + 1, acc') else varint_ref p (i + 1) acc')"
  by pat_completeness auto
termination
  by (relation "measure (\<lambda>(p, i, acc). 8 - i)") auto

declare varint_ref.simps [simp del]

subsection \<open>The unrolled decoder is the loop\<close>

text \<open>
  One lemma per length of the encoding: both sides become bit expressions over the bytes,
  compared bit by bit.
\<close>

lemma msb_clear_iff: "x AND 0x80 = 0 \<longleftrightarrow> \<not> bit x 7" for x :: u32
  using and_exp_eq_0_iff_not_bit [of x 7] by simp

lemma varint_ref_steps:
  "varint_ref p 0 acc = (if bit (p 0) 7 then varint_ref p 1 (push_bit 7 acc OR ucast (p 0 AND 0x7f))
     else (1, push_bit 7 acc OR ucast (p 0 AND 0x7f)))"
  "varint_ref p 1 acc = (if bit (p 1) 7 then varint_ref p 2 (push_bit 7 acc OR ucast (p 1 AND 0x7f))
     else (2, push_bit 7 acc OR ucast (p 1 AND 0x7f)))"
  "varint_ref p 2 acc = (if bit (p 2) 7 then varint_ref p 3 (push_bit 7 acc OR ucast (p 2 AND 0x7f))
     else (3, push_bit 7 acc OR ucast (p 2 AND 0x7f)))"
  "varint_ref p 3 acc = (if bit (p 3) 7 then varint_ref p 4 (push_bit 7 acc OR ucast (p 3 AND 0x7f))
     else (4, push_bit 7 acc OR ucast (p 3 AND 0x7f)))"
  "varint_ref p 4 acc = (if bit (p 4) 7 then varint_ref p 5 (push_bit 7 acc OR ucast (p 4 AND 0x7f))
     else (5, push_bit 7 acc OR ucast (p 4 AND 0x7f)))"
  "varint_ref p 5 acc = (if bit (p 5) 7 then varint_ref p 6 (push_bit 7 acc OR ucast (p 5 AND 0x7f))
     else (6, push_bit 7 acc OR ucast (p 5 AND 0x7f)))"
  "varint_ref p 6 acc = (if bit (p 6) 7 then varint_ref p 7 (push_bit 7 acc OR ucast (p 6 AND 0x7f))
     else (7, push_bit 7 acc OR ucast (p 6 AND 0x7f)))"
  "varint_ref p 7 acc = (if bit (p 7) 7 then varint_ref p 8 (push_bit 7 acc OR ucast (p 7 AND 0x7f))
     else (8, push_bit 7 acc OR ucast (p 7 AND 0x7f)))"
  "varint_ref p 8 acc = (9, push_bit 8 acc OR ucast (p 8))"
  by (subst varint_ref.simps, simp del: One_nat_def add: Let_def)+

lemmas varint_bits = msb_clear_iff bit_simps byte_bit_high SLOT_2_0_def SLOT_4_2_0_def

lemmas varint_unroll = sqlite3GetVarint_def varint_ref_steps varint_bits Let_def

lemma varint_eq_1:
  "\<not> bit (p 0) 7 \<Longrightarrow>
   sqlite3GetVarint p = varint_ref p 0 0"
  by (simp del: One_nat_def add: varint_unroll) (rule u64_bits_eqI, simp add: varint_bits)

lemma varint_eq_2:
  "bit (p 0) 7 \<Longrightarrow> \<not> bit (p 1) 7 \<Longrightarrow>
   sqlite3GetVarint p = varint_ref p 0 0"
  by (simp del: One_nat_def add: varint_unroll) (rule u64_bits_eqI, simp add: varint_bits)

lemma varint_eq_3:
  "bit (p 0) 7 \<Longrightarrow> bit (p 1) 7 \<Longrightarrow> \<not> bit (p 2) 7 \<Longrightarrow>
   sqlite3GetVarint p = varint_ref p 0 0"
  by (simp del: One_nat_def add: varint_unroll) (rule u64_bits_eqI, simp add: varint_bits)

lemma varint_eq_4:
  "bit (p 0) 7 \<Longrightarrow> bit (p 1) 7 \<Longrightarrow> bit (p 2) 7 \<Longrightarrow> \<not> bit (p 3) 7 \<Longrightarrow>
   sqlite3GetVarint p = varint_ref p 0 0"
  by (simp del: One_nat_def add: varint_unroll) (rule u64_bits_eqI, simp add: varint_bits)

lemma varint_eq_5:
  "bit (p 0) 7 \<Longrightarrow> bit (p 1) 7 \<Longrightarrow> bit (p 2) 7 \<Longrightarrow> bit (p 3) 7 \<Longrightarrow>
   \<not> bit (p 4) 7 \<Longrightarrow>
   sqlite3GetVarint p = varint_ref p 0 0"
  by (simp del: One_nat_def add: varint_unroll) (rule u64_bits_eqI, simp add: varint_bits)

lemma varint_eq_6:
  "bit (p 0) 7 \<Longrightarrow> bit (p 1) 7 \<Longrightarrow> bit (p 2) 7 \<Longrightarrow> bit (p 3) 7 \<Longrightarrow>
   bit (p 4) 7 \<Longrightarrow> \<not> bit (p 5) 7 \<Longrightarrow>
   sqlite3GetVarint p = varint_ref p 0 0"
  by (simp del: One_nat_def add: varint_unroll) (rule u64_bits_eqI, simp add: varint_bits)

lemma varint_eq_7:
  "bit (p 0) 7 \<Longrightarrow> bit (p 1) 7 \<Longrightarrow> bit (p 2) 7 \<Longrightarrow> bit (p 3) 7 \<Longrightarrow>
   bit (p 4) 7 \<Longrightarrow> bit (p 5) 7 \<Longrightarrow> \<not> bit (p 6) 7 \<Longrightarrow>
   sqlite3GetVarint p = varint_ref p 0 0"
  by (simp del: One_nat_def add: varint_unroll) (rule u64_bits_eqI, simp add: varint_bits)

lemma varint_eq_8:
  "bit (p 0) 7 \<Longrightarrow> bit (p 1) 7 \<Longrightarrow> bit (p 2) 7 \<Longrightarrow> bit (p 3) 7 \<Longrightarrow>
   bit (p 4) 7 \<Longrightarrow> bit (p 5) 7 \<Longrightarrow> bit (p 6) 7 \<Longrightarrow> \<not> bit (p 7) 7 \<Longrightarrow>
   sqlite3GetVarint p = varint_ref p 0 0"
  by (simp del: One_nat_def add: varint_unroll) (rule u64_bits_eqI, simp add: varint_bits)

lemma varint_eq_9:
  "bit (p 0) 7 \<Longrightarrow> bit (p 1) 7 \<Longrightarrow> bit (p 2) 7 \<Longrightarrow> bit (p 3) 7 \<Longrightarrow>
   bit (p 4) 7 \<Longrightarrow> bit (p 5) 7 \<Longrightarrow> bit (p 6) 7 \<Longrightarrow> bit (p 7) 7 \<Longrightarrow>
   sqlite3GetVarint p = varint_ref p 0 0"
  by (simp del: One_nat_def add: varint_unroll) (rule u64_bits_eqI, simp add: varint_bits)

lemma sqlite3GetVarint_eq_ref: "sqlite3GetVarint p = varint_ref p 0 0"
  using varint_eq_1 varint_eq_2 varint_eq_3 varint_eq_4 varint_eq_5 varint_eq_6 varint_eq_7
    varint_eq_8 varint_eq_9 by metis

subsection \<open>Decoding what was written\<close>

definition holds :: "(nat \<Rightarrow> u8) \<Rightarrow> u8 list \<Rightarrow> bool" where
  "holds p bs \<longleftrightarrow> (\<forall>i < length bs. p i = bs ! i)"

lemma holds_append:
  "holds p (as @ bs) \<longleftrightarrow> holds p as \<and> holds (\<lambda>i. p (length as + i)) bs"
proof
  assume h: "holds p (as @ bs)"
  show "holds p as \<and> holds (\<lambda>i. p (length as + i)) bs"
  proof (simp add: holds_def, intro conjI allI impI)
    fix i assume "i < length as"
    then show "p i = as ! i" using h by (auto simp: holds_def nth_append dest: spec [of _ i])
  next
    fix i assume "i < length bs"
    then show "p (length as + i) = bs ! i"
      using h by (auto simp: holds_def nth_append dest: spec [of _ "length as + i"])
  qed
next
  assume h: "holds p as \<and> holds (\<lambda>i. p (length as + i)) bs"
  show "holds p (as @ bs)"
    unfolding holds_def
  proof (intro allI impI)
    fix i assume i: "i < length (as @ bs)"
    show "p i = (as @ bs) ! i"
    proof (cases "i < length as")
      case True
      with h show ?thesis by (simp add: holds_def nth_append)
    next
      case False
      then obtain k where "i = length as + k" using le_Suc_ex not_less by blast
      with h i show ?thesis by (simp add: holds_def nth_append)
    qed
  qed
qed

lemma holds_Cons [simp]: "holds p (b # bs) \<longleftrightarrow> p 0 = b \<and> holds (\<lambda>i. p (Suc i)) bs"
  using holds_append [of p "[b]" bs] by (simp add: holds_def)

lemma holds_Nil [simp]: "holds p []"
  by (simp add: holds_def)

definition varint_step :: "u8 \<Rightarrow> u64 \<Rightarrow> u64" where
  "varint_step b acc = push_bit 7 acc OR ucast (b AND 0x7f)"

lemma varint_ref_continue:
  assumes "holds (\<lambda>i. p (j + i)) hs" and "\<forall>b \<in> set hs. bit b 7" and "j + length hs \<le> 8"
  shows "varint_ref p j acc = varint_ref p (j + length hs) (fold varint_step hs acc)"
  using assms
proof (induction hs arbitrary: j acc)
  case Nil
  then show ?case by simp
next
  case (Cons b hs)
  have "varint_ref p j acc = varint_ref p (Suc j) (varint_step b acc)"
    using Cons.prems by (subst varint_ref.simps) (simp add: Let_def varint_step_def)
  also have "\<dots> = varint_ref p (Suc j + length hs) (fold varint_step hs (varint_step b acc))"
    using Cons.prems by (intro Cons.IH) auto
  finally show ?case by simp
qed

lemma varint_ref_end:
  "j < 8 \<Longrightarrow> \<not> bit (p j) 7 \<Longrightarrow> varint_ref p j acc = (j + 1, varint_step (p j) acc)"
  by (subst varint_ref.simps) (simp add: Let_def varint_step_def)

subsection \<open>What the writer stores\<close>

lemma low_bits_restored:
  "varint_step (ucast (v AND 0x7f) OR 0x80) (drop_bit 7 v) = v"
  "varint_step ((ucast (v AND 0x7f) OR 0x80) AND 0x7f) (drop_bit 7 v) = v"
  by (rule u64_bits_eqI, simp add: varint_step_def bit_simps)+

lemma putVarintBuf_high: "b \<in> set (putVarintBuf v) \<Longrightarrow> bit b 7"
proof (induction v rule: putVarintBuf.induct)
  case (1 v)
  then show ?case by (subst (asm) putVarintBuf.simps) (auto simp: bit_simps split: if_splits)
qed

lemma putVarintBuf_value: "foldr varint_step (putVarintBuf v) 0 = v"
proof (induction v rule: putVarintBuf.induct)
  case (1 v)
  show ?case
  proof (cases "drop_bit 7 v = 0")
    case True
    then show ?thesis
      using low_bits_restored(1) [of v] by (subst putVarintBuf.simps) simp
  next
    case False
    with "1.IH" show ?thesis
      using low_bits_restored(1) [of v] by (subst putVarintBuf.simps) simp
  qed
qed

lemma putVarintBuf_length:
  "unat v < 128 ^ n \<Longrightarrow> 0 < n \<Longrightarrow> length (putVarintBuf v) \<le> n"
proof (induction n arbitrary: v)
  case 0
  then show ?case by simp
next
  case (Suc n)
  show ?case
  proof (cases "drop_bit 7 v = 0")
    case True
    then show ?thesis by (subst putVarintBuf.simps) simp
  next
    case False
    have div: "unat (drop_bit 7 v) = unat v div 128" by (simp add: drop_bit_eq_div unat_div)
    have "0 < n"
    proof (rule ccontr)
      assume "\<not> 0 < n"
      with Suc.prems div have "unat (drop_bit 7 v) = 0" by simp
      with False show False by (simp add: unat_eq_0)
    qed
    moreover have "unat (drop_bit 7 v) < 128 ^ n"
      using Suc.prems(1) by (simp add: div less_mult_imp_div_less mult.commute)
    ultimately have "length (putVarintBuf (drop_bit 7 v)) \<le> n" using Suc.IH by blast
    with False show ?thesis by (subst putVarintBuf.simps) simp
  qed
qed

lemma top_byte_clear:
  fixes v :: u64
  assumes "v AND push_bit 32 0xff000000 = 0"
  shows "unat v < 128 ^ 8"
proof -
  have clear: "\<not> bit v n" if "bit (push_bit 32 0xff000000 :: u64) n" for n
    using assms that by (metis bit_and_iff bit_0_eq bot_apply bot_bool_def)
  have "take_bit 56 v = v"
    by (rule u64_bits_eqI) (simp add: bit_simps clear)
  then have "unat v = take_bit 56 (unat v)" by (metis unsigned_take_bit_eq)
  also have "\<dots> < 2 ^ 56" by (rule take_bit_nat_less_exp)
  finally show ?thesis by simp
qed

lemma putVarint9_shape:
  "length (putVarint9 i v) = i \<and> (\<forall>b \<in> set (putVarint9 i v). bit b 7)"
  by (induction i arbitrary: v) (auto simp: bit_simps)

lemma putVarint9_value: "i \<le> 8 \<Longrightarrow> fold varint_step (putVarint9 i v) 0 = take_bit (7 * i) v"
proof (induction i arbitrary: v)
  case 0
  then show ?case by simp
next
  case (Suc i)
  have "i = 0 \<or> i = 1 \<or> i = 2 \<or> i = 3 \<or> i = 4 \<or> i = 5 \<or> i = 6 \<or> i = 7"
    using Suc.prems by presburger
  then have "varint_step (ucast ((v AND 0x7f) OR 0x80)) (take_bit (7 * i) (drop_bit 7 v))
        = take_bit (7 * Suc i) v"
    by (elim disjE; intro u64_bits_eqI) (simp_all add: varint_step_def bit_simps)
  with Suc show ?case by simp
qed

lemma ninth_byte_restored: "push_bit 8 (take_bit 56 (drop_bit 8 v)) OR ucast (ucast v :: u8) = v"
  for v :: u64
  by (rule u64_bits_eqI) (simp add: bit_simps)

lemma putVarint64_decodes:
  assumes "holds p (putVarint64 v)"
  shows "varint_ref p 0 0 = (length (putVarint64 v), v)"
proof (cases "v AND push_bit 32 0xff000000 \<noteq> 0")
  case True
  let ?hs = "putVarint9 8 (drop_bit 8 v)"
  have put: "putVarint64 v = ?hs @ [ucast v]" using True by (simp add: putVarint64_def)
  have len: "length ?hs = 8" "\<forall>b \<in> set ?hs. bit b 7" using putVarint9_shape by blast+
  have "holds p ?hs" "p 8 = ucast v" using assms len(1) by (auto simp: put holds_append)
  then have "varint_ref p 0 0 = varint_ref p 8 (take_bit 56 (drop_bit 8 v))"
    using varint_ref_continue [of p 0 ?hs 0] len putVarint9_value [of 8 "drop_bit 8 v"] by simp
  also have "\<dots> = (9, v)"
    using \<open>p 8 = ucast v\<close> by (simp add: varint_ref_steps(9) ninth_byte_restored)
  finally show ?thesis using len(1) by (simp add: put)
next
  case False
  obtain b buf where buf: "putVarintBuf v = b # buf"
    by (subst (asm) putVarintBuf.simps) blast
  have put: "putVarint64 v = rev buf @ [b AND 0x7f]"
    using False by (simp add: putVarint64_def buf)
  have n: "length buf < 8"
    using putVarintBuf_length [of v 8] top_byte_clear False by (simp add: buf)
  have high: "\<forall>c \<in> set (rev buf). bit c 7"
    using putVarintBuf_high [of _ v] by (simp add: buf)
  have b: "b = ucast (v AND 0x7f) OR 0x80" "foldr varint_step buf 0 = drop_bit 7 v"
    using buf putVarintBuf_value [of "drop_bit 7 v"]
    by (subst (asm) putVarintBuf.simps, simp split: if_splits)+
  have "holds p (rev buf)" "p (length buf) = b AND 0x7f"
    using assms by (auto simp: put holds_append)
  then have "varint_ref p 0 0 = varint_ref p (length buf) (drop_bit 7 v)"
    using varint_ref_continue [of p 0 "rev buf" 0] n high b(2) by (simp add: foldr_conv_fold)
  also have "\<dots> = (length buf + 1, varint_step (b AND 0x7f) (drop_bit 7 v))"
    using n \<open>p (length buf) = b AND 0x7f\<close> by (simp add: varint_ref_end bit_simps)
  also have "varint_step (b AND 0x7f) (drop_bit 7 v) = v"
    by (simp add: b(1) low_bits_restored(2))
  finally show ?thesis by (simp add: put)
qed

lemma u64_le_cases:
  fixes v :: u64
  shows "v \<le> 0x7f \<Longrightarrow> take_bit 7 v = v" and "v \<le> 0x3fff \<Longrightarrow> take_bit 14 v = v"
  by (simp_all add: take_bit_eq_mod word_le_nat_alt word_unat_eq_iff unat_mod)

lemma sqlite3PutVarint_decodes:
  assumes "holds p (sqlite3PutVarint v)"
  shows "sqlite3GetVarint p = (length (sqlite3PutVarint v), v)"
proof -
  consider "v \<le> 0x7f" | "\<not> v \<le> 0x7f" "v \<le> 0x3fff" | "\<not> v \<le> 0x7f" "\<not> v \<le> 0x3fff" by blast
  then show ?thesis
  proof cases
    case 1
    have "varint_step (ucast (v AND 0x7f)) 0 = take_bit 7 v"
      by (rule u64_bits_eqI) (simp add: varint_step_def bit_simps)
    with 1 assms show ?thesis
      by (simp add: sqlite3GetVarint_eq_ref sqlite3PutVarint_def varint_ref_end bit_simps
          u64_le_cases)
  next
    case 2
    have "varint_step (ucast (v AND 0x7f))
        (varint_step (ucast ((drop_bit 7 v AND 0x7f) OR 0x80)) 0) = take_bit 14 v"
      by (rule u64_bits_eqI) (simp add: varint_step_def bit_simps)
    with 2 assms varint_ref_continue [of p 0 "[ucast ((drop_bit 7 v AND 0x7f) OR 0x80)]" 0]
    show ?thesis
      by (simp add: sqlite3GetVarint_eq_ref sqlite3PutVarint_def varint_ref_end bit_simps
          u64_le_cases)
  next
    case 3
    with assms putVarint64_decodes show ?thesis
      by (simp add: sqlite3GetVarint_eq_ref sqlite3PutVarint_def)
  qed
qed

subsection \<open>Lengths\<close>

lemma sqlite3VarintLenLoop_buf:
  "i + length (putVarintBuf v) \<le> 9 \<Longrightarrow> sqlite3VarintLenLoop i v = i + length (putVarintBuf v)"
proof (induction v arbitrary: i rule: putVarintBuf.induct)
  case (1 v)
  show ?case
  proof (cases "drop_bit 7 v = 0")
    case True
    then show ?thesis
      by (subst sqlite3VarintLenLoop.simps, subst putVarintBuf.simps) simp
  next
    case False
    have len: "length (putVarintBuf v) = Suc (length (putVarintBuf (drop_bit 7 v)))"
      using False by (subst putVarintBuf.simps) simp
    have "1 \<le> length (putVarintBuf (drop_bit 7 v))" by (subst putVarintBuf.simps) simp
    moreover have "sqlite3VarintLenLoop (Suc i) (drop_bit 7 v) =
        Suc i + length (putVarintBuf (drop_bit 7 v))"
      using "1.IH" [OF False, of "Suc i"] "1.prems" len by simp
    ultimately show ?thesis
      using False "1.prems" len by (subst sqlite3VarintLenLoop.simps) simp
  qed
qed

lemma sqlite3VarintLenLoop_cap:
  "i < 9 \<Longrightarrow> 9 \<le> i + length (putVarintBuf v) \<Longrightarrow> sqlite3VarintLenLoop i v = 9"
proof (induction v arbitrary: i rule: putVarintBuf.induct)
  case (1 v)
  have len: "drop_bit 7 v \<noteq> 0 \<Longrightarrow>
      length (putVarintBuf v) = Suc (length (putVarintBuf (drop_bit 7 v)))"
    "drop_bit 7 v = 0 \<Longrightarrow> length (putVarintBuf v) = 1"
    by (subst putVarintBuf.simps, simp)+
  show ?case
  proof (cases "i = 8")
    case True
    then show ?thesis by (subst sqlite3VarintLenLoop.simps) (simp add: Let_def)
  next
    case False
    with "1.prems" len have nz: "drop_bit 7 v \<noteq> 0" by (cases "drop_bit 7 v = 0") auto
    with "1.IH" [OF nz, of "Suc i"] "1.prems" len False
    have "sqlite3VarintLenLoop (Suc i) (drop_bit 7 v) = 9" by simp
    with nz False "1.prems" show ?thesis
      by (subst sqlite3VarintLenLoop.simps) (simp add: Let_def)
  qed
qed

lemma putVarintBuf_length_ge:
  "128 ^ n \<le> unat v \<Longrightarrow> n < length (putVarintBuf v)"
proof (induction n arbitrary: v)
  case 0
  show ?case by (subst putVarintBuf.simps) simp
next
  case (Suc n)
  have div: "unat (drop_bit 7 v) = unat v div 128" by (simp add: drop_bit_eq_div unat_div)
  have "128 ^ n \<le> unat (drop_bit 7 v)"
    using div_le_mono [OF Suc.prems, of 128] by (simp add: div)
  moreover from this have "drop_bit 7 v \<noteq> 0"
    by (metis le_zero_eq power_not_zero unat_0 zero_neq_numeral)
  ultimately show ?case using Suc.IH by (subst putVarintBuf.simps) simp
qed

lemma top_byte_set:
  fixes v :: u64
  assumes "v AND push_bit 32 0xff000000 \<noteq> 0"
  shows "128 ^ 8 \<le> unat v"
proof (rule ccontr)
  assume "\<not> 128 ^ 8 \<le> unat v"
  then have "take_bit 56 (unat v) = unat v" by (simp add: take_bit_nat_eq_self)
  then have v: "take_bit 56 v = v" by (metis unsigned_take_bit_eq word_unat_eq_iff)
  have "take_bit 56 v AND push_bit 32 0xff000000 = 0"
    by (rule u64_bits_eqI) (simp add: bit_simps)
  with v assms show False by simp
qed

lemma sqlite3PutVarint_length:
  "length (sqlite3PutVarint v) = min 9 (length (putVarintBuf v))"
proof -
  have one: "v \<le> 0x7f \<Longrightarrow> length (putVarintBuf v) \<le> 1" "v \<le> 0x3fff \<Longrightarrow> length (putVarintBuf v) \<le> 2"
    using putVarintBuf_length [of v 1] putVarintBuf_length [of v 2]
    by (simp_all add: word_le_nat_alt)
  have pos: "0 < length (putVarintBuf v)" by (subst putVarintBuf.simps) simp
  have two: "1 < length (putVarintBuf v)" if "\<not> v \<le> 0x7f"
    using putVarintBuf_length_ge [of 1 v] that by (simp add: word_le_nat_alt)
  consider "v \<le> 0x7f" | "\<not> v \<le> 0x7f" "v \<le> 0x3fff" | "\<not> v \<le> 0x7f" "\<not> v \<le> 0x3fff" by blast
  then show ?thesis
  proof cases
    case 1
    with one(1) pos have "length (putVarintBuf v) = 1" by linarith
    with 1 show ?thesis by (simp add: sqlite3PutVarint_def)
  next
    case 2
    with one(2) two have "length (putVarintBuf v) = 2" by linarith
    with 2 show ?thesis by (simp add: sqlite3PutVarint_def)
  next
    case 3
    show ?thesis
    proof (cases "v AND push_bit 32 0xff000000 = 0")
      case True
      with putVarintBuf_length [of v 8] top_byte_clear 3 show ?thesis
        by (auto simp: sqlite3PutVarint_def putVarint64_def split: list.split)
    next
      case False
      with putVarintBuf_length_ge [of 8 v] top_byte_set [of v] 3 show ?thesis
        by (simp add: sqlite3PutVarint_def putVarint64_def putVarint9_shape)
    qed
  qed
qed

lemma sqlite3VarintLen_eq: "sqlite3VarintLen v = length (sqlite3PutVarint v)"
proof (cases "length (putVarintBuf v) \<le> 9")
  case True
  then show ?thesis
    by (simp add: sqlite3VarintLen_def sqlite3PutVarint_length sqlite3VarintLenLoop_buf)
next
  case False
  then show ?thesis
    by (simp add: sqlite3VarintLen_def sqlite3PutVarint_length sqlite3VarintLenLoop_cap)
qed

lemma sqlite3PutVarint_bounds:
  "1 \<le> length (sqlite3PutVarint v)" "length (sqlite3PutVarint v) \<le> 9"
proof -
  have "1 \<le> length (putVarintBuf v)" by (subst putVarintBuf.simps) simp
  then show "1 \<le> length (sqlite3PutVarint v)" "length (sqlite3PutVarint v) \<le> 9"
    by (simp_all add: sqlite3PutVarint_length)
qed

subsection \<open>The 32-bit reader\<close>

lemma byte_less_iff: "b < 0x80 \<longleftrightarrow> \<not> bit b 7" for b :: u8
proof
  assume "b < 0x80"
  then have "unat b div 2 ^ 7 = 0" by (simp add: word_less_nat_alt)
  then have "drop_bit 7 b = 0" by (simp add: word_unat_eq_iff drop_bit_eq_div unat_div)
  then show "\<not> bit b 7" by (simp add: bit_iff_odd_drop_bit)
next
  assume "\<not> bit b 7"
  have "take_bit 7 b = b"
  proof (rule bit_word_eqI)
    fix n assume "n < LENGTH(8)"
    then have "n < 7 \<or> n = 7" by auto
    with \<open>\<not> bit b 7\<close> show "bit (take_bit 7 b) n = bit b n" by (auto simp: bit_simps)
  qed
  then have "unat b = take_bit 7 (unat b)" by (metis unsigned_take_bit_eq)
  also have "\<dots> < 2 ^ 7" by (rule take_bit_nat_less_exp)
  finally show "b < 0x80" by (simp add: word_less_nat_alt)
qed


lemma ucast_ucast_u8: "(ucast (ucast b :: u32) :: u64) = ucast (b :: u8)"
  by (rule u64_bits_eqI) (simp add: bit_simps byte_bit_high)

lemma slot_mask: "(push_bit 14 0x7f OR 0x7f :: u32) = SLOT_2_0"
  by (simp add: SLOT_2_0_def)

text \<open>The general decoder when the encoding has at most three bytes, and when it has more.\<close>

lemma getVarint_first_bytes:
  "\<not> bit (p 0) 7 \<Longrightarrow> sqlite3GetVarint p = (1, ucast (p 0))"
  "bit (p 0) 7 \<Longrightarrow> \<not> bit (p 1) 7 \<Longrightarrow>
     sqlite3GetVarint p = (2, ucast (push_bit 7 (ucast (p 0) AND 0x7f) OR (ucast (p 1) :: u32)))"
  "bit (p 0) 7 \<Longrightarrow> bit (p 1) 7 \<Longrightarrow> \<not> bit (p 2) 7 \<Longrightarrow>
     sqlite3GetVarint p =
       (3, ucast (((push_bit 14 (ucast (p 0)) OR ucast (p 2)) AND SLOT_2_0) OR
           push_bit 7 (ucast (p 1) AND (0x7f :: u32))))"
  by (simp_all del: One_nat_def add: sqlite3GetVarint_def Let_def msb_clear_iff bit_simps
      ucast_ucast_u8)

definition saturate32 :: "u64 \<Rightarrow> u32" where
  "saturate32 v = (if v \<le> 0xffffffff then ucast v else 0xffffffff)"

lemma low_half_iff: "v AND 0xffffffff = v \<longleftrightarrow> v \<le> 0xffffffff" for v :: u64
proof -
  have "v AND 0xffffffff = take_bit 32 v"
    by (rule u64_bits_eqI) (simp add: bit_simps)
  then have "v AND 0xffffffff = v \<longleftrightarrow> unat v mod 2 ^ 32 = unat v"
    by (simp add: take_bit_eq_mod word_unat_eq_iff unat_mod)
  also have "\<dots> \<longleftrightarrow> unat v < 2 ^ 32"
    using mod_less_divisor [of "2 ^ 32" "unat v"] by (cases "unat v < 2 ^ 32") auto
  finally show ?thesis by (simp add: word_le_nat_alt less_Suc_eq_le [symmetric])
qed

lemma ucast_ucast_u32: "ucast (ucast w :: u64) = (w :: u32)"
  by (rule bit_word_eqI) (simp add: bit_simps)

lemma saturate32_of_u32 [simp]: "saturate32 (ucast (w :: u32)) = w"
proof -
  have "unat w < 2 ^ 32" using unsigned_less [of w] by simp
  then have "(ucast w :: u64) \<le> 0xffffffff"
    by (simp add: word_le_nat_alt unsigned_ucast_eq take_bit_nat_eq_self)
  then show ?thesis by (simp add: saturate32_def ucast_ucast_u32)
qed

lemma getVarint32_eq:
  "getVarint32 p = map_prod id saturate32 (sqlite3GetVarint p)"
proof -
  consider "\<not> bit (p 0) 7" | "bit (p 0) 7" "\<not> bit (p 1) 7"
    | "bit (p 0) 7" "bit (p 1) 7" "\<not> bit (p 2) 7"
    | "bit (p 0) 7" "bit (p 1) 7" "bit (p 2) 7" by blast
  then show ?thesis
  proof cases
    case 1
    with saturate32_of_u32 [of "ucast (p 0)"] show ?thesis
      by (simp add: getVarint32_def byte_less_iff getVarint_first_bytes ucast_ucast_u8)
  next
    case 2
    then show ?thesis
      by (simp del: One_nat_def add: getVarint32_def byte_less_iff getVarint_first_bytes
          sqlite3GetVarint32_def msb_clear_iff bit_simps)
  next
    case 3
    then show ?thesis
      by (simp del: One_nat_def add: getVarint32_def byte_less_iff getVarint_first_bytes
          sqlite3GetVarint32_def [unfolded slot_mask] msb_clear_iff bit_simps)
  next
    case 4
    then show ?thesis
      by (simp del: One_nat_def add: getVarint32_def byte_less_iff
          sqlite3GetVarint32_def msb_clear_iff bit_simps low_half_iff saturate32_def
          split: prod.split)
  qed
qed

subsection \<open>No shorter encoding\<close>

lemma unat_plus_le: "unat (x + y) \<le> unat x + unat y"
  by (simp add: unat_word_ariths)

lemma varint_step_less:
  assumes "unat acc < 128 ^ i" and "i < 8"
  shows "unat (varint_step b acc) < 128 ^ Suc i"
proof -
  have "push_bit 7 acc AND ucast (b AND 0x7f) = 0"
    by (rule u64_bits_eqI) (simp add: bit_simps)
  then have eq: "varint_step b acc = push_bit 7 acc + ucast (b AND 0x7f)"
    by (simp add: varint_step_def disjunctive_add_eq_or)
  have "(ucast (b AND 0x7f) :: u64) = take_bit 7 (ucast b)"
    by (rule u64_bits_eqI) (simp add: bit_simps)
  then have "unat (ucast (b AND 0x7f) :: u64) < 2 ^ 7"
    by (simp only: unsigned_take_bit_eq take_bit_nat_less_exp)
  moreover have "unat (push_bit 7 acc) \<le> 128 * unat acc"
    by (simp add: push_bit_eq_mult unat_word_ariths mult.commute)
  ultimately have "unat (varint_step b acc) \<le> 128 * unat acc + 127"
    using unat_plus_le [of "push_bit 7 acc" "ucast (b AND 0x7f)"] eq by simp
  with assms(1) show ?thesis by simp
qed

lemma varint_ref_bounds:
  assumes "i \<le> 8" and "unat acc < 128 ^ i" and "varint_ref p i acc = (n, v)"
  shows "i < n \<and> n \<le> 9 \<and> (n \<le> 8 \<longrightarrow> unat v < 128 ^ n)"
  using assms
proof (induction "8 - i" arbitrary: i acc)
  case 0
  then show ?case by (simp add: varint_ref.simps)
next
  case (Suc k)
  then have i: "i < 8" by simp
  show ?case
  proof (cases "bit (p i) 7")
    case True
    then have "varint_ref p (Suc i) (varint_step (p i) acc) = (n, v)"
      using Suc.prems(3) i by (subst (asm) varint_ref.simps) (simp add: Let_def varint_step_def)
    with Suc.hyps(1) [of "Suc i" "varint_step (p i) acc"] Suc.hyps(2) i
      varint_step_less [OF Suc.prems(2) i] show ?thesis by fastforce
  next
    case False
    with Suc.prems i varint_step_less [OF Suc.prems(2) i, of "p i"] show ?thesis
      by (auto simp: varint_ref_end)
  qed
qed

lemma sqlite3PutVarint_shortest:
  "length (sqlite3PutVarint (snd (sqlite3GetVarint p))) \<le> fst (sqlite3GetVarint p)"
proof -
  obtain n v where nv: "sqlite3GetVarint p = (n, v)" by (cases "sqlite3GetVarint p")
  then have b: "0 < n \<and> n \<le> 9 \<and> (n \<le> 8 \<longrightarrow> unat v < 128 ^ n)"
    using varint_ref_bounds [of 0 0 p n v] by (simp add: sqlite3GetVarint_eq_ref)
  show ?thesis
  proof (cases "n \<le> 8")
    case True
    with b putVarintBuf_length [of v n] show ?thesis by (simp add: nv sqlite3PutVarint_length)
  next
    case False
    with b sqlite3PutVarint_bounds(2) [of v] show ?thesis by (simp add: nv)
  qed
qed

subsection \<open>Big-endian 32-bit integers\<close>

lemma length_sqlite3Put4byte [simp]: "length (sqlite3Put4byte v) = 4"
  by (simp add: sqlite3Put4byte_def)

lemma sqlite3Get4byte_put:
  "holds p (sqlite3Put4byte v) \<Longrightarrow> sqlite3Get4byte p = v"
  unfolding sqlite3Put4byte_def sqlite3Get4byte_def
  by (rule u32_bits_eqI) (simp add: bit_simps numeral_2_eq_2 numeral_3_eq_3)

lemma sqlite3Put4byte_get: "sqlite3Put4byte (sqlite3Get4byte p) = [p 0, p 1, p 2, p 3]"
  unfolding sqlite3Put4byte_def sqlite3Get4byte_def list.inject
  by (intro conjI u8_bits_eqI) (simp_all add: bit_simps byte_bit_high)

subsection \<open>Codecs\<close>

text \<open>
  The contract of a writer and a reader of values in a byte stream: the reader, placed on what
  the writer stored, gives the value and the number of bytes.  It follows that no encoding is
  a proper prefix of another and that sequences of values need no separator.
\<close>

fun decode_seq :: "((nat \<Rightarrow> u8) \<Rightarrow> nat \<times> 'a) \<Rightarrow> nat \<Rightarrow> (nat \<Rightarrow> u8) \<Rightarrow> nat \<times> 'a list" where
  "decode_seq dec 0 p = (0, [])"
| "decode_seq dec (Suc k) p =
     (case dec p of (n, v) \<Rightarrow>
        (case decode_seq dec k (\<lambda>i. p (n + i)) of (m, vs) \<Rightarrow> (n + m, v # vs)))"

locale codec =
  fixes enc :: "'a \<Rightarrow> u8 list" and dec :: "(nat \<Rightarrow> u8) \<Rightarrow> nat \<times> 'a"
  assumes dec_enc: "holds p (enc v) \<Longrightarrow> dec p = (length (enc v), v)"
begin

lemma decode_sequence:
  "holds p (concat (map enc vs)) \<Longrightarrow>
     decode_seq dec (length vs) p = (length (concat (map enc vs)), vs)"
proof (induction vs arbitrary: p)
  case Nil
  then show ?case by simp
next
  case (Cons v vs)
  then have "holds p (enc v)" "holds (\<lambda>i. p (length (enc v) + i)) (concat (map enc vs))"
    by (simp_all add: holds_append)
  with Cons.IH dec_enc show ?case by simp
qed

lemma prefix_free:
  assumes "enc v @ xs = enc w @ ys"
  shows "v = w \<and> xs = ys"
proof -
  let ?bs = "enc v @ xs"
  let ?p = "\<lambda>i. if i < length ?bs then ?bs ! i else 0"
  have a: "holds ?p ?bs" by (simp add: holds_def)
  have b: "holds ?p (enc w @ ys)" using a unfolding assms .
  have "dec ?p = (length (enc v), v)"
    by (rule dec_enc) (rule holds_append [THEN iffD1, OF a, THEN conjunct1])
  moreover have "dec ?p = (length (enc w), w)"
    by (rule dec_enc) (rule holds_append [THEN iffD1, OF b, THEN conjunct1])
  ultimately have "v = w" by simp
  with assms show ?thesis by simp
qed

end

locale fixed_codec = codec +
  fixes width :: nat
  assumes length_enc: "length (enc v) = width"
begin

lemma decode_nth:
  assumes "holds p (concat (map enc vs))" and "k < length vs"
  shows "dec (\<lambda>i. p (width * k + i)) = (width, vs ! k)"
  using assms
proof (induction k arbitrary: vs p)
  case 0
  then obtain v ws where "vs = v # ws" by (cases vs) auto
  with 0 dec_enc [of p v] show ?case by (simp add: holds_append length_enc)
next
  case (Suc k)
  then obtain v ws where vs: "vs = v # ws" by (cases vs) auto
  with Suc have "holds (\<lambda>i. p (width + i)) (concat (map enc ws))" "k < length ws"
    by (simp_all add: holds_append length_enc)
  with Suc.IH [of "\<lambda>i. p (width + i)" ws] show ?case by (simp add: vs add.assoc)
qed

end

interpretation varint: codec sqlite3PutVarint sqlite3GetVarint
  by unfold_locales (rule sqlite3PutVarint_decodes)

interpretation be32: fixed_codec sqlite3Put4byte "\<lambda>p. (4, sqlite3Get4byte p)" 4
  by unfold_locales (simp_all add: sqlite3Get4byte_put)

subsection \<open>Properties\<close>

text \<open>
  Property C28.  The unrolled varint decoder, with its 32-bit accumulators and SLOT masks, computes
  for all byte sequences what the description of the format says: a loop over at most nine
  bytes, seven bits each, eight bits of the ninth; the value has at most the bits its length
  allows.
\<close>

theorem varint_decoder_is_loop:
  "sqlite3GetVarint p = varint_ref p 0 0 \<and>
   fst (sqlite3GetVarint p) \<in> {1..9} \<and>
   (fst (sqlite3GetVarint p) = 9 \<or>
      unat (snd (sqlite3GetVarint p)) < 128 ^ fst (sqlite3GetVarint p))"
  using varint_ref_bounds [of 0 0 p "fst (varint_ref p 0 0)" "snd (varint_ref p 0 0)"]
  by (auto simp: sqlite3GetVarint_eq_ref)

text \<open>
  Property C27.  Varints written one after the other are read back in order, with exactly the
  number of bytes that were written; no encoding is a prefix of a different one.
\<close>

theorem varint_sequences_roundtrip:
  assumes "holds p (concat (map sqlite3PutVarint vs))"
  shows "decode_seq sqlite3GetVarint (length vs) p =
           (length (concat (map sqlite3PutVarint vs)), vs)"
  by (rule varint.decode_sequence [OF assms])

theorem varint_sequences_roundtrip_witness:
  "decode_seq sqlite3GetVarint 3 (\<lambda>i. if i < 6 then [0x05, 0x81, 0x00, 0x81, 0x9c, 0x20] ! i else 0) =
     (6, [5, 128, 20000])"
proof -
  have put: "sqlite3PutVarint 5 = [0x05]" "sqlite3PutVarint 128 = [0x81, 0x00]"
    "sqlite3PutVarint 20000 = [0x81, 0x9c, 0x20]"
    by code_simp+
  show ?thesis
    using varint_sequences_roundtrip [of "\<lambda>i. if i < 6 then [0x05, 0x81, 0x00, 0x81, 0x9c, 0x20] ! i else 0"
      "[5, 128, 20000]"] by (simp add: put eval_nat_numeral del: decode_seq.simps)
qed

text \<open>
  \<^verbatim>\<open>sqlite3VarintLen\<close> is the number of bytes \<^verbatim>\<open>sqlite3PutVarint\<close> stores, one to
  nine, and the writer picks the shortest encoding: no byte sequence that decodes to the value
  is shorter.
\<close>

theorem varint_len_shortest:
  "sqlite3VarintLen v = length (sqlite3PutVarint v) \<and> sqlite3VarintLen v \<in> {1..9} \<and>
   sqlite3VarintLen (snd (sqlite3GetVarint p)) \<le> fst (sqlite3GetVarint p)"
  using sqlite3PutVarint_bounds [of v] sqlite3PutVarint_shortest [of p]
  by (auto simp: sqlite3VarintLen_eq)

text \<open>
  The 32-bit reader (macro and function together) consumes the bytes the 64-bit
  reader consumes and saturates: a value above \<^verbatim>\<open>0xffffffff\<close> reads as \<^verbatim>\<open>0xffffffff\<close>.
\<close>

theorem getVarint32_saturates:
  "getVarint32 p = (case sqlite3GetVarint p of (n, v) \<Rightarrow>
     (n, if v \<le> 0xffffffff then ucast v else 0xffffffff))"
  by (simp add: getVarint32_eq saturate32_def split: prod.split)

end
