(* ===== verification/Bitvec.thy ===== *)
theory Bitvec
  imports CBase
begin

text \<open>
  \<^verbatim>\<open>bitvec.c\<close>: the set of journalled pages.  Bits have numbers from 1 to \<^verbatim>\<open>iSize\<close>.  A vector is
  a bitmap, a hash table with linear probing or 125 sub-vectors; the union of the C structure
  is the datatype \<^verbatim>\<open>bv_u\<close>.  Sizes are those of a 32-bit target (four-byte pointers).  Unsigned
  32-bit fields are naturals, with the wrap-around written out where it can happen.
  \<^verbatim>\<open>Undefined\<close> stands for an access out of bounds or to the wrong member of the union, and for
  a probe or a recursion that does not end.

  The last part is the program of \<^verbatim>\<open>sqlite3BitvecBuiltinTest\<close>, run on a bit vector and on a
  linear array, two providers of the interface \<^verbatim>\<open>bitset\<close>.
\<close>

unbundle bit_operations_syntax

subsection \<open>Sizes\<close>

named_theorems bitvec_sizes \<open>values of the size macros\<close>

definition BITVEC_SZ :: nat where "BITVEC_SZ = 512"
definition BITVEC_USIZE :: nat where "BITVEC_USIZE = ((BITVEC_SZ - 3 * 4) div 4) * 4"
definition BITVEC_SZELEM :: nat where "BITVEC_SZELEM = 8"
definition BITVEC_NELEM :: nat where "BITVEC_NELEM = BITVEC_USIZE div 1"
definition BITVEC_NBIT :: nat where "BITVEC_NBIT = BITVEC_NELEM * BITVEC_SZELEM"
definition BITVEC_NINT :: nat where "BITVEC_NINT = BITVEC_USIZE div 4"
definition BITVEC_MXHASH :: nat where "BITVEC_MXHASH = BITVEC_NINT div 2"
definition BITVEC_NPTR :: nat where "BITVEC_NPTR = BITVEC_USIZE div 4"

lemma bitvec_size_values [bitvec_sizes]:
  "BITVEC_SZELEM = 8" "BITVEC_NELEM = 500" "BITVEC_NBIT = 4000" "BITVEC_NINT = 125"
  "BITVEC_MXHASH = 62" "BITVEC_NPTR = 125"
  by code_simp+

definition BITVEC_HASH :: "nat \<Rightarrow> nat" where
  "BITVEC_HASH x = (x * 1) mod BITVEC_NINT"

definition u32_wrap :: "nat \<Rightarrow> nat" where
  "u32_wrap n = n mod 2 ^ 32"

lemma u32_wrap_less [simp]: "n < 2 ^ 32 \<Longrightarrow> u32_wrap n = n"
  by (simp add: u32_wrap_def)

subsection \<open>The structure\<close>

datatype bitvec = Bitvec (iSize: nat) (nSet: nat) (iDivisor: nat) (u: bv_u)
  and bv_u = aBitmap "u8 list" | aHash "nat list" | apSub "bitvec option list"

text \<open>
  Memory that is all zeros, as the member the code looks at next: the bitmap for a small
  vector, the sub-vectors once a divisor is set, the hash table otherwise.
\<close>

definition zeroed :: "nat \<Rightarrow> nat \<Rightarrow> bv_u" where
  "zeroed sz d =
     (if sz \<le> BITVEC_NBIT then aBitmap (replicate BITVEC_NELEM 0)
      else if d \<noteq> 0 then apSub (replicate BITVEC_NPTR None)
      else aHash (replicate BITVEC_NINT 0))"

definition sqlite3BitvecCreate :: "nat \<Rightarrow> bool list \<Rightarrow> bitvec option \<times> bool list" where
  "sqlite3BitvecCreate sz ms =
     (case alloc ms of
        (False, ms') \<Rightarrow> (None, ms')
      | (True, ms') \<Rightarrow> (Some (Bitvec sz 0 0 (zeroed sz 0)), ms'))"

subsection \<open>Testing a bit\<close>

text \<open>The search loop of the hash table; the first argument bounds its iterations.\<close>

fun bitvecHashTest :: "nat \<Rightarrow> nat list \<Rightarrow> nat \<Rightarrow> nat \<Rightarrow> bool exec" where
  "bitvecHashTest 0 t i h = Undefined"
| "bitvecHashTest (Suc n) t i h =
     (if t ! h \<noteq> 0
      then (if t ! h = i then Done True
            else bitvecHashTest n t i ((h + 1) mod BITVEC_NINT))
      else Done False)"

definition bitvecTestLeaf :: "bitvec \<Rightarrow> nat \<Rightarrow> bool exec" where
  "bitvecTestLeaf p i =
     (if iSize p \<le> BITVEC_NBIT
      then (case u p of
              aBitmap bm \<Rightarrow>
                (if i div BITVEC_SZELEM < length bm
                 then Done ((bm ! (i div BITVEC_SZELEM)
                        AND push_bit (i mod BITVEC_SZELEM) 1) \<noteq> 0)
                 else Undefined)
            | _ \<Rightarrow> Undefined)
      else (case u p of
              aHash t \<Rightarrow> bitvecHashTest (Suc BITVEC_NINT) t (u32_wrap (i + 1)) (BITVEC_HASH i)
            | _ \<Rightarrow> Undefined))"

lemma sub_smaller:
  "bin < length l \<Longrightarrow> l ! bin = Some q \<Longrightarrow> size q < size_list (size_option size) l"
  by (rule size_list_estimation [of "Some q"]) (auto dest: nth_mem)

function bitvecTestLoop :: "bitvec \<Rightarrow> nat \<Rightarrow> bool exec" where
  "bitvecTestLoop p i =
     (if iDivisor p \<noteq> 0
      then (case u p of
              apSub l \<Rightarrow>
                (let bin = i div iDivisor p; i' = i mod iDivisor p
                 in if bin < length l
                    then (case l ! bin of None \<Rightarrow> Done False | Some q \<Rightarrow> bitvecTestLoop q i')
                    else Undefined)
            | _ \<Rightarrow> Undefined)
      else bitvecTestLeaf p i)"
  by pat_completeness auto
termination
proof (relation "measure (\<lambda>(p, i). size p)", goal_cases)
  case 1
  then show ?case by simp
next
  case (2 p i l bin i' q)
  then show ?case by (cases p) (auto dest: sub_smaller)
qed

declare bitvecTestLoop.simps [simp del]

definition sqlite3BitvecTest :: "bitvec option \<Rightarrow> nat \<Rightarrow> bool exec" where
  "sqlite3BitvecTest p i =
     (case p of
        None \<Rightarrow> Done False
      | Some p \<Rightarrow> if iSize p < i \<or> i = 0 then Done False else bitvecTestLoop p (i - 1))"

subsection \<open>Setting a bit\<close>

text \<open>
  The do-while loop: \<^verbatim>\<open>Done None\<close> when the value is in the table, \<^verbatim>\<open>Done (Some h)\<close> with the first
  free slot otherwise.
\<close>

fun bitvecProbe :: "nat \<Rightarrow> nat list \<Rightarrow> nat \<Rightarrow> nat \<Rightarrow> nat option exec" where
  "bitvecProbe 0 t i h = Undefined"
| "bitvecProbe (Suc n) t i h =
     (if t ! h = i then Done None
      else let h' = (if BITVEC_NINT \<le> h + 1 then 0 else h + 1)
           in if t ! h' \<noteq> 0 then bitvecProbe n t i h' else Done (Some h'))"

text \<open>Setting the values of the saved hash table again, after the first call gave \<^verbatim>\<open>rc\<close>.\<close>

fun bitvecSetAll ::
  "(bitvec \<Rightarrow> nat \<Rightarrow> bool list \<Rightarrow> (int \<times> bitvec \<times> bool list) exec) \<Rightarrow>
    int \<Rightarrow> bitvec \<Rightarrow> nat list \<Rightarrow> bool list \<Rightarrow> (int \<times> bitvec \<times> bool list) exec"
where
  "bitvecSetAll rec rc p [] ms = Done (rc, p, ms)"
| "bitvecSetAll rec rc p (v # vs) ms =
     (if v \<noteq> 0
      then exec_bind (rec p v ms) (\<lambda>(rc', p', ms'). bitvecSetAll rec (rc OR rc') p' vs ms')
      else bitvecSetAll rec rc p vs ms)"

text \<open>
  The code after the loop over sub-vectors.  \<^verbatim>\<open>rehash\<close> is the block behind the label
  \<^verbatim>\<open>bitvec_set_rehash\<close>, \<^verbatim>\<open>rec\<close> the recursive call in it; \<^verbatim>\<open>i\<close> counts from 0 in the leaf
  and from 1 in the hash table.
\<close>

definition bitvecSetEnd :: "bitvec \<Rightarrow> nat list \<Rightarrow> nat \<Rightarrow> nat \<Rightarrow> bitvec" where
  "bitvecSetEnd p t h i = Bitvec (iSize p) (nSet p + 1) (iDivisor p) (aHash (t[h := i]))"

definition bitvecRehash ::
  "(bitvec \<Rightarrow> nat \<Rightarrow> bool list \<Rightarrow> (int \<times> bitvec \<times> bool list) exec) \<Rightarrow>
    bitvec \<Rightarrow> nat list \<Rightarrow> nat \<Rightarrow> nat \<Rightarrow> bool list \<Rightarrow> (int \<times> bitvec \<times> bool list) exec"
where
  "bitvecRehash rec p t h i ms =
     (if BITVEC_MXHASH \<le> nSet p
      then (case alloc ms of
              (False, ms') \<Rightarrow> Done (SQLITE_NOMEM, p, ms')
            | (True, ms') \<Rightarrow>
                let d = u32_wrap (iSize p + BITVEC_NPTR - 1) div BITVEC_NPTR;
                    p1 = Bitvec (iSize p) (nSet p) d (zeroed (iSize p) d)
                in exec_bind (rec p1 i ms')
                     (\<lambda>(rc, p2, ms2). bitvecSetAll rec rc p2 t ms2))
      else Done (SQLITE_OK, bitvecSetEnd p t h i, ms))"

definition bitvecSetLeaf ::
  "(bitvec \<Rightarrow> nat \<Rightarrow> bool list \<Rightarrow> (int \<times> bitvec \<times> bool list) exec) \<Rightarrow>
    bitvec \<Rightarrow> nat \<Rightarrow> bool list \<Rightarrow> (int \<times> bitvec \<times> bool list) exec"
where
  "bitvecSetLeaf rec p i ms =
     (if iSize p \<le> BITVEC_NBIT
      then (case u p of
              aBitmap bm \<Rightarrow>
                (let k = i div BITVEC_SZELEM in
                 if k < length bm
                 then Done (SQLITE_OK,
                        Bitvec (iSize p) (nSet p) (iDivisor p)
                          (aBitmap (bm[k := bm ! k OR push_bit (i mod BITVEC_SZELEM) 1])), ms)
                 else Undefined)
            | _ \<Rightarrow> Undefined)
      else (case u p of
              aHash t \<Rightarrow>
                (let h = BITVEC_HASH i; i1 = u32_wrap (i + 1)
                 in if t ! h = 0
                    then (if nSet p < BITVEC_NINT - 1
                          then Done (SQLITE_OK, bitvecSetEnd p t h i1, ms)
                          else bitvecRehash rec p t h i1 ms)
                    else exec_bind (bitvecProbe BITVEC_NINT t i1 h)
                      (\<lambda>r. case r of
                             None \<Rightarrow> Done (SQLITE_OK, p, ms)
                           | Some h' \<Rightarrow> bitvecRehash rec p t h' i1 ms))
            | _ \<Rightarrow> Undefined))"

text \<open>
  The loop over sub-vectors and the leaf.  The first argument bounds the iterations and
  recursive calls.
\<close>

definition put_sub ::
  "bitvec \<Rightarrow> bitvec option list \<Rightarrow> nat \<Rightarrow> (int \<times> bitvec \<times> bool list) exec \<Rightarrow>
    (int \<times> bitvec \<times> bool list) exec"
where
  "put_sub p l bin r =
     exec_bind r (\<lambda>(rc, q, ms).
       Done (rc, Bitvec (iSize p) (nSet p) (iDivisor p) (apSub (l[bin := Some q])), ms))"

fun bitvecSetLoop ::
  "nat \<Rightarrow> bitvec \<Rightarrow> nat \<Rightarrow> bool list \<Rightarrow> (int \<times> bitvec \<times> bool list) exec"
where
  "bitvecSetLoop 0 p i ms = Undefined"
| "bitvecSetLoop (Suc n) p i ms =
     (if BITVEC_NBIT < iSize p \<and> iDivisor p \<noteq> 0
      then (case u p of
              apSub l \<Rightarrow>
                (let bin = i div iDivisor p; i' = i mod iDivisor p
                 in if bin < length l
                    then (case l ! bin of
                            None \<Rightarrow>
                              (case sqlite3BitvecCreate (iDivisor p) ms of
                                 (None, ms') \<Rightarrow> Done (SQLITE_NOMEM, p, ms')
                               | (Some q, ms') \<Rightarrow> put_sub p l bin (bitvecSetLoop n q i' ms'))
                          | Some q \<Rightarrow> put_sub p l bin (bitvecSetLoop n q i' ms))
                    else Undefined)
            | _ \<Rightarrow> Undefined)
      else bitvecSetLeaf (\<lambda>p i ms. bitvecSetLoop n p (u32_wrap (i + 2 ^ 32 - 1)) ms) p i ms)"

declare bitvecSetLoop.simps [simp del]

definition BITVEC_DEPTH :: nat where "BITVEC_DEPTH = 7"

definition sqlite3BitvecSet ::
  "bitvec option \<Rightarrow> nat \<Rightarrow> bool list \<Rightarrow> (int \<times> bitvec option \<times> bool list) exec"
where
  "sqlite3BitvecSet p i ms =
     (case p of
        None \<Rightarrow> Done (SQLITE_OK, None, ms)
      | Some p \<Rightarrow>
          exec_bind (bitvecSetLoop BITVEC_DEPTH p (u32_wrap (i + 2 ^ 32 - 1)) ms)
            (\<lambda>(rc, p', ms'). Done (rc, Some p', ms')))"

subsection \<open>Clearing a bit\<close>

fun bitvecFree :: "nat \<Rightarrow> nat list \<Rightarrow> nat \<Rightarrow> nat exec" where
  "bitvecFree 0 t h = Undefined"
| "bitvecFree (Suc n) t h =
     (if t ! h \<noteq> 0
      then bitvecFree n t (if BITVEC_NINT \<le> h + 1 then 0 else h + 1)
      else Done h)"

text \<open>Rebuilding the table from its old values without \<^verbatim>\<open>i1\<close>; the state is \<^verbatim>\<open>nSet\<close> and the table.\<close>

fun bitvecReinsert :: "nat list \<Rightarrow> nat \<Rightarrow> nat \<Rightarrow> nat list \<Rightarrow> (nat \<times> nat list) exec" where
  "bitvecReinsert [] i1 n t = Done (n, t)"
| "bitvecReinsert (v # vs) i1 n t =
     (if v \<noteq> 0 \<and> v \<noteq> i1
      then exec_bind (bitvecFree (Suc BITVEC_NINT) t (BITVEC_HASH (v - 1)))
             (\<lambda>h. bitvecReinsert vs i1 (n + 1) (t[h := v]))
      else bitvecReinsert vs i1 n t)"

definition bitvecClearLeaf :: "bitvec \<Rightarrow> nat \<Rightarrow> bitvec exec" where
  "bitvecClearLeaf p i =
     (if iSize p \<le> BITVEC_NBIT
      then (case u p of
              aBitmap bm \<Rightarrow>
                (let k = i div BITVEC_SZELEM in
                 if k < length bm
                 then Done (Bitvec (iSize p) (nSet p) (iDivisor p)
                        (aBitmap (bm[k := bm ! k AND NOT (push_bit (i mod BITVEC_SZELEM) 1)])))
                 else Undefined)
            | _ \<Rightarrow> Undefined)
      else (case u p of
              aHash t \<Rightarrow>
                exec_bind (bitvecReinsert t (u32_wrap (i + 1)) 0 (replicate BITVEC_NINT 0))
                  (\<lambda>(n, t'). Done (Bitvec (iSize p) n (iDivisor p) (aHash t')))
            | _ \<Rightarrow> Undefined))"

function bitvecClearLoop :: "bitvec \<Rightarrow> nat \<Rightarrow> bitvec exec" where
  "bitvecClearLoop p i =
     (if iDivisor p \<noteq> 0
      then (case u p of
              apSub l \<Rightarrow>
                (let bin = i div iDivisor p; i' = i mod iDivisor p
                 in if bin < length l
                    then (case l ! bin of
                            None \<Rightarrow> Done p
                          | Some q \<Rightarrow>
                              exec_bind (bitvecClearLoop q i')
                                (\<lambda>q'. Done (Bitvec (iSize p) (nSet p) (iDivisor p)
                                              (apSub (l[bin := Some q'])))))
                    else Undefined)
            | _ \<Rightarrow> Undefined)
      else bitvecClearLeaf p i)"
  by pat_completeness auto
termination
proof (relation "measure (\<lambda>(p, i). size p)", goal_cases)
  case 1
  then show ?case by simp
next
  case (2 p i l bin i' q)
  then show ?case by (cases p) (auto dest: sub_smaller)
qed

declare bitvecClearLoop.simps [simp del]

definition sqlite3BitvecClear :: "bitvec option \<Rightarrow> nat \<Rightarrow> bitvec option exec" where
  "sqlite3BitvecClear p i =
     (case p of
        None \<Rightarrow> Done None
      | Some p \<Rightarrow>
          exec_bind (bitvecClearLoop p (u32_wrap (i + 2 ^ 32 - 1))) (\<lambda>p'. Done (Some p')))"

definition sqlite3BitvecSize :: "bitvec \<Rightarrow> nat" where
  "sqlite3BitvecSize p = iSize p"

subsection \<open>The hash table\<close>

text \<open>The \<^verbatim>\<open>d\<close>-th slot looked at from \<^verbatim>\<open>h\<close>.\<close>

definition slot :: "nat \<Rightarrow> nat \<Rightarrow> nat" where
  "slot h d = (h + d) mod 125"

lemma slot_less [simp]: "slot h d < 125"
  by (simp add: slot_def)

lemma slot_0 [simp]: "h < 125 \<Longrightarrow> slot h 0 = h"
  by (simp add: slot_def)

lemma slot_next: "slot (slot h 1) d = slot h (Suc d)" "slot (slot h (Suc 0)) d = slot h (Suc d)"
  by (simp_all add: slot_def mod_simps)

lemma slot_reach:
  assumes "h < 125" and "k < 125"
  shows "\<exists>d<125. slot h d = k"
proof (cases "h \<le> k")
  case True
  with assms show ?thesis by (intro exI [of _ "k - h"]) (simp add: slot_def)
next
  case False
  then have "h + (k + 125 - h) = k + 125" using assms by simp
  then have "(h + (k + 125 - h)) mod 125 = k mod 125" by (simp only: mod_add_self2)
  with assms False show ?thesis by (intro exI [of _ "k + 125 - h"]) (simp add: slot_def)
qed

lemma BITVEC_HASH_less [simp]: "BITVEC_HASH x < 125"
  by (simp add: BITVEC_HASH_def bitvec_sizes)

text \<open>The first free slot from \<^verbatim>\<open>h\<close> on is \<^verbatim>\<open>d\<close> steps away.\<close>

definition first_free :: "nat list \<Rightarrow> nat \<Rightarrow> nat \<Rightarrow> bool" where
  "first_free t h d \<longleftrightarrow> d < 125 \<and> t ! slot h d = 0 \<and> (\<forall>j<d. t ! slot h j \<noteq> 0)"

lemma first_free_exists:
  assumes "k < 125" and "t ! k = 0" and "h < 125"
  obtains d where "first_free t h d"
proof -
  obtain d0 where d0: "d0 < 125 \<and> t ! slot h d0 = 0" using slot_reach assms by metis
  let ?d = "LEAST d. t ! slot h d = 0"
  have "t ! slot h ?d = 0" by (rule LeastI [of _ d0]) (use d0 in simp)
  moreover have "?d \<le> d0" by (rule Least_le) (use d0 in simp)
  moreover have "\<forall>j<?d. t ! slot h j \<noteq> 0" using not_less_Least by blast
  ultimately have "first_free t h ?d" using d0 unfolding first_free_def by (meson le_less_trans)
  then show ?thesis by (rule that)
qed

lemma first_free_Suc:
  "first_free t h (Suc d) \<Longrightarrow> first_free t (slot h (Suc 0)) d"
  by (auto simp: first_free_def slot_next)

lemma bitvecHashTest_walk:
  assumes "first_free t h d" and "d < n" and "h < 125" and "i \<noteq> 0"
  shows "bitvecHashTest n t i h = Done (\<exists>j<d. t ! slot h j = i)"
  using assms
proof (induction n arbitrary: h d)
  case 0
  then show ?case by simp
next
  case (Suc n)
  show ?case
  proof (cases d)
    case 0
    with Suc.prems show ?thesis by (simp add: first_free_def)
  next
    case (Suc e)
    with Suc.prems have "t ! h \<noteq> 0" by (auto simp: first_free_def dest: spec [of _ 0])
    moreover have "(h + 1) mod BITVEC_NINT = slot h (Suc 0)"
      by (simp add: slot_def bitvec_sizes)
    moreover have "bitvecHashTest n t i (slot h (Suc 0)) = Done (\<exists>j<e. t ! slot h (Suc j) = i)"
      using Suc.IH [OF first_free_Suc] Suc.prems Suc by (simp add: slot_next)
    ultimately show ?thesis
      using Suc.prems Suc by (auto simp: less_Suc_eq_0_disj)
  qed
qed

lemma wrap_slot: "h < 125 \<Longrightarrow> (if BITVEC_NINT \<le> h + 1 then 0 else h + 1) = slot h (Suc 0)"
proof (cases "h = 124")
  case True
  then show ?thesis by (simp add: slot_def bitvec_sizes)
next
  case False
  then show "h < 125 \<Longrightarrow> ?thesis" by (simp add: slot_def bitvec_sizes)
qed

lemma bitvecProbe_Suc:
  "h < 125 \<Longrightarrow> bitvecProbe (Suc n) t i h =
     (if t ! h = i then Done None
      else if t ! slot h (Suc 0) \<noteq> 0 then bitvecProbe n t i (slot h (Suc 0))
      else Done (Some (slot h (Suc 0))))"
  by (simp only: bitvecProbe.simps wrap_slot Let_def)

lemma bitvecFree_Suc:
  "h < 125 \<Longrightarrow> bitvecFree (Suc n) t h =
     (if t ! h \<noteq> 0 then bitvecFree n t (slot h (Suc 0)) else Done h)"
  by (simp only: bitvecFree.simps wrap_slot)

lemma bitvecProbe_walk:
  assumes "first_free t h d" and "d \<le> n" and "0 < d" and "h < 125"
  shows "bitvecProbe n t i h =
    Done (if \<exists>j<d. t ! slot h j = i then None else Some (slot h d))"
  using assms
proof (induction n arbitrary: h d)
  case 0
  then show ?case by simp
next
  case (Suc n)
  then obtain e where e: "d = Suc e" by (cases d) auto
  show ?case
  proof (cases e)
    case 0
    with Suc.prems e show ?thesis
      by (simp add: bitvecProbe_Suc first_free_def del: bitvecProbe.simps)
  next
    case (Suc e')
    then have "t ! slot h (Suc 0) \<noteq> 0"
      using Suc.prems e by (auto simp: first_free_def)
    moreover have "bitvecProbe n t i (slot h (Suc 0)) =
      Done (if \<exists>j<e. t ! slot h (Suc j) = i then None else Some (slot h (Suc e)))"
      using Suc.IH [OF first_free_Suc, of h e] Suc.prems e Suc by (simp add: slot_next)
    ultimately show ?thesis
      using Suc.prems e by (auto simp: bitvecProbe_Suc less_Suc_eq_0_disj simp del: bitvecProbe.simps)
  qed
qed

lemma bitvecFree_walk:
  assumes "first_free t h d" and "d < n" and "h < 125"
  shows "bitvecFree n t h = Done (slot h d)"
  using assms
proof (induction n arbitrary: h d)
  case 0
  then show ?case by simp
next
  case (Suc n)
  show ?case
  proof (cases d)
    case 0
    with Suc.prems show ?thesis by (simp add: first_free_def)
  next
    case (Suc e)
    with Suc.prems have "t ! h \<noteq> 0" by (auto simp: first_free_def dest: spec [of _ 0])
    with Suc.prems Suc Suc.IH [OF first_free_Suc, of h e] show ?thesis
      by (simp add: bitvecFree_Suc slot_next del: bitvecFree.simps)
  qed
qed

text \<open>
  The table invariant: every value lies in the range, behind a run of occupied slots that
  starts at its hash value, in one slot only; \<^verbatim>\<open>nSet\<close> counts the occupied slots and leaves one
  free.
\<close>

definition chained :: "nat list \<Rightarrow> nat \<Rightarrow> bool" where
  "chained t k \<longleftrightarrow>
     (\<exists>d<125. k = slot (BITVEC_HASH (t ! k - 1)) d \<and>
        (\<forall>j\<le>d. t ! slot (BITVEC_HASH (t ! k - 1)) j \<noteq> 0))"

definition hash_ok :: "nat \<Rightarrow> nat \<Rightarrow> nat list \<Rightarrow> bool" where
  "hash_ok s n t \<longleftrightarrow>
     length t = 125 \<and> n = card {k. k < 125 \<and> t ! k \<noteq> 0} \<and> n \<le> 124 \<and>
     (\<forall>k<125. t ! k \<noteq> 0 \<longrightarrow> t ! k \<le> s \<and> chained t k) \<and>
     (\<forall>k<125. \<forall>k'<125. t ! k \<noteq> 0 \<longrightarrow> t ! k = t ! k' \<longrightarrow> k = k')"

lemma hash_okD:
  assumes "hash_ok s n t"
  shows "length t = 125" and "n = card {k. k < 125 \<and> t ! k \<noteq> 0}" and "n \<le> 124"
    and "\<And>k. k < 125 \<Longrightarrow> t ! k \<noteq> 0 \<Longrightarrow> t ! k \<le> s"
    and "\<And>k. k < 125 \<Longrightarrow> t ! k \<noteq> 0 \<Longrightarrow> chained t k"
    and "\<And>k k'. k < 125 \<Longrightarrow> k' < 125 \<Longrightarrow> t ! k \<noteq> 0 \<Longrightarrow> t ! k = t ! k' \<Longrightarrow> k = k'"
  using assms unfolding hash_ok_def by blast+

lemma hash_okI:
  assumes "length t = 125" and "n = card {k. k < 125 \<and> t ! k \<noteq> 0}" and "n \<le> 124"
    and "\<And>k. k < 125 \<Longrightarrow> t ! k \<noteq> 0 \<Longrightarrow> t ! k \<le> s"
    and "\<And>k. k < 125 \<Longrightarrow> t ! k \<noteq> 0 \<Longrightarrow> chained t k"
    and "\<And>k k'. k < 125 \<Longrightarrow> k' < 125 \<Longrightarrow> t ! k \<noteq> 0 \<Longrightarrow> t ! k = t ! k' \<Longrightarrow> k = k'"
  shows "hash_ok s n t"
  using assms unfolding hash_ok_def by blast

lemma hash_ok_free:
  assumes "hash_ok s n t" and "h < 125"
  obtains d where "first_free t h d"
proof -
  have "\<exists>k<125. t ! k = 0"
  proof (rule ccontr)
    assume "\<not> (\<exists>k<125. t ! k = 0)"
    then have "{k. k < 125 \<and> t ! k \<noteq> 0} = {..<125}" by auto
    then have "card {k. k < 125 \<and> t ! k \<noteq> 0} = 125" by (simp only: card_lessThan)
    with assms(1) show False unfolding hash_ok_def by linarith
  qed
  with assms(2) that first_free_exists show ?thesis by metis
qed

lemma hash_ok_member:
  assumes "hash_ok s n t" and "first_free t (BITVEC_HASH (v - 1)) d" and "v \<noteq> 0"
  shows "(\<exists>j<d. t ! slot (BITVEC_HASH (v - 1)) j = v) \<longleftrightarrow> v \<in> set t"
proof
  assume "\<exists>j<d. t ! slot (BITVEC_HASH (v - 1)) j = v"
  moreover have "length t = 125" using assms(1) by (simp add: hash_ok_def)
  ultimately show "v \<in> set t" by (metis nth_mem slot_less)
next
  assume "v \<in> set t"
  then obtain k where k: "k < 125" "t ! k = v"
    using hash_okD(1) [OF assms(1)] by (metis in_set_conv_nth)
  then obtain e where e: "k = slot (BITVEC_HASH (v - 1)) e"
      "\<forall>j\<le>e. t ! slot (BITVEC_HASH (v - 1)) j \<noteq> 0"
    using hash_okD(5) [OF assms(1)] assms(3) by (auto simp: chained_def)
  moreover have "t ! slot (BITVEC_HASH (v - 1)) d = 0" using assms(2) by (simp add: first_free_def)
  ultimately have "e < d" by (meson not_le)
  with e(1) k show "\<exists>j<d. t ! slot (BITVEC_HASH (v - 1)) j = v" by auto
qed

lemma hash_ok_insert:
  assumes ok: "hash_ok s n t" and free: "first_free t (BITVEC_HASH (v - 1)) d"
    and v: "v \<noteq> 0" "v \<le> s" "v \<notin> set t" and n: "n < 124"
  shows "hash_ok s (n + 1) (t[slot (BITVEC_HASH (v - 1)) d := v])"
    and "set (t[slot (BITVEC_HASH (v - 1)) d := v]) - {0} = insert v (set t - {0})"
proof -
  let ?h = "BITVEC_HASH (v - 1)" and ?e = "slot (BITVEC_HASH (v - 1)) d"
  let ?t = "t[?e := v]"
  have len: "length t = 125" by (rule hash_okD(1) [OF ok])
  have e: "?e < 125" "t ! ?e = 0" and run: "\<forall>j<d. t ! slot ?h j \<noteq> 0" and d: "d < 125"
    using free by (auto simp: first_free_def)
  have at: "?t ! k = (if k = ?e then v else t ! k)" if "k < 125" for k
    using that len by simp
  have keep: "?t ! k = t ! k" if "k < 125" "t ! k \<noteq> 0" for k
    using e(2) at that by auto
  have "{k. k < 125 \<and> ?t ! k \<noteq> 0} = insert ?e {k. k < 125 \<and> t ! k \<noteq> 0}"
    using at v(1) e by auto
  then have card: "card {k. k < 125 \<and> ?t ! k \<noteq> 0} = n + 1"
    using hash_okD(2) [OF ok] e by simp
  have range: "?t ! k \<le> s" if "k < 125" "?t ! k \<noteq> 0" for k
    using that hash_okD(4) [OF ok, of k] v(2) at [of k] by (auto split: if_splits)
  have chain: "chained ?t k" if k: "k < 125" "?t ! k \<noteq> 0" for k
  proof (cases "k = ?e")
    case True
    have "?t ! slot ?h j \<noteq> 0" if "j \<le> d" for j
      using that run v(1) at [of "slot ?h j"] by (cases "j = d") auto
    with True at [OF e(1)] d show ?thesis unfolding chained_def by auto
  next
    case False
    then have old: "?t ! k = t ! k" using k by (simp add: at)
    with k hash_okD(5) [OF ok, of k] have "chained t k" by simp
    then obtain d' where d': "d' < 125" "k = slot (BITVEC_HASH (t ! k - 1)) d'"
        "\<forall>j\<le>d'. t ! slot (BITVEC_HASH (t ! k - 1)) j \<noteq> 0"
      unfolding chained_def by blast
    then have "\<forall>j\<le>d'. ?t ! slot (BITVEC_HASH (t ! k - 1)) j \<noteq> 0" using keep by simp
    with d'(1,2) show ?thesis unfolding chained_def old by blast
  qed
  have uniq: "k = k'" if kk: "k < 125" "k' < 125" "?t ! k \<noteq> 0" "?t ! k = ?t ! k'" for k k'
  proof -
    have new: "v \<noteq> t ! j" if "j < 125" for j using v(3) len nth_mem that by metis
    have old: "t ! k \<noteq> 0 \<Longrightarrow> t ! k = t ! k' \<Longrightarrow> k = k'"
      by (rule hash_okD(6) [OF ok kk(1,2)])
    show ?thesis
      using kk(3,4) new [OF kk(1)] new [OF kk(2)] old
      unfolding at [OF kk(1)] at [OF kk(2)] by (auto split: if_splits)
  qed
  show "hash_ok s (n + 1) ?t"
  proof (rule hash_okI)
    show "length ?t = 125" using len by simp
    show "n + 1 = card {k. k < 125 \<and> ?t ! k \<noteq> 0}" by (rule card [symmetric])
    show "n + 1 \<le> 124" using n by simp
  qed (fact range chain uniq)+
  have "set ?t \<subseteq> insert v (set t)" by (rule set_update_subset_insert)
  moreover have "v \<in> set ?t" using e len by (simp add: set_update_memI)
  moreover have "x \<in> set ?t" if "x \<in> set t" "x \<noteq> 0" for x
  proof -
    from that obtain k where "k < 125" "t ! k = x" by (auto simp: in_set_conv_nth len)
    with keep [of k] that(2) len show ?thesis by (metis length_list_update nth_mem)
  qed
  ultimately show "set ?t - {0} = insert v (set t - {0})" using v(1) by auto
qed

lemma hash_ok_empty: "hash_ok s 0 (replicate 125 0)"
  by (simp add: hash_ok_def)

subsection \<open>The invariant of the tree\<close>

inductive bitvec_ok :: "bitvec \<Rightarrow> bool" where
  bitmap_ok: "s \<le> 4000 \<Longrightarrow> length bm = 500 \<Longrightarrow> bitvec_ok (Bitvec s n 0 (aBitmap bm))"
| table_ok: "4000 < s \<Longrightarrow> hash_ok s n t \<Longrightarrow> bitvec_ok (Bitvec s n 0 (aHash t))"
| tree_ok: "4000 < s \<Longrightarrow> d = (s + 124) div 125 \<Longrightarrow> length l = 125 \<Longrightarrow>
    (\<And>q. Some q \<in> set l \<Longrightarrow> bitvec_ok q \<and> iSize q = d) \<Longrightarrow>
    bitvec_ok (Bitvec s n d (apSub l))"

inductive_simps bitvec_ok_bitmap [simp]: "bitvec_ok (Bitvec s n d (aBitmap bm))"
inductive_simps bitvec_ok_table [simp]: "bitvec_ok (Bitvec s n d (aHash t))"
inductive_simps bitvec_ok_tree: "bitvec_ok (Bitvec s n d (apSub l))"

text \<open>The bits that are set, counted from 0 as the code does behind its entry points.\<close>

definition bv_mem :: "bitvec \<Rightarrow> nat \<Rightarrow> bool" where
  "bv_mem p i \<longleftrightarrow> bitvecTestLoop p i = Done True"

lemma and_single_bit: "x AND 2 ^ n = 0 \<longleftrightarrow> \<not> bit x n" for x :: u8
  using and_exp_eq_0_iff_not_bit [of x n] by simp

lemma byte_index: "i < s \<Longrightarrow> s \<le> 4000 \<Longrightarrow> i div 8 < 500" for i s :: nat
  by linarith

lemma test_bitmap:
  assumes "s \<le> 4000" and "length bm = 500" and "i < s"
  shows "bitvecTestLoop (Bitvec s n 0 (aBitmap bm)) i = Done (bit (bm ! (i div 8)) (i mod 8))"
  using assms
  by (subst bitvecTestLoop.simps) (simp add: bitvecTestLeaf_def bitvec_sizes and_single_bit byte_index)

lemma test_table:
  assumes "4000 < s" and "hash_ok s n t" and "i < s" and "s < 2 ^ 32"
  shows "bitvecTestLoop (Bitvec s n 0 (aHash t)) i = Done (Suc i \<in> set t)"
proof -
  obtain d where d: "first_free t (BITVEC_HASH i) d"
    using hash_ok_free [OF assms(2)] by (metis BITVEC_HASH_less)
  have "d < 125" using d by (simp add: first_free_def)
  with d have "bitvecHashTest 126 t (Suc i) (BITVEC_HASH i) = Done (Suc i \<in> set t)"
    using bitvecHashTest_walk [OF d, of 126 "Suc i"] hash_ok_member [OF assms(2), of "Suc i" d]
    by simp
  with assms(1,3,4) show ?thesis
    by (subst bitvecTestLoop.simps)
      (simp add: bitvecTestLeaf_def bitvec_sizes del: bitvecHashTest.simps)
qed

lemma bin_less:
  fixes s d i :: nat
  assumes "4000 < s" and "d = (s + 124) div 125" and "i < s"
  shows "0 < d" and "i div d < 125" and "i mod d < d" and "d < s"
proof -
  have "s \<le> 125 * d" and "125 * d \<le> s + 124"
    using mult_div_mod_eq [of 125 "s + 124"] mod_less_divisor [of 125 "s + 124"] assms(2)
    by linarith+
  with assms(1,3) show d: "0 < d" "d < s" by linarith+
  with \<open>s \<le> 125 * d\<close> assms(3) show "i div d < 125" by (simp add: div_less_iff_less_mult)
  from d show "i mod d < d" by simp
qed

lemma test_tree:
  assumes "4000 < s" and "d = (s + 124) div 125" and "length l = 125" and "i < s"
  shows "bitvecTestLoop (Bitvec s n d (apSub l)) i =
    (case l ! (i div d) of None \<Rightarrow> Done False | Some q \<Rightarrow> bitvecTestLoop q (i mod d))"
  using assms(3) bin_less(1,2) [OF assms(1,2,4)]
  by (subst bitvecTestLoop.simps) (simp add: Let_def split: option.split)

lemma bitvecTestLoop_total:
  assumes "bitvec_ok p" and "i < iSize p" and "iSize p < 2 ^ 32"
  shows "\<exists>b. bitvecTestLoop p i = Done b"
  using assms
proof (induction p arbitrary: i rule: bitvec_ok.induct)
  case (bitmap_ok s bm n)
  then show ?case by (simp add: test_bitmap)
next
  case (table_ok s n t)
  then show ?case by (simp add: test_table)
next
  case (tree_ok s d l n)
  note bin = bin_less [OF tree_ok.hyps(1,2), of i] 
  show ?case
  proof (cases "l ! (i div d)")
    case None
    with tree_ok show ?thesis by (auto simp: test_tree)
  next
    case (Some q)
    with tree_ok.hyps(3) tree_ok.prems(1) bin have "Some q \<in> set l"
      by (metis bitvec.sel(1) nth_mem)
    with Some tree_ok bin show ?thesis by (simp add: test_tree)
  qed
qed

lemma mem_bitmap:
  "s \<le> 4000 \<Longrightarrow> length bm = 500 \<Longrightarrow> i < s \<Longrightarrow>
     bv_mem (Bitvec s n 0 (aBitmap bm)) i \<longleftrightarrow> bit (bm ! (i div 8)) (i mod 8)"
  by (simp add: bv_mem_def test_bitmap)

lemma mem_table:
  "4000 < s \<Longrightarrow> hash_ok s n t \<Longrightarrow> i < s \<Longrightarrow> s < 2 ^ 32 \<Longrightarrow>
     bv_mem (Bitvec s n 0 (aHash t)) i \<longleftrightarrow> Suc i \<in> set t"
  by (simp add: bv_mem_def test_table)

lemma mem_tree:
  "4000 < s \<Longrightarrow> d = (s + 124) div 125 \<Longrightarrow> length l = 125 \<Longrightarrow> i < s \<Longrightarrow>
     bv_mem (Bitvec s n d (apSub l)) i \<longleftrightarrow>
       (\<exists>q. l ! (i div d) = Some q \<and> bv_mem q (i mod d))"
  by (simp add: bv_mem_def test_tree split: option.split)

lemma create_ok:
  assumes "sqlite3BitvecCreate s ms = (Some p, ms')"
  shows "bitvec_ok p" and "iSize p = s" and "s < 2 ^ 32 \<Longrightarrow> i < s \<Longrightarrow> \<not> bv_mem p i"
proof -
  have p: "p = Bitvec s 0 0 (zeroed s 0)"
    using assms by (auto simp: sqlite3BitvecCreate_def split: prod.splits bool.splits)
  show "bitvec_ok p" "iSize p = s"
    by (simp_all add: p zeroed_def bitvec_sizes hash_ok_empty)
  show "\<not> bv_mem p i" if "s < 2 ^ 32" "i < s"
    using that
    by (cases "s \<le> 4000") (simp_all add: p zeroed_def bitvec_sizes mem_bitmap mem_table hash_ok_empty)
qed

lemma create_iDivisor: "sqlite3BitvecCreate s ms = (Some p, ms') \<Longrightarrow> iDivisor p = 0"
  by (auto simp: sqlite3BitvecCreate_def split: prod.splits bool.splits)

subsection \<open>Setting a bit is insertion\<close>

text \<open>
  What a call that sets bit \<^verbatim>\<open>i\<close> (from 0) does: it returns, keeps the invariant and the range,
  sets no other bit; with \<^verbatim>\<open>SQLITE_OK\<close> the bit is set and none is lost; \<^verbatim>\<open>SQLITE_NOMEM\<close>
  only after a failed allocation.
\<close>

definition set_post ::
  "bitvec \<Rightarrow> (nat \<Rightarrow> bool) \<Rightarrow> bool list \<Rightarrow> (int \<times> bitvec \<times> bool list) exec \<Rightarrow> bool"
where
  "set_post p new ms r \<longleftrightarrow>
     (\<exists>rc p' ms'. r = Done (rc, p', ms') \<and> bitvec_ok p' \<and> iSize p' = iSize p \<and>
        (iDivisor p \<noteq> 0 \<longrightarrow> iDivisor p' \<noteq> 0) \<and> (rc = SQLITE_OK \<or> rc = SQLITE_NOMEM) \<and>
        (\<forall>j < iSize p. bv_mem p' j \<longrightarrow> new j \<or> bv_mem p j) \<and>
        (rc = SQLITE_OK \<longrightarrow> (\<forall>j < iSize p. new j \<or> bv_mem p j \<longrightarrow> bv_mem p' j)) \<and>
        (False \<notin> set ms \<longrightarrow> rc = SQLITE_OK \<and> False \<notin> set ms'))"

lemma set_postI:
  assumes "bitvec_ok p'" "iSize p' = iSize p" "iDivisor p \<noteq> 0 \<Longrightarrow> iDivisor p' \<noteq> 0"
    "rc = SQLITE_OK \<or> rc = SQLITE_NOMEM"
    "\<And>j. j < iSize p \<Longrightarrow> bv_mem p' j \<Longrightarrow> new j \<or> bv_mem p j"
    "\<And>j. rc = SQLITE_OK \<Longrightarrow> j < iSize p \<Longrightarrow> new j \<or> bv_mem p j \<Longrightarrow> bv_mem p' j"
    "False \<notin> set ms \<Longrightarrow> rc = SQLITE_OK \<and> False \<notin> set ms'"
  shows "set_post p new ms (Done (rc, p', ms'))"
  using assms unfolding set_post_def by blast

lemma set_postE:
  assumes "set_post p new ms r"
  obtains rc p' ms' where "r = Done (rc, p', ms')" "bitvec_ok p'" "iSize p' = iSize p"
    "iDivisor p \<noteq> 0 \<longrightarrow> iDivisor p' \<noteq> 0" "rc = SQLITE_OK \<or> rc = SQLITE_NOMEM"
    "\<forall>j < iSize p. bv_mem p' j \<longrightarrow> new j \<or> bv_mem p j"
    "rc = SQLITE_OK \<longrightarrow> (\<forall>j < iSize p. new j \<or> bv_mem p j \<longrightarrow> bv_mem p' j)"
    "False \<notin> set ms \<longrightarrow> rc = SQLITE_OK \<and> False \<notin> set ms'"
  using assms unfolding set_post_def by blast

lemma set_post_same:
  "bitvec_ok p \<Longrightarrow> rc = SQLITE_NOMEM \<Longrightarrow> \<not> False \<notin> set ms \<Longrightarrow> set_post p new ms (Done (rc, p, ms'))"
  by (rule set_postI) (auto simp: result_codes)

lemma alloc_all: "False \<notin> set ms \<Longrightarrow> alloc ms = (b, ms') \<Longrightarrow> b \<and> False \<notin> set ms'"
  by (cases ms) auto

lemma create_None: "sqlite3BitvecCreate s ms = (None, ms') \<Longrightarrow> \<not> False \<notin> set ms"
  using alloc_all by (fastforce simp: sqlite3BitvecCreate_def split: prod.splits bool.splits)

lemma create_Some:
  "sqlite3BitvecCreate s ms = (Some q, ms') \<Longrightarrow> False \<notin> set ms \<Longrightarrow> False \<notin> set ms'"
  using alloc_all by (fastforce simp: sqlite3BitvecCreate_def split: prod.splits bool.splits)

lemma rc_or:
  "rc = SQLITE_OK \<or> rc = SQLITE_NOMEM \<Longrightarrow> rc' = SQLITE_OK \<or> rc' = SQLITE_NOMEM \<Longrightarrow>
    (rc OR rc' = SQLITE_OK \<or> rc OR rc' = SQLITE_NOMEM) \<and>
    (rc OR rc' = SQLITE_OK \<longleftrightarrow> rc = SQLITE_OK \<and> rc' = SQLITE_OK)"
  by (auto simp: result_codes)

text \<open>Setting the saved values again, given that the recursive call does its job.\<close>

lemma bitvecSetAll_post:
  assumes rec: "\<And>q v ms. bitvec_ok q \<Longrightarrow> iSize q = s \<Longrightarrow> iDivisor q \<noteq> 0 \<Longrightarrow> 0 < v \<Longrightarrow> v \<le> s \<Longrightarrow>
      set_post q (\<lambda>j. Suc j = v) ms (rec q v ms)"
    and "bitvec_ok p" "iSize p = s" "iDivisor p \<noteq> 0" "\<And>v. v \<in> set vs \<Longrightarrow> v \<le> s"
    and "rc0 = SQLITE_OK \<or> rc0 = SQLITE_NOMEM"
  shows "\<exists>rc p' ms'. bitvecSetAll rec rc0 p vs ms = Done (rc, p', ms') \<and> bitvec_ok p' \<and>
    iSize p' = s \<and> iDivisor p' \<noteq> 0 \<and> (rc = SQLITE_OK \<or> rc = SQLITE_NOMEM) \<and>
    (\<forall>j < s. bv_mem p' j \<longrightarrow> Suc j \<in> set vs \<or> bv_mem p j) \<and>
    (rc = SQLITE_OK \<longrightarrow> rc0 = SQLITE_OK \<and>
       (\<forall>j < s. Suc j \<in> set vs \<or> bv_mem p j \<longrightarrow> bv_mem p' j)) \<and>
    (False \<notin> set ms \<longrightarrow> rc = rc0 \<and> False \<notin> set ms')"
  using assms(2-)
proof (induction vs arbitrary: rc0 p ms)
  case Nil
  then show ?case by auto
next
  case (Cons v vs)
  show ?case
  proof (cases "v = 0")
    case True
    with Cons.IH [of p rc0 ms] Cons.prems show ?thesis by simp
  next
    case False
    then have "set_post p (\<lambda>j. Suc j = v) ms (rec p v ms)"
      using rec Cons.prems by simp
    then obtain rc1 p1 ms1 where r: "rec p v ms = Done (rc1, p1, ms1)" "bitvec_ok p1"
        "iSize p1 = iSize p" "iDivisor p \<noteq> 0 \<longrightarrow> iDivisor p1 \<noteq> 0"
        "rc1 = SQLITE_OK \<or> rc1 = SQLITE_NOMEM"
        "\<forall>j < iSize p. bv_mem p1 j \<longrightarrow> Suc j = v \<or> bv_mem p j"
        "rc1 = SQLITE_OK \<longrightarrow> (\<forall>j < iSize p. Suc j = v \<or> bv_mem p j \<longrightarrow> bv_mem p1 j)"
        "False \<notin> set ms \<longrightarrow> rc1 = SQLITE_OK \<and> False \<notin> set ms1"
      by (rule set_postE) (rule that)
    have "iDivisor p1 \<noteq> 0" using r(4) Cons.prems(3) by blast
    note 1 = r(1,2) r(3) [unfolded Cons.prems(2)] this r(5) r(6-7) [unfolded Cons.prems(2)] r(8)
    note or = rc_or [OF Cons.prems(5) 1(5)]
    obtain rc p' ms' where 2: "bitvecSetAll rec (rc0 OR rc1) p1 vs ms1 = Done (rc, p', ms')"
        "bitvec_ok p'" "iSize p' = s" "iDivisor p' \<noteq> 0" "rc = SQLITE_OK \<or> rc = SQLITE_NOMEM"
        "\<forall>j < s. bv_mem p' j \<longrightarrow> Suc j \<in> set vs \<or> bv_mem p1 j"
        "rc = SQLITE_OK \<longrightarrow> rc0 OR rc1 = SQLITE_OK \<and>
          (\<forall>j < s. Suc j \<in> set vs \<or> bv_mem p1 j \<longrightarrow> bv_mem p' j)"
        "False \<notin> set ms1 \<longrightarrow> rc = rc0 OR rc1 \<and> False \<notin> set ms'"
      using Cons.IH [OF 1(2-4) Cons.prems(4) [OF list.set_intros(2)] conjunct1 [OF or], of ms1]
      by blast
    have "bitvecSetAll rec rc0 p (v # vs) ms = Done (rc, p', ms')"
      using False 1(1) 2(1) by simp
    moreover have "\<forall>j < s. bv_mem p' j \<longrightarrow> Suc j \<in> set (v # vs) \<or> bv_mem p j"
      using 2(6) 1(6) by auto
    moreover have "rc = SQLITE_OK \<longrightarrow> rc0 = SQLITE_OK \<and>
        (\<forall>j < s. Suc j \<in> set (v # vs) \<or> bv_mem p j \<longrightarrow> bv_mem p' j)"
      using 2(7) 1(7) or by auto
    moreover have "False \<notin> set ms \<longrightarrow> rc = rc0 \<and> False \<notin> set ms'"
      using 2(8) 1(8) by (auto simp: result_codes)
    ultimately show ?thesis using 2(2-5) by blast
  qed
qed

lemma bitmap_set_bit:
  fixes i j :: nat and bm :: "u8 list"
  assumes "i div 8 < length bm" and "j div 8 < length bm"
  shows "bit (bm[i div 8 := bm ! (i div 8) OR push_bit (i mod 8) 1] ! (j div 8)) (j mod 8) \<longleftrightarrow>
      j = i \<or> bit (bm ! (j div 8)) (j mod 8)"
    and "bit (bm[i div 8 := bm ! (i div 8) AND NOT (push_bit (i mod 8) 1)] ! (j div 8)) (j mod 8) \<longleftrightarrow>
      j \<noteq> i \<and> bit (bm ! (j div 8)) (j mod 8)"
proof -
  have eq: "j = i \<longleftrightarrow> j div 8 = i div 8 \<and> j mod 8 = i mod 8"
    by (metis div_mult_mod_eq)
  have small: "k mod 8 < 8" for k :: nat by simp
  show "bit (bm[i div 8 := bm ! (i div 8) OR push_bit (i mod 8) 1] ! (j div 8)) (j mod 8) \<longleftrightarrow>
      j = i \<or> bit (bm ! (j div 8)) (j mod 8)"
    using assms by (cases "j div 8 = i div 8") (auto simp: eq bit_simps)
  show "bit (bm[i div 8 := bm ! (i div 8) AND NOT (push_bit (i mod 8) 1)] ! (j div 8)) (j mod 8) \<longleftrightarrow>
      j \<noteq> i \<and> bit (bm ! (j div 8)) (j mod 8)"
    using assms by (cases "j div 8 = i div 8") (auto simp: eq bit_simps)
qed

text \<open>
  The depth of the tree, and the number of iterations and recursive calls a call needs: one to
  change a table into a tree, one to step down.
\<close>

function bv_level :: "nat \<Rightarrow> nat" where
  "bv_level s = (if s \<le> 4000 then 0 else Suc (bv_level ((s + 124) div 125)))"
  by pat_completeness auto
termination by (relation "measure id") auto

declare bv_level.simps [simp del]

definition bv_need :: "bitvec \<Rightarrow> nat" where
  "bv_need p = (if iSize p \<le> 4000 then 1
     else if iDivisor p = 0 then 2 * bv_level (iSize p) + 1 else 2 * bv_level (iSize p))"

lemma wrap_pred: "0 < v \<Longrightarrow> v < 2 ^ 32 \<Longrightarrow> u32_wrap (v + 2 ^ 32 - 1) = v - 1"
  by (simp add: u32_wrap_def mod_if)

lemma mem_fresh_tree:
  "4000 < s \<Longrightarrow> d = (s + 124) div 125 \<Longrightarrow> j < s \<Longrightarrow>
     \<not> bv_mem (Bitvec s n d (apSub (replicate 125 None))) j"
  using bin_less(2) [of s d j] by (simp add: mem_tree)

lemma bitvecSetEnd_post:
  assumes p: "p = Bitvec s m 0 (aHash t)" "hash_ok s m t" "4000 < s" "s + 124 < 2 ^ 32"
    and i: "i < s" "Suc i \<notin> set t" "first_free t (BITVEC_HASH i) e" and m: "m < 124"
  shows "set_post p (\<lambda>k. k = i) ms
    (Done (SQLITE_OK, bitvecSetEnd p t (slot (BITVEC_HASH i) e) (Suc i), ms))"
proof -
  let ?t = "t[slot (BITVEC_HASH i) e := Suc i]"
  have ok: "hash_ok s (m + 1) ?t" and set: "set ?t - {0} = insert (Suc i) (set t - {0})"
    using hash_ok_insert [OF p(2), of "Suc i" e] i m by simp_all
  have mem: "Suc j \<in> set ?t \<longleftrightarrow> j = i \<or> Suc j \<in> set t" for j using set by auto
  show ?thesis
    using p ok i by (intro set_postI) (auto simp: bitvecSetEnd_def mem_table mem)
qed

lemma bitvecRehash_post:
  assumes IH: "\<And>q j ms. bitvec_ok q \<Longrightarrow> j < iSize q \<Longrightarrow> iSize q + 124 < 2 ^ 32 \<Longrightarrow> bv_need q \<le> n \<Longrightarrow>
      set_post q (\<lambda>k. k = j) ms (bitvecSetLoop n q j ms)"
    and p: "p = Bitvec s m 0 (aHash t)" "hash_ok s m t" "4000 < s" "s + 124 < 2 ^ 32"
    and i: "i < s" "Suc i \<notin> set t" "first_free t (BITVEC_HASH i) e"
    and m: "62 \<le> m \<or> m < 124" and n: "2 * bv_level s \<le> n"
  shows "set_post p (\<lambda>k. k = i) ms
    (bitvecRehash (\<lambda>p i ms. bitvecSetLoop n p (u32_wrap (i + 2 ^ 32 - 1)) ms)
       p t (slot (BITVEC_HASH i) e) (Suc i) ms)"
    (is "set_post p ?new ms (bitvecRehash ?rec p t ?h (Suc i) ms)")
proof (cases "62 \<le> m")
  case False
  then have "bitvecRehash ?rec p t ?h (Suc i) ms = Done (SQLITE_OK, bitvecSetEnd p t ?h (Suc i), ms)"
    by (simp add: bitvecRehash_def p(1) bitvec_sizes)
  with bitvecSetEnd_post [OF p i] m False show ?thesis by simp
next
  case True
  show ?thesis
  proof (cases "alloc ms")
    case (Pair b ms1)
    show ?thesis
    proof (cases b)
      case False
      with Pair True have "bitvecRehash ?rec p t ?h (Suc i) ms = Done (SQLITE_NOMEM, p, ms1)"
        by (simp add: bitvecRehash_def p(1) bitvec_sizes)
      moreover have "\<not> False \<notin> set ms" using alloc_all Pair False by blast
      ultimately show ?thesis using p set_post_same by simp
    next
      case b: True
      let ?d = "(s + 124) div 125"
      let ?p1 = "Bitvec s m ?d (apSub (replicate 125 None))"
      have d: "0 < ?d" using bin_less(1) [OF p(3) refl i(1)] .
      have p1: "bitvec_ok ?p1" "bv_need ?p1 \<le> n" "iSize ?p1 + 124 < 2 ^ 32" "\<And>j. j < s \<Longrightarrow> \<not> bv_mem ?p1 j"
        using p(3,4) n d mem_fresh_tree by (auto simp: bitvec_ok_tree bv_need_def)
      have pred: "?rec q v ms = bitvecSetLoop n q (v - 1) ms" if "0 < v" "v \<le> s" for q v ms
        using wrap_pred [of v] that p(4) by simp
      have run: "bitvecRehash ?rec p t ?h (Suc i) ms =
          exec_bind (bitvecSetLoop n ?p1 i ms1) (\<lambda>(rc, p2, ms2). bitvecSetAll ?rec rc p2 t ms2)"
        using True b Pair p(3,4) d pred [of "Suc i" ?p1 ms1] i(1)
        by (simp add: bitvecRehash_def p(1) bitvec_sizes zeroed_def Let_def add.commute [of 124 s])
      have "set_post ?p1 ?new ms1 (bitvecSetLoop n ?p1 i ms1)"
        using IH [OF p1(1) _ p1(3,2)] i(1) by simp
      then obtain rc2 p2 ms2 where r: "bitvecSetLoop n ?p1 i ms1 = Done (rc2, p2, ms2)"
          "bitvec_ok p2" "iSize p2 = iSize ?p1" "iDivisor ?p1 \<noteq> 0 \<longrightarrow> iDivisor p2 \<noteq> 0"
          "rc2 = SQLITE_OK \<or> rc2 = SQLITE_NOMEM"
          "\<forall>j < iSize ?p1. bv_mem p2 j \<longrightarrow> j = i \<or> bv_mem ?p1 j"
          "rc2 = SQLITE_OK \<longrightarrow> (\<forall>j < iSize ?p1. j = i \<or> bv_mem ?p1 j \<longrightarrow> bv_mem p2 j)"
          "False \<notin> set ms1 \<longrightarrow> rc2 = SQLITE_OK \<and> False \<notin> set ms2"
        by (rule set_postE) (rule that)
      have 2: "iSize p2 = s" "iDivisor p2 \<noteq> 0" "\<forall>j < s. bv_mem p2 j \<longrightarrow> j = i"
          "rc2 = SQLITE_OK \<longrightarrow> bv_mem p2 i"
      proof -
        have s: "iSize ?p1 = s" and dv: "iDivisor ?p1 \<noteq> 0" using d by (simp_all only: bitvec.sel)
        show "iSize p2 = s" using r(3) s by (rule trans)
        show "iDivisor p2 \<noteq> 0" using r(4) dv by blast
        show "\<forall>j < s. bv_mem p2 j \<longrightarrow> j = i" using r(6) p1(4) unfolding s by blast
        show "rc2 = SQLITE_OK \<longrightarrow> bv_mem p2 i" using r(7) i(1) unfolding s by blast
      qed
      have rec: "set_post q (\<lambda>j. Suc j = v) ms (?rec q v ms)"
        if q: "bitvec_ok q" "iSize q = s" "iDivisor q \<noteq> 0" "0 < v" "v \<le> s" for q v ms
      proof -
        have "set_post q (\<lambda>k. k = v - 1) ms (bitvecSetLoop n q (v - 1) ms)"
          using q p(3,4) n by (intro IH) (auto simp: bv_need_def)
        moreover have "(\<lambda>k. k = v - 1) = (\<lambda>j. Suc j = v)" using q(4) by auto
        ultimately show ?thesis using pred q by simp
      qed
      have range: "v \<le> s" if "v \<in> set t" for v
        using that hash_okD(1,4) [OF p(2)] by (metis in_set_conv_nth le0)
      obtain rc p' ms' where 3: "bitvecSetAll ?rec rc2 p2 t ms2 = Done (rc, p', ms')"
          "bitvec_ok p'" "iSize p' = s" "rc = SQLITE_OK \<or> rc = SQLITE_NOMEM"
          "\<forall>j < s. bv_mem p' j \<longrightarrow> Suc j \<in> set t \<or> bv_mem p2 j"
          "rc = SQLITE_OK \<longrightarrow> rc2 = SQLITE_OK \<and>
            (\<forall>j < s. Suc j \<in> set t \<or> bv_mem p2 j \<longrightarrow> bv_mem p' j)"
          "False \<notin> set ms2 \<longrightarrow> rc = rc2 \<and> False \<notin> set ms'"
        using bitvecSetAll_post [where ms = ms2, OF rec r(2) 2(1,2) range r(5)] by blast
      have ms1: "False \<notin> set ms \<Longrightarrow> False \<notin> set ms1" using alloc_all Pair by blast
      have sz: "iSize p = s" "iDivisor p = 0" by (simp_all only: p(1) bitvec.sel)
      have mem: "bv_mem p j \<longleftrightarrow> Suc j \<in> set t" if "j < s" for j
        using mem_table [OF p(3,2) that] p(4) unfolding p(1) by linarith
      have "set_post p ?new ms (Done (rc, p', ms'))"
      proof (rule set_postI, unfold sz)
        show "bitvec_ok p'" "iSize p' = s" "rc = SQLITE_OK \<or> rc = SQLITE_NOMEM" by fact+
        show "j = i \<or> bv_mem p j" if "j < s" "bv_mem p' j" for j
          using 3(5) 2(3) mem [OF that(1)] that by blast
        show "bv_mem p' j" if "rc = SQLITE_OK" "j < s" "j = i \<or> bv_mem p j" for j
          using 3(6) 2(4) mem [OF that(2)] that by blast
        show "rc = SQLITE_OK \<and> False \<notin> set ms'" if "False \<notin> set ms"
          using ms1 [OF that] r(8) 3(7) by blast
      qed simp
      then show ?thesis by (simp only: run r(1) exec_bind.simps prod.case 3(1))
    qed
  qed
qed

lemma bitvecSetLeaf_post:
  assumes IH: "\<And>q j ms. bitvec_ok q \<Longrightarrow> j < iSize q \<Longrightarrow> iSize q + 124 < 2 ^ 32 \<Longrightarrow> bv_need q \<le> n \<Longrightarrow>
      set_post q (\<lambda>k. k = j) ms (bitvecSetLoop n q j ms)"
    and p: "bitvec_ok p" "iDivisor p = 0" "iSize p + 124 < 2 ^ 32"
    and i: "i < iSize p" and n: "2 * bv_level (iSize p) \<le> n"
  shows "set_post p (\<lambda>k. k = i) ms
    (bitvecSetLeaf (\<lambda>p i ms. bitvecSetLoop n p (u32_wrap (i + 2 ^ 32 - 1)) ms) p i ms)"
    (is "set_post p ?new ms (bitvecSetLeaf ?rec p i ms)")
  using p(1)
proof cases
  case (bitmap_ok s bm m)
  have k: "i div 8 < 500" using i bitmap_ok by (simp add: byte_index)
  let ?bm = "bm[i div 8 := bm ! (i div 8) OR push_bit (i mod 8) 1]"
  have "bitvecSetLeaf ?rec p i ms = Done (SQLITE_OK, Bitvec s m 0 (aBitmap ?bm), ms)"
    using bitmap_ok k by (simp add: bitvecSetLeaf_def bitvec_sizes Let_def)
  moreover have "bv_mem (Bitvec s m 0 (aBitmap ?bm)) j \<longleftrightarrow> j = i \<or> bv_mem p j" if "j < s" for j
    using bitmap_ok k that bitmap_set_bit(1) [of i bm j] byte_index [OF that]
    by (simp add: mem_bitmap)
  ultimately show ?thesis
    using bitmap_ok by (simp only:) (rule set_postI, auto)
next
  case (table_ok s m t)
  obtain e where e: "first_free t (BITVEC_HASH i) e"
    using hash_ok_free [OF table_ok(3)] by (metis BITVEC_HASH_less)
  have s: "s < 2 ^ 32" and i1: "u32_wrap (i + 1) = Suc i" using p(3) i table_ok by simp_all
  note rehash = bitvecRehash_post [OF IH table_ok(1,3,2)]
  have member: "(\<exists>j<e. t ! slot (BITVEC_HASH i) j = Suc i) \<longleftrightarrow> Suc i \<in> set t"
    using hash_ok_member [OF table_ok(3), of "Suc i" e] e by simp
  show ?thesis
  proof (cases "t ! BITVEC_HASH i = 0")
    case True
    with e have e0: "e = 0" by (auto simp: first_free_def intro: ccontr)
    with member have new: "Suc i \<notin> set t" by simp
    show ?thesis
    proof (cases "m < 124")
      case True
      with new \<open>t ! BITVEC_HASH i = 0\<close> e e0 i i1 table_ok p(3) show ?thesis
        using bitvecSetEnd_post [OF table_ok(1,3,2), of i e ms]
        by (simp add: bitvecSetLeaf_def bitvec_sizes Let_def)
    next
      case False
      with new \<open>t ! BITVEC_HASH i = 0\<close> e e0 i i1 table_ok p(3) n show ?thesis
        using rehash [of i e ms]
        by (simp add: bitvecSetLeaf_def bitvec_sizes Let_def)
    qed
  next
    case False
    with e have "0 < e" "e \<le> 125" by (auto simp: first_free_def intro: ccontr)
    then have probe: "bitvecProbe 125 t (Suc i) (BITVEC_HASH i) =
        Done (if Suc i \<in> set t then None else Some (slot (BITVEC_HASH i) e))"
      using bitvecProbe_walk [OF e, of 125 "Suc i"] member by simp
    then have leaf: "bitvecSetLeaf ?rec p i ms =
        (if Suc i \<in> set t then Done (SQLITE_OK, p, ms)
         else bitvecRehash ?rec p t (slot (BITVEC_HASH i) e) (Suc i) ms)"
      using False i1 table_ok
      by (simp add: bitvecSetLeaf_def bitvec_sizes Let_def del: bitvecProbe.simps)
    show ?thesis
    proof (cases "Suc i \<in> set t")
      case True
      with leaf table_ok i s show ?thesis
        by (simp only: if_True) (rule set_postI, auto simp: mem_table)
    next
      case new: False
      have "62 \<le> m \<or> m < 124" by linarith
      with new leaf rehash [of i e ms] e i table_ok p(3) n show ?thesis by simp
    qed
  qed
next
  case (tree_ok s d l m)
  with p(2) bin_less(1) [of s d i] i show ?thesis by simp
qed

lemma put_sub_post:
  assumes p: "p = Bitvec s m d (apSub l)" "bitvec_ok p" "4000 < s" "i < s"
    and q: "iSize q = d" "l ! (i div d) = Some q \<or>
      (l ! (i div d) = None \<and> (\<forall>j<d. \<not> bv_mem q j))"
    and r: "set_post q (\<lambda>k. k = i mod d) ms1 r" "False \<notin> set ms \<Longrightarrow> False \<notin> set ms1"
  shows "set_post p (\<lambda>k. k = i) ms (put_sub p l (i div d) r)"
proof -
  have d: "d = (s + 124) div 125" and len: "length l = 125"
    and l: "\<And>q. Some q \<in> set l \<Longrightarrow> bitvec_ok q \<and> iSize q = d"
    using p(2) by (auto simp: p(1) bitvec_ok_tree)
  note bin = bin_less [OF p(3) d p(4)]
  from r(1) obtain rc q' ms' where 1: "r = Done (rc, q', ms')" "bitvec_ok q'" "iSize q' = iSize q"
      "iDivisor q \<noteq> 0 \<longrightarrow> iDivisor q' \<noteq> 0" "rc = SQLITE_OK \<or> rc = SQLITE_NOMEM"
      "\<forall>j < iSize q. bv_mem q' j \<longrightarrow> j = i mod d \<or> bv_mem q j"
      "rc = SQLITE_OK \<longrightarrow> (\<forall>j < iSize q. j = i mod d \<or> bv_mem q j \<longrightarrow> bv_mem q' j)"
      "False \<notin> set ms1 \<longrightarrow> rc = SQLITE_OK \<and> False \<notin> set ms'"
    by (rule set_postE) (rule that)
  let ?l = "l[i div d := Some q']"
  let ?p = "Bitvec s m d (apSub ?l)"
  have run: "put_sub p l (i div d) r = Done (rc, ?p, ms')"
    by (simp add: put_sub_def 1(1) p(1))
  have ok: "bitvec_ok ?p"
    using p(3) d len l 1(2,3) q(1) bin(2)
    by (auto simp: bitvec_ok_tree dest!: set_update_subset_insert [THEN subsetD])
  have old: "bv_mem p j \<longleftrightarrow> (\<exists>q. l ! (j div d) = Some q \<and> bv_mem q (j mod d))" if "j < s" for j
    unfolding p(1) by (rule mem_tree [OF p(3) d len that])
  have new: "bv_mem ?p j \<longleftrightarrow> (\<exists>q. ?l ! (j div d) = Some q \<and> bv_mem q (j mod d))" if "j < s" for j
    by (rule mem_tree [OF p(3) d _ that]) (simp add: len)
  have other: "bv_mem ?p j \<longleftrightarrow> bv_mem p j" if "j < s" "j div d \<noteq> i div d" for j
    using old [OF that(1)] new [OF that(1)] that(2) by simp
  have this_sub: "bv_mem ?p j \<longleftrightarrow> bv_mem q' (j mod d)" "bv_mem p j \<longleftrightarrow> bv_mem q (j mod d)"
    if "j < s" "j div d = i div d" for j
    using old [OF that(1)] new [OF that(1)] that(2) q bin len by auto
  have eq: "j mod d = i mod d \<Longrightarrow> j div d = i div d \<Longrightarrow> j = i" for j
    by (metis div_mult_mod_eq)
  show ?thesis
    unfolding run
  proof (rule set_postI, unfold p(1) bitvec.sel, fold p(1))
    show "bitvec_ok ?p" by (rule ok)
    show "rc = SQLITE_OK \<or> rc = SQLITE_NOMEM" by (rule 1(5))
    show "j = i \<or> bv_mem p j" if "j < s" "bv_mem ?p j" for j
    proof (cases "j div d = i div d")
      case True
      with that this_sub 1(6) q(1) bin(1) eq show ?thesis by (metis mod_less_divisor)
    next
      case False
      with that other show ?thesis by blast
    qed
    show "bv_mem ?p j" if "rc = SQLITE_OK" "j < s" "j = i \<or> bv_mem p j" for j
    proof (cases "j div d = i div d")
      case True
      with that this_sub 1(7) q(1) bin(1) show ?thesis by (metis mod_less_divisor)
    next
      case False
      with that other show ?thesis by blast
    qed
    show "rc = SQLITE_OK \<and> False \<notin> set ms'" if "False \<notin> set ms"
      using r(2) [OF that] 1(8) by blast
  qed auto
qed

lemma bv_need_le: "bv_need q \<le> 2 * bv_level (iSize q) + 1"
  by (simp add: bv_need_def)

lemma bv_level_0 [simp]: "s \<le> 4000 \<Longrightarrow> bv_level s = 0"
  by (subst bv_level.simps) simp

lemma bv_level_Suc: "4000 < s \<Longrightarrow> bv_level s = Suc (bv_level ((s + 124) div 125))"
  by (subst bv_level.simps) simp

lemma bitvecSetLoop_post:
  assumes "bitvec_ok p" and "i < iSize p" and "iSize p + 124 < 2 ^ 32" and "bv_need p \<le> n"
  shows "set_post p (\<lambda>k. k = i) ms (bitvecSetLoop n p i ms)"
  using assms
proof (induction n arbitrary: p i ms)
  case 0
  then have "bv_level (iSize p) = 0" "4000 < iSize p" by (auto simp: bv_need_def split: if_splits)
  then show ?case by (simp add: bv_level_Suc)
next
  case (Suc n)
  show ?case
  proof (cases "iDivisor p = 0")
    case True
    have "2 * bv_level (iSize p) \<le> n"
      using Suc.prems(4) True by (cases "iSize p \<le> 4000") (simp_all add: bv_need_def)
    from bitvecSetLeaf_post [where n = n and ms = ms, OF Suc.IH Suc.prems(1) True Suc.prems(3,2) this]
      True show ?thesis by (subst bitvecSetLoop.simps) simp
  next
    case False
    from Suc.prems(1) False obtain s d l m where p: "p = Bitvec s m d (apSub l)" "4000 < s"
        "d = (s + 124) div 125" "length l = 125"
        "\<And>q. Some q \<in> set l \<Longrightarrow> bitvec_ok q \<and> iSize q = d"
      by cases auto
    have i: "i < s" using Suc.prems(2) p(1) by simp
    note bin = bin_less [OF p(2,3) i]
    have need: "bv_need q \<le> n" if "iSize q = d" for q
      using bv_need_le [of q] Suc.prems(4) False that p(2,3)
      by (simp add: bv_need_def p(1) bv_level_Suc)
    have small: "d + 124 < 2 ^ 32" using Suc.prems(3) bin(4) p(1) by simp
    have IH: "set_post q (\<lambda>k. k = i mod d) ms1 (bitvecSetLoop n q (i mod d) ms1)"
      if "bitvec_ok q" "iSize q = d" for q ms1
      using that bin(3) small need by (intro Suc.IH) simp_all
    have step: "bitvecSetLoop (Suc n) p i ms =
      (case l ! (i div d) of
         None \<Rightarrow> (case sqlite3BitvecCreate d ms of
                    (None, ms') \<Rightarrow> Done (SQLITE_NOMEM, p, ms')
                  | (Some q, ms') \<Rightarrow> put_sub p l (i div d) (bitvecSetLoop n q (i mod d) ms'))
       | Some q \<Rightarrow> put_sub p l (i div d) (bitvecSetLoop n q (i mod d) ms))"
      using p(2,4) bin(1,2) by (subst bitvecSetLoop.simps) (simp add: p(1) bitvec_sizes Let_def split: option.split)
    show ?thesis
    proof (cases "l ! (i div d)")
      case (Some q)
      then have q: "bitvec_ok q" "iSize q = d" using p(4,5) bin(2) nth_mem by metis+
      with Some have "set_post p (\<lambda>k. k = i) ms (put_sub p l (i div d) (bitvecSetLoop n q (i mod d) ms))"
        by (intro put_sub_post [OF p(1) Suc.prems(1) p(2) i _ _ IH]) auto
      with Some step show ?thesis by simp
    next
      case None
      show ?thesis
      proof (cases "sqlite3BitvecCreate d ms")
        case (Pair oq ms1)
        show ?thesis
        proof (cases oq)
          case None
          with Pair have "\<not> False \<notin> set ms" using create_None by blast
          with None Pair \<open>l ! (i div d) = None\<close> step Suc.prems(1) show ?thesis
            by (simp add: set_post_same)
        next
          case (Some q)
          note q = create_ok [OF Pair [unfolded Some]]
          have "set_post p (\<lambda>k. k = i) ms (put_sub p l (i div d) (bitvecSetLoop n q (i mod d) ms1))"
          proof (rule put_sub_post [OF p(1) Suc.prems(1) p(2) i q(2) _ IH [OF q(1,2)]])
            show "l ! (i div d) = Some q \<or> l ! (i div d) = None \<and> (\<forall>j<d. \<not> bv_mem q j)"
              using None q(3) small by simp
            show "False \<notin> set ms \<Longrightarrow> False \<notin> set ms1"
              using create_Some Pair Some by blast
          qed
          with None Some Pair step show ?thesis by simp
        qed
      qed
    qed
  qed
qed

lemma bv_level_mono: "s \<le> s' \<Longrightarrow> bv_level s \<le> bv_level s'"
proof (induction s arbitrary: s' rule: bv_level.induct)
  case (1 s)
  show ?case
  proof (cases "s \<le> 4000")
    case True
    then show ?thesis by simp
  next
    case False
    with "1.prems" have "(s + 124) div 125 \<le> (s' + 124) div 125" by (simp add: div_le_mono)
    from "1.IH" [OF False this] False "1.prems" show ?thesis by (simp add: bv_level_Suc)
  qed
qed

lemma bv_need_depth: "iSize p < 2 ^ 32 \<Longrightarrow> bv_need p \<le> BITVEC_DEPTH"
proof -
  assume "iSize p < 2 ^ 32"
  then have "bv_level (iSize p) \<le> bv_level (2 ^ 32)" by (intro bv_level_mono) simp
  also have "\<dots> = 3" by (simp add: bv_level_Suc)
  finally show ?thesis using bv_need_le [of p] by (simp add: BITVEC_DEPTH_def)
qed

subsection \<open>Clearing a bit is removal\<close>

lemma distinct_nonzero:
  "(\<And>k k'. k < length t \<Longrightarrow> k' < length t \<Longrightarrow> t ! k \<noteq> (0::nat) \<Longrightarrow> t ! k = t ! k' \<Longrightarrow> k = k') \<Longrightarrow>
     distinct (filter (\<lambda>v. v \<noteq> 0) t)"
proof (induction t)
  case Nil
  then show ?case by simp
next
  case (Cons v t)
  have "distinct (filter (\<lambda>v. v \<noteq> 0) t)"
    by (rule Cons.IH) (use Cons.prems [of "Suc _" "Suc _"] in auto)
  moreover have "v \<notin> set t" if "v \<noteq> 0"
  proof
    assume "v \<in> set t"
    then obtain k where "k < length t" "t ! k = v" by (auto simp: in_set_conv_nth)
    with Cons.prems [of 0 "Suc k"] that show False by simp
  qed
  ultimately show ?case by simp
qed

lemma bitvecReinsert_post:
  assumes "distinct (filter (\<lambda>v. v \<noteq> 0) vs)" "\<forall>v \<in> set vs. v \<le> s" "set vs \<inter> set t \<subseteq> {0}"
    "hash_ok s n t" "n + length (filter (\<lambda>v. v \<noteq> 0 \<and> v \<noteq> i1) vs) \<le> 124"
  shows "\<exists>n' t'. bitvecReinsert vs i1 n t = Done (n', t') \<and> hash_ok s n' t' \<and>
    set t' - {0} = (set t - {0}) \<union> (set vs - {0, i1})"
  using assms
proof (induction vs arbitrary: n t)
  case Nil
  then show ?case by simp
next
  case (Cons v vs)
  show ?case
  proof (cases "v \<noteq> 0 \<and> v \<noteq> i1")
    case False
    then have "bitvecReinsert (v # vs) i1 n t = bitvecReinsert vs i1 n t"
      and "set (v # vs) - {0, i1} = set vs - {0, i1}"
      by (auto simp del: bitvecFree.simps)
    moreover have "distinct (filter (\<lambda>v. v \<noteq> 0) vs)" "\<forall>v \<in> set vs. v \<le> s" "set vs \<inter> set t \<subseteq> {0}"
      "n + length (filter (\<lambda>v. v \<noteq> 0 \<and> v \<noteq> i1) vs) \<le> 124"
      using Cons.prems False by (auto split: if_splits)
    ultimately show ?thesis using Cons.IH Cons.prems(4) by simp
  next
    case True
    obtain d where d: "first_free t (BITVEC_HASH (v - 1)) d"
      using hash_ok_free [OF Cons.prems(4)] by (metis BITVEC_HASH_less)
    have "d < 126" using d by (simp add: first_free_def)
    then have free: "bitvecFree (Suc BITVEC_NINT) t (BITVEC_HASH (v - 1)) =
        Done (slot (BITVEC_HASH (v - 1)) d)"
      using bitvecFree_walk [OF d] by (simp add: bitvec_sizes del: bitvecFree.simps)
    let ?t = "t[slot (BITVEC_HASH (v - 1)) d := v]"
    have v: "v \<noteq> 0" "v \<le> s" "v \<notin> set t" "n < 124" using True Cons.prems by auto
    note ins = hash_ok_insert [OF Cons.prems(4) d v]
    have "set vs \<inter> set ?t \<subseteq> {0}"
    proof
      fix x assume x: "x \<in> set vs \<inter> set ?t"
      show "x \<in> {0}"
      proof (rule ccontr)
        assume "x \<notin> {0}"
        with x ins(2) have "x = v \<or> x \<in> set t" by blast
        with x \<open>x \<notin> {0}\<close> Cons.prems(1,3) show False by auto
      qed
    qed
    then obtain n' t' where "bitvecReinsert vs i1 (n + 1) ?t = Done (n', t')" "hash_ok s n' t'"
        "set t' - {0} = (set ?t - {0}) \<union> (set vs - {0, i1})"
      using Cons.IH [of ?t "n + 1"] Cons.prems(1,2,5) ins(1) True by auto
    with free True ins(2) show ?thesis by (auto simp del: bitvecFree.simps)
  qed
qed

lemma bitvecReinsert_all:
  assumes "hash_ok s n t"
  shows "\<exists>n' t'. bitvecReinsert t i1 0 (replicate 125 0) = Done (n', t') \<and> hash_ok s n' t' \<and>
    set t' - {0} = set t - {0, i1}"
proof -
  note ok = hash_okD [OF assms]
  have "distinct (filter (\<lambda>v. v \<noteq> 0) t)" using ok(1,6) by (intro distinct_nonzero) auto
  moreover have "\<forall>v \<in> set t. v \<le> s" using ok(1,4) by (metis in_set_conv_nth le0)
  moreover have "length (filter (\<lambda>v. v \<noteq> 0 \<and> v \<noteq> i1) t) \<le> 124"
  proof -
    have "length (filter (\<lambda>v. v \<noteq> 0 \<and> v \<noteq> i1) t) \<le> length (filter (\<lambda>v. v \<noteq> 0) t)"
      by (simp add: length_filter_conv_card) (intro card_mono, auto)
    also have "\<dots> = n" using ok(1,2) by (simp add: length_filter_conv_card)
    finally show ?thesis using ok(3) by simp
  qed
  ultimately show ?thesis
    using bitvecReinsert_post [of t s "replicate 125 0" 0 i1] hash_ok_empty by auto
qed

lemma bitvecClearLoop_post:
  assumes "bitvec_ok p" and "i < iSize p" and "iSize p < 2 ^ 32"
  shows "\<exists>p'. bitvecClearLoop p i = Done p' \<and> bitvec_ok p' \<and> iSize p' = iSize p \<and>
    (\<forall>j < iSize p. bv_mem p' j \<longleftrightarrow> j \<noteq> i \<and> bv_mem p j)"
  using assms
proof (induction p arbitrary: i rule: bitvec_ok.induct)
  case (bitmap_ok s bm n)
  let ?bm = "bm[i div 8 := bm ! (i div 8) AND NOT (push_bit (i mod 8) 1)]"
  have k: "i div 8 < 500" using bitmap_ok by (simp add: byte_index)
  have "bitvecClearLoop (Bitvec s n 0 (aBitmap bm)) i = Done (Bitvec s n 0 (aBitmap ?bm))"
    using bitmap_ok k
    by (subst bitvecClearLoop.simps) (simp add: bitvecClearLeaf_def bitvec_sizes Let_def)
  moreover have "bv_mem (Bitvec s n 0 (aBitmap ?bm)) j \<longleftrightarrow>
      j \<noteq> i \<and> bv_mem (Bitvec s n 0 (aBitmap bm)) j" if "j < s" for j
    using bitmap_ok k that bitmap_set_bit(2) [of i bm j] byte_index [OF that]
    by (simp add: mem_bitmap)
  ultimately show ?case using bitmap_ok by simp
next
  case (table_ok s n t)
  obtain n' t' where t': "bitvecReinsert t (Suc i) 0 (replicate 125 0) = Done (n', t')"
      "hash_ok s n' t'" "set t' - {0} = set t - {0, Suc i}"
    using bitvecReinsert_all [OF table_ok(2)] by blast
  have mem: "Suc j \<in> set t' \<longleftrightarrow> j \<noteq> i \<and> Suc j \<in> set t" for j using t'(3) by auto
  have "bitvecClearLoop (Bitvec s n 0 (aHash t)) i = Done (Bitvec s n' 0 (aHash t'))"
    using table_ok t'(1)
    by (subst bitvecClearLoop.simps) (simp add: bitvecClearLeaf_def bitvec_sizes)
  with table_ok t'(2) mem show ?case by (auto simp: mem_table)
next
  case (tree_ok s d l n)
  let ?p = "Bitvec s n d (apSub l)"
  have i: "i < s" using tree_ok.prems by simp
  note bin = bin_less [OF tree_ok(1,2) i]
  show ?case
  proof (cases "l ! (i div d)")
    case None
    then have "bitvecClearLoop ?p i = Done ?p"
      using bin tree_ok(3) by (subst bitvecClearLoop.simps) (simp add: Let_def)
    moreover have "bitvec_ok ?p" using tree_ok by (auto simp: bitvec_ok_tree)
    moreover have "\<not> bv_mem ?p i" using None by (simp add: mem_tree [OF tree_ok(1-3) i])
    ultimately show ?thesis by auto
  next
    case (Some q)
    then have "Some q \<in> set l" using bin(2) tree_ok(3) nth_mem by metis
    with tree_ok(4) bin(3,4) tree_ok.prems(2) obtain q' where q': "bitvecClearLoop q (i mod d) = Done q'"
        "bitvec_ok q'" "iSize q' = d" "\<forall>j<d. bv_mem q' j \<longleftrightarrow> j \<noteq> i mod d \<and> bv_mem q j"
      by force
    let ?l = "l[i div d := Some q']"
    have "bitvecClearLoop ?p i = Done (Bitvec s n d (apSub ?l))"
      using Some bin tree_ok(3) q'(1)
      by (subst bitvecClearLoop.simps) (simp add: Let_def)
    moreover have "bitvec_ok (Bitvec s n d (apSub ?l))"
      using tree_ok(1-4) q'(2,3)
      by (auto simp: bitvec_ok_tree dest!: set_update_subset_insert [THEN subsetD])
    moreover have "bv_mem (Bitvec s n d (apSub ?l)) j \<longleftrightarrow> j \<noteq> i \<and> bv_mem ?p j" if j: "j < s" for j
    proof -
      have new: "bv_mem (Bitvec s n d (apSub ?l)) j \<longleftrightarrow>
          (\<exists>q. ?l ! (j div d) = Some q \<and> bv_mem q (j mod d))"
        by (rule mem_tree [OF tree_ok(1,2) _ j]) (simp add: tree_ok(3))
      have eq: "j = i \<longleftrightarrow> j div d = i div d \<and> j mod d = i mod d"
        by (metis div_mult_mod_eq)
      have "j mod d < d" using bin(1) by simp
      with q'(4) have sub: "bv_mem q' (j mod d) \<longleftrightarrow> j mod d \<noteq> i mod d \<and> bv_mem q (j mod d)"
        by blast
      show ?thesis
      proof (cases "j div d = i div d")
        case True
        then have "bv_mem (Bitvec s n d (apSub ?l)) j \<longleftrightarrow> bv_mem q' (j mod d)"
          using bin(2) tree_ok(3) by (simp add: new)
        moreover have "bv_mem ?p j \<longleftrightarrow> bv_mem q (j mod d)"
          using Some True by (simp add: mem_tree [OF tree_ok(1-3) j])
        ultimately show ?thesis using sub eq True by blast
      next
        case False
        then show ?thesis by (simp add: new mem_tree [OF tree_ok(1-3) j] eq)
      qed
    qed
    ultimately show ?thesis by auto
  qed
qed

subsection \<open>The interface\<close>

text \<open>
  A set of bits with numbers from 1 to \<^verbatim>\<open>range\<close>.  Setting may fail, clearing and testing may
  not.  \<^verbatim>\<open>run_ops\<close> runs a history of operations and stops at the first error, \<^verbatim>\<open>spec_ops\<close> is
  what the history means for a set.
\<close>

datatype bit_op = SetBit nat | ClearBit nat

fun op_bit :: "bit_op \<Rightarrow> nat" where
  "op_bit (SetBit i) = i"
| "op_bit (ClearBit i) = i"

fun spec_ops :: "bit_op list \<Rightarrow> nat set \<Rightarrow> nat set" where
  "spec_ops [] S = S"
| "spec_ops (SetBit i # ops) S = spec_ops ops (insert i S)"
| "spec_ops (ClearBit i # ops) S = spec_ops ops (S - {i})"

fun run_ops ::
  "('b \<Rightarrow> nat \<Rightarrow> bool list \<Rightarrow> (int \<times> 'b \<times> bool list) exec) \<Rightarrow> ('b \<Rightarrow> nat \<Rightarrow> 'b exec) \<Rightarrow>
    bit_op list \<Rightarrow> 'b \<Rightarrow> bool list \<Rightarrow> (int \<times> 'b \<times> bool list) exec"
where
  "run_ops st cl [] b ms = Done (SQLITE_OK, b, ms)"
| "run_ops st cl (SetBit i # ops) b ms =
     exec_bind (st b i ms)
       (\<lambda>(rc, b', ms'). if rc \<noteq> SQLITE_OK then Done (rc, b', ms') else run_ops st cl ops b' ms')"
| "run_ops st cl (ClearBit i # ops) b ms =
     exec_bind (cl b i) (\<lambda>b'. run_ops st cl ops b' ms)"

locale bitset =
  fixes good :: "'b \<Rightarrow> bool" and range :: "'b \<Rightarrow> nat" and elem :: "'b \<Rightarrow> nat \<Rightarrow> bool"
    and test :: "'b \<Rightarrow> nat \<Rightarrow> bool exec"
    and st :: "'b \<Rightarrow> nat \<Rightarrow> bool list \<Rightarrow> (int \<times> 'b \<times> bool list) exec"
    and cl :: "'b \<Rightarrow> nat \<Rightarrow> 'b exec"
  assumes test_law: "good b \<Longrightarrow> test b i = Done (i \<in> {1..range b} \<and> elem b i)"
    and set_law: "good b \<Longrightarrow> i \<in> {1..range b} \<Longrightarrow>
      \<exists>rc b' ms'. st b i ms = Done (rc, b', ms') \<and> good b' \<and> range b' = range b \<and>
        (rc = SQLITE_OK \<or> rc = SQLITE_NOMEM) \<and>
        (\<forall>j \<in> {1..range b}. elem b' j \<longrightarrow> j = i \<or> elem b j) \<and>
        (rc = SQLITE_OK \<longrightarrow> (\<forall>j \<in> {1..range b}. elem b' j \<longleftrightarrow> j = i \<or> elem b j)) \<and>
        (False \<notin> set ms \<longrightarrow> rc = SQLITE_OK \<and> False \<notin> set ms')"
    and clear_law: "good b \<Longrightarrow> i \<in> {1..range b} \<Longrightarrow>
      \<exists>b'. cl b i = Done b' \<and> good b' \<and> range b' = range b \<and>
        (\<forall>j \<in> {1..range b}. elem b' j \<longleftrightarrow> j \<noteq> i \<and> elem b j)"
begin

lemma history:
  assumes "good b" and "\<forall>p \<in> set ops. op_bit p \<in> {1..range b}"
    and "\<forall>j \<in> {1..range b}. elem b j \<longleftrightarrow> j \<in> S"
  shows "\<exists>rc b' ms'. run_ops st cl ops b ms = Done (rc, b', ms') \<and> good b' \<and> range b' = range b \<and>
    (rc = SQLITE_OK \<longrightarrow> (\<forall>j \<in> {1..range b}. elem b' j \<longleftrightarrow> j \<in> spec_ops ops S)) \<and>
    (False \<notin> set ms \<longrightarrow> rc = SQLITE_OK)"
  using assms
proof (induction ops arbitrary: b ms S)
  case Nil
  then show ?case by simp
next
  case (Cons p ops)
  have i: "op_bit p \<in> {1..range b}" using Cons.prems(2) by simp
  show ?case
  proof (cases p)
    case (SetBit i)
    with set_law [OF Cons.prems(1) i, of ms] obtain rc b' ms' where
      s: "st b i ms = Done (rc, b', ms')" "good b'" "range b' = range b"
        "rc = SQLITE_OK \<longrightarrow> (\<forall>j \<in> {1..range b}. elem b' j \<longleftrightarrow> j = i \<or> elem b j)"
        "False \<notin> set ms \<longrightarrow> rc = SQLITE_OK \<and> False \<notin> set ms'"
      by auto
    show ?thesis
    proof (cases "rc = SQLITE_OK")
      case True
      with Cons.prems(3) s have "\<forall>j \<in> {1..range b'}. elem b' j \<longleftrightarrow> j \<in> insert i S" by auto
      with Cons.IH [OF s(2), of "insert i S" ms'] True Cons.prems(2) s SetBit show ?thesis by auto
    next
      case False
      with s SetBit show ?thesis by simp
    qed
  next
    case (ClearBit i)
    with clear_law [OF Cons.prems(1) i] obtain b' where
      c: "cl b i = Done b'" "good b'" "range b' = range b"
        "\<forall>j \<in> {1..range b}. elem b' j \<longleftrightarrow> j \<noteq> i \<and> elem b j"
      by auto
    then have "\<forall>j \<in> {1..range b'}. elem b' j \<longleftrightarrow> j \<in> S - {i}" using Cons.prems(3) by auto
    with Cons.IH [OF c(2), of "S - {i}" ms] Cons.prems(2) c ClearBit show ?thesis by auto
  qed
qed

end

subsection \<open>The two providers\<close>

text \<open>
  A bit vector behind its entry points (a non-NULL pointer), and the linear array with the
  macros \<^verbatim>\<open>SETBIT\<close>, \<^verbatim>\<open>CLEARBIT\<close> and \<^verbatim>\<open>TESTBIT\<close>.
\<close>

definition bv_good :: "bitvec \<Rightarrow> bool" where
  "bv_good p \<longleftrightarrow> bitvec_ok p \<and> iSize p + 124 < 2 ^ 32"

definition bv_elem :: "bitvec \<Rightarrow> nat \<Rightarrow> bool" where
  "bv_elem p i \<longleftrightarrow> bv_mem p (i - 1)"

definition bv_set ::
  "bitvec \<Rightarrow> nat \<Rightarrow> bool list \<Rightarrow> (int \<times> bitvec \<times> bool list) exec" where
  "bv_set p i ms = exec_bind (sqlite3BitvecSet (Some p) i ms)
     (\<lambda>(rc, p', ms'). case p' of None \<Rightarrow> Undefined | Some p' \<Rightarrow> Done (rc, p', ms'))"

definition bv_clear :: "bitvec \<Rightarrow> nat \<Rightarrow> bitvec exec" where
  "bv_clear p i = exec_bind (sqlite3BitvecClear (Some p) i)
     (\<lambda>p'. case p' of None \<Rightarrow> Undefined | Some p' \<Rightarrow> Done p')"

lemma bv_test_law: "bv_good p \<Longrightarrow> sqlite3BitvecTest (Some p) i = Done (i \<in> {1..iSize p} \<and> bv_elem p i)"
proof -
  assume p: "bv_good p"
  have "\<exists>b. bitvecTestLoop p (i - 1) = Done b" if "i \<in> {1..iSize p}"
    using bitvecTestLoop_total [of p "i - 1"] p that by (auto simp: bv_good_def)
  then show ?thesis by (auto simp: sqlite3BitvecTest_def bv_elem_def bv_mem_def)
qed

lemma bv_set_law:
  assumes "bv_good p" and "i \<in> {1..iSize p}"
  shows "\<exists>rc p' ms'. bv_set p i ms = Done (rc, p', ms') \<and> bv_good p' \<and> iSize p' = iSize p \<and>
    (rc = SQLITE_OK \<or> rc = SQLITE_NOMEM) \<and>
    (\<forall>j \<in> {1..iSize p}. bv_elem p' j \<longrightarrow> j = i \<or> bv_elem p j) \<and>
    (rc = SQLITE_OK \<longrightarrow> (\<forall>j \<in> {1..iSize p}. bv_elem p' j \<longleftrightarrow> j = i \<or> bv_elem p j)) \<and>
    (False \<notin> set ms \<longrightarrow> rc = SQLITE_OK \<and> False \<notin> set ms')"
proof -
  have p: "bitvec_ok p" "iSize p + 124 < 2 ^ 32" "i - 1 < iSize p" "0 < i" "i < 2 ^ 32"
    using assms by (auto simp: bv_good_def)
  have "set_post p (\<lambda>k. k = i - 1) ms (bitvecSetLoop BITVEC_DEPTH p (i - 1) ms)"
    using p by (intro bitvecSetLoop_post bv_need_depth) simp_all
  then obtain rc p' ms' where s: "bitvecSetLoop BITVEC_DEPTH p (i - 1) ms = Done (rc, p', ms')"
      "bitvec_ok p'" "iSize p' = iSize p" "iDivisor p \<noteq> 0 \<longrightarrow> iDivisor p' \<noteq> 0"
      "rc = SQLITE_OK \<or> rc = SQLITE_NOMEM"
      "\<forall>j < iSize p. bv_mem p' j \<longrightarrow> j = i - 1 \<or> bv_mem p j"
      "rc = SQLITE_OK \<longrightarrow> (\<forall>j < iSize p. j = i - 1 \<or> bv_mem p j \<longrightarrow> bv_mem p' j)"
      "False \<notin> set ms \<longrightarrow> rc = SQLITE_OK \<and> False \<notin> set ms'"
    by (rule set_postE) (rule that)
  have "bv_set p i ms = Done (rc, p', ms')"
    using wrap_pred [OF p(4,5)] s(1) by (simp add: bv_set_def sqlite3BitvecSet_def)
  moreover have "bv_good p'" using s(2,3) p(2) by (simp add: bv_good_def)
  moreover have idx: "j - 1 < iSize p" "j - 1 = i - 1 \<longleftrightarrow> j = i" if "j \<in> {1..iSize p}" for j
    using that p(4) by auto
  have "\<forall>j \<in> {1..iSize p}. bv_elem p' j \<longrightarrow> j = i \<or> bv_elem p j"
    unfolding bv_elem_def using s(6) idx by blast
  moreover have "rc = SQLITE_OK \<longrightarrow> (\<forall>j \<in> {1..iSize p}. j = i \<or> bv_elem p j \<longrightarrow> bv_elem p' j)"
    unfolding bv_elem_def using s(7) idx by blast
  ultimately show ?thesis using s(3,5,8) by (intro exI) blast
qed

lemma bv_clear_law:
  assumes "bv_good p" and "i \<in> {1..iSize p}"
  shows "\<exists>p'. bv_clear p i = Done p' \<and> bv_good p' \<and> iSize p' = iSize p \<and>
    (\<forall>j \<in> {1..iSize p}. bv_elem p' j \<longleftrightarrow> j \<noteq> i \<and> bv_elem p j)"
proof -
  have p: "bitvec_ok p" "iSize p + 124 < 2 ^ 32" "i - 1 < iSize p" "0 < i" "i < 2 ^ 32"
    using assms by (auto simp: bv_good_def)
  then obtain p' where c: "bitvecClearLoop p (i - 1) = Done p'" "bitvec_ok p'" "iSize p' = iSize p"
      "\<forall>j < iSize p. bv_mem p' j \<longleftrightarrow> j \<noteq> i - 1 \<and> bv_mem p j"
    using bitvecClearLoop_post [of p "i - 1"] by auto
  have "bv_clear p i = Done p'"
    using wrap_pred [OF p(4,5)] c(1) by (simp add: bv_clear_def sqlite3BitvecClear_def)
  moreover have "bv_good p'" using c(2,3) p(2) by (simp add: bv_good_def)
  moreover have "j - 1 < iSize p" "j - 1 = i - 1 \<longleftrightarrow> j = i" if "j \<in> {1..iSize p}" for j
    using that p(4) by auto
  ultimately show ?thesis using c(3,4) unfolding bv_elem_def by simp
qed

interpretation bv: bitset bv_good iSize bv_elem "\<lambda>p. sqlite3BitvecTest (Some p)" bv_set bv_clear
  by unfold_locales (rule bv_test_law bv_set_law bv_clear_law; assumption)+

definition SETBIT :: "u8 list \<Rightarrow> nat \<Rightarrow> u8 list exec" where
  "SETBIT V i = (if drop_bit 3 i < length V
     then Done (V[drop_bit 3 i := V ! drop_bit 3 i OR push_bit (i AND 7) 1]) else Undefined)"

definition CLEARBIT :: "u8 list \<Rightarrow> nat \<Rightarrow> u8 list exec" where
  "CLEARBIT V i = (if drop_bit 3 i < length V
     then Done (V[drop_bit 3 i := V ! drop_bit 3 i AND NOT (push_bit (i AND 7) 1)]) else Undefined)"

definition TESTBIT :: "u8 list \<Rightarrow> nat \<Rightarrow> bool exec" where
  "TESTBIT V i = (if drop_bit 3 i < length V
     then Done ((V ! drop_bit 3 i AND push_bit (i AND 7) 1) \<noteq> 0) else Undefined)"

definition linear_good :: "u8 list \<Rightarrow> bool" where
  "linear_good V \<longleftrightarrow> V \<noteq> []"

definition linear_size :: "u8 list \<Rightarrow> nat" where
  "linear_size V = 8 * length V - 1"

definition linear_elem :: "u8 list \<Rightarrow> nat \<Rightarrow> bool" where
  "linear_elem V i \<longleftrightarrow> bit (V ! (i div 8)) (i mod 8)"

lemma drop_3: "drop_bit 3 i = i div 8" "i AND 7 = i mod 8" for i :: nat
  using take_bit_eq_mask [of 3 i] by (simp_all add: drop_bit_eq_div take_bit_eq_mod mask_eq_exp_minus_1)

lemma linear_index: "V \<noteq> [] \<Longrightarrow> i \<in> {1..linear_size V} \<Longrightarrow> i div 8 < length V"
  by (cases V) (auto simp: linear_size_def)

interpretation linear: bitset linear_good linear_size linear_elem
  "\<lambda>V i. if i \<in> {1..linear_size V} then TESTBIT V i else Done False"
  "\<lambda>V i ms. exec_bind (SETBIT V i) (\<lambda>V'. Done (SQLITE_OK, V', ms))" CLEARBIT
proof (unfold_locales, goal_cases)
  case (1 V i)
  then show ?case
    using linear_index [of V i]
    by (cases "i \<in> {1..linear_size V}")
      (auto simp: TESTBIT_def drop_3 linear_good_def linear_elem_def and_single_bit)
next
  case (2 V i ms)
  then have "i div 8 < length V" "j \<in> {1..linear_size V} \<Longrightarrow> j div 8 < length V" for j
    using linear_index by (auto simp: linear_good_def)
  with 2 show ?case
    using bitmap_set_bit(1) [of i V]
    by (auto simp: SETBIT_def drop_3 linear_good_def linear_elem_def linear_size_def)
next
  case (3 V i)
  then have "i div 8 < length V" "j \<in> {1..linear_size V} \<Longrightarrow> j div 8 < length V" for j
    using linear_index by (auto simp: linear_good_def)
  with 3 show ?case
    using bitmap_set_bit(2) [of i V]
    by (auto simp: CLEARBIT_def drop_3 linear_good_def linear_elem_def linear_size_def)
qed

subsection \<open>Destroying a vector\<close>

text \<open>The objects passed to \<^verbatim>\<open>sqlite3_free\<close>, in order.\<close>

primrec bitvecFreed :: "bitvec \<Rightarrow> bitvec list" and bitvecFreedSub :: "bv_u \<Rightarrow> bitvec list" where
  "bitvecFreed (Bitvec s n d v) = (if d \<noteq> 0 then bitvecFreedSub v else []) @ [Bitvec s n d v]"
| "bitvecFreedSub (aBitmap bm) = []"
| "bitvecFreedSub (aHash t) = []"
| "bitvecFreedSub (apSub l) = concat (map (case_option [] id) (map (map_option bitvecFreed) l))"

definition sqlite3BitvecDestroy :: "bitvec option \<Rightarrow> bitvec list" where
  "sqlite3BitvecDestroy p = (case p of None \<Rightarrow> [] | Some p \<Rightarrow> bitvecFreed p)"

subsection \<open>The built-in test\<close>

text \<open>
  The program of \<^verbatim>\<open>sqlite3BitvecBuiltinTest\<close>, a test language with the opcodes 0 to 5.  The
  numbers \<^verbatim>\<open>sqlite3_randomness\<close> delivers are the parameter \<^verbatim>\<open>rnd\<close>; a signed overflow, a jump
  behind the program and a size of 0 are undefined; the size is not negative, and one so large that
  \<^verbatim>\<open>sz+7\<close> overflows an \<^verbatim>\<open>int\<close> is undefined too.  The loop returns \<^verbatim>\<open>False\<close> where the code
  leaves with \<^verbatim>\<open>rc = -1\<close> after a failed allocation.
\<close>

definition in_i32 :: "int \<Rightarrow> bool" where
  "in_i32 x \<longleftrightarrow> - (2 ^ 31) \<le> x \<and> x < 2 ^ 31"

type_synonym builtin_state = "bitvec \<times> u8 list \<times> bool list"

text \<open>The operand handling of one opcode: the program after it, \<^verbatim>\<open>i\<close>, \<^verbatim>\<open>nx\<close> and the random numbers used.\<close>

definition builtinOperands ::
  "(nat \<Rightarrow> int) \<Rightarrow> int list \<Rightarrow> nat \<Rightarrow> nat \<Rightarrow> (int list \<times> int \<times> nat \<times> nat) exec"
where
  "builtinOperands rnd aOp pc k =
     (if aOp ! pc = 1 \<or> aOp ! pc = 2 \<or> aOp ! pc = 5
      then (if pc + 3 < length aOp \<and> in_i32 (aOp ! (pc + 2) - 1) \<and>
                in_i32 (aOp ! (pc + 2) + aOp ! (pc + 3))
            then Done (aOp[pc + 2 := aOp ! (pc + 2) + aOp ! (pc + 3)], aOp ! (pc + 2) - 1, 4, k)
            else Undefined)
      else (if pc + 1 < length aOp then Done (aOp, rnd k, 2, k + 1) else Undefined))"

lemma builtinOperands_shape:
  "builtinOperands rnd aOp pc k = Done (aOp1, i, nx, k1) \<Longrightarrow>
     length aOp1 = length aOp \<and> aOp1 ! (pc + 1) = aOp ! (pc + 1) \<and> 0 < nx \<and>
     pc + 1 < length aOp"
  by (auto simp: builtinOperands_def split: if_splits)

function builtinLoop ::
  "nat \<Rightarrow> (nat \<Rightarrow> int) \<Rightarrow> nat \<Rightarrow> int list \<Rightarrow> nat \<Rightarrow> builtin_state \<Rightarrow> (bool \<times> builtin_state) exec"
where
  "builtinLoop sz rnd pc aOp k (p, V, ms) =
     (if pc < length aOp
      then if aOp ! pc = 0 then Done (True, (p, V, ms))
      else (case builtinOperands rnd aOp pc k of
          Undefined \<Rightarrow> Undefined
        | Done (aOp1, i, nx, k1) \<Rightarrow>
            if \<not> in_i32 (aOp1 ! (pc + 1) - 1) \<or> sz = 0 then Undefined
            else
              let c = aOp1 ! (pc + 1) - 1;
                  aOp2 = aOp1[pc + 1 := c];
                  pc' = pc + (if 0 < c then 0 else nx);
                  j = nat ((i AND 0x7fffffff) mod int sz) + 1
              in if aOp ! pc AND 1 \<noteq> 0
                 then exec_bind (SETBIT V j) (\<lambda>V'.
                   if aOp ! pc \<noteq> 5
                   then exec_bind (bv_set p j ms) (\<lambda>(rc, p', ms').
                     if rc \<noteq> 0 then Done (False, (p', V', ms'))
                     else builtinLoop sz rnd pc' aOp2 k1 (p', V', ms'))
                   else builtinLoop sz rnd pc' aOp2 k1 (p, V', ms))
                 else exec_bind (CLEARBIT V j) (\<lambda>V'.
                   exec_bind (bv_clear p j) (\<lambda>p'.
                     builtinLoop sz rnd pc' aOp2 k1 (p', V', ms))))
      else Undefined)"
  by pat_completeness auto

termination
proof (relation "measures [\<lambda>(sz, rnd, pc, aOp, k, s). length aOp - pc,
    \<lambda>(sz, rnd, pc, aOp, k, s). nat (aOp ! (pc + 1))]", goal_cases)
  case 1
  then show ?case by simp
qed (auto dest!: builtinOperands_shape)

declare builtinLoop.simps [simp del]

text \<open>The comparison of \<^verbatim>\<open>n\<close> bits from \<^verbatim>\<open>i\<close> on; \<^verbatim>\<open>rc\<close> so far is the result if all agree.\<close>

fun builtinCompare :: "bitvec \<Rightarrow> u8 list \<Rightarrow> nat \<Rightarrow> nat \<Rightarrow> int \<Rightarrow> int exec" where
  "builtinCompare p V 0 i rc = Done rc"
| "builtinCompare p V (Suc n) i rc =
     exec_bind (TESTBIT V i) (\<lambda>b.
       exec_bind (sqlite3BitvecTest (Some p) i) (\<lambda>b'.
         if b \<noteq> b' then Done (int i) else builtinCompare p V n (i + 1) rc))"

definition of_test :: "bool \<Rightarrow> int" where
  "of_test b = (if b then 1 else 0)"

definition sqlite3BitvecBuiltinTest ::
  "nat \<Rightarrow> int list \<Rightarrow> (nat \<Rightarrow> int) \<Rightarrow> bool list \<Rightarrow> int exec"
where
  "sqlite3BitvecBuiltinTest sz aOp rnd ms =
     (if \<not> in_i32 (int sz + 7) then Undefined else
      case sqlite3BitvecCreate sz ms of (pBitvec, ms1) \<Rightarrow>
      case alloc ms1 of (bV, ms2) \<Rightarrow>
      case alloc ms2 of (bTmp, ms3) \<Rightarrow>
        if pBitvec = None \<or> \<not> bV \<or> \<not> bTmp then Done (- 1)
        else exec_bind (sqlite3BitvecSet None 1 ms3) (\<lambda>_.
          exec_bind (sqlite3BitvecClear None 1) (\<lambda>_.
            exec_bind (builtinLoop sz rnd 0 aOp 0
                (the pBitvec, replicate ((sz + 7) div 8 + 1) 0, ms3))
              (\<lambda>(ok, p, V, ms4).
                 if \<not> ok then Done (- 1)
                 else exec_bind (sqlite3BitvecTest None 0) (\<lambda>t0.
                   exec_bind (sqlite3BitvecTest (Some p) (u32_wrap (sz + 1))) (\<lambda>t1.
                     exec_bind (sqlite3BitvecTest (Some p) 0) (\<lambda>t2.
                       builtinCompare p V sz 1
                         (of_test t0 + of_test t1 + of_test t2
                            + (int (sqlite3BitvecSize p) - int sz)))))))))"

subsection \<open>The built-in test finds nothing\<close>

text \<open>Programs that end with a 0 opcode, do not use opcode 5 and do not overflow an \<^verbatim>\<open>int\<close>.\<close>

fun prog_ok :: "int list \<Rightarrow> bool" where
  "prog_ok [] = False"
| "prog_ok (c # ops) \<longleftrightarrow>
     c = 0 \<or>
     (case ops of
        [] \<Rightarrow> False
      | n # ops1 \<Rightarrow>
          in_i32 (n - 1) \<and>
          (if c = 1 \<or> c = 2
           then (case ops1 of
                   s # x # ops2 \<Rightarrow>
                     in_i32 (s - 1) \<and> in_i32 (s + max 1 n * x - 1) \<and>
                     in_i32 (s + max 1 n * x) \<and> in_i32 s \<and> prog_ok ops2
                 | _ \<Rightarrow> False)
           else c \<noteq> 5 \<and> prog_ok ops1))"

lemma in_i32_between: "in_i32 a \<Longrightarrow> in_i32 b \<Longrightarrow> a \<le> x \<and> x \<le> b \<or> b \<le> x \<and> x \<le> a \<Longrightarrow> in_i32 x"
  by (auto simp: in_i32_def)

lemma step_between:
  fixes s x n :: int
  assumes "1 \<le> n"
  shows "s \<le> s + x \<and> s + x \<le> s + n * x \<or> s + n * x \<le> s + x \<and> s + x \<le> s"
proof (cases "0 \<le> x")
  case True
  with assms mult_right_mono [of 1 n x] show ?thesis by simp
next
  case False
  with assms mult_right_mono_neg [of 1 n x] show ?thesis by simp
qed

lemma prog_ok_step:
  assumes "prog_ok (drop pc aOp)" and "pc < length aOp" and "aOp ! pc \<noteq> 0"
  shows "\<exists>aOp1 i nx k1. builtinOperands rnd aOp pc k = Done (aOp1, i, nx, k1) \<and>
    in_i32 (aOp1 ! (pc + 1) - 1) \<and> aOp ! pc \<noteq> 5 \<and>
    prog_ok (drop (pc + (if 0 < aOp1 ! (pc + 1) - 1 then 0 else nx))
      (aOp1[pc + 1 := aOp1 ! (pc + 1) - 1]))"
proof -
  obtain c ops where d: "drop pc aOp = c # ops" and c: "c = aOp ! pc"
    using Cons_nth_drop_Suc [OF assms(2)] by metis
  from assms(1,3) d c obtain n ops1 where ops: "ops = n # ops1" and n: "in_i32 (n - 1)"
    by (cases ops) auto
  have len: "length aOp = pc + length (drop pc aOp)" using assms(2) by simp
  have aOp: "aOp = take pc aOp @ c # n # ops1" using append_take_drop_id [of pc aOp] d ops by simp
  define pre where "pre = take pc aOp"
  have pre: "aOp = pre @ c # n # ops1" "length pre = pc" using aOp assms(2) by (simp_all add: pre_def)
  show ?thesis
  proof (cases "c = 1 \<or> c = 2")
    case True
    with assms(1) d ops obtain s x ops2 where o2: "ops1 = s # x # ops2" and b: "in_i32 (s - 1)"
        "in_i32 (s + max 1 n * x - 1)" "in_i32 (s + max 1 n * x)" "in_i32 s" "prog_ok ops2"
      by (auto split: list.splits)
    have mid: "in_i32 (s + x)" "in_i32 (s + x - 1)"
      using in_i32_between [OF b(4,3), of "s + x"] in_i32_between [OF b(1,2), of "s + x - 1"]
        step_between [of "max 1 n" s x] by auto
    let ?aOp1 = "pre @ c # n # (s + x) # x # ops2"
    have run: "builtinOperands rnd aOp pc k = Done (?aOp1, s - 1, 4, k)"
      using True b(1) mid(1) pre
      by (auto simp: builtinOperands_def o2 nth_append list_update_append numeral_2_eq_2
          numeral_3_eq_3)
    show ?thesis
    proof (cases "1 < n")
      case True
      then have "max 1 (n - 1) * x + x = max 1 n * x" by (simp add: left_diff_distrib max_def)
      then have eq: "s + x + max 1 (n - 1) * x = s + max 1 n * x" by simp
      have "in_i32 (s + x + max 1 (n - 1) * x)" "in_i32 (s + x + max 1 (n - 1) * x - 1)"
        using b(2,3) by (simp_all only: eq)
      moreover have "in_i32 (n - 2)" using n True by (simp add: in_i32_def)
      ultimately have "prog_ok (c # (n - 1) # (s + x) # x # ops2)"
        using \<open>c = 1 \<or> c = 2\<close> mid b by auto
      with run True n pre assms(3) c [symmetric] \<open>c = 1 \<or> c = 2\<close> show ?thesis
        by (auto simp: nth_append list_update_append)
    next
      case False
      with run n pre b(5) c [symmetric] \<open>c = 1 \<or> c = 2\<close> show ?thesis
        by (auto simp: nth_append list_update_append)
    qed
  next
    case False
    with assms(1,3) d ops c have c5: "c \<noteq> 5" "prog_ok ops1" by auto
    have run: "builtinOperands rnd aOp pc k = Done (aOp, rnd k, 2, k + 1)"
      using False c5 c [symmetric] pre by (auto simp: builtinOperands_def)
    show ?thesis
    proof (cases "1 < n")
      case True
      then have "in_i32 (n - 2)" using n by (simp add: in_i32_def)
      with False c5 have "prog_ok (c # (n - 1) # ops1)" by auto
      with run True n pre c [symmetric] c5 show ?thesis
        by (auto simp: nth_append list_update_append)
    next
      case False
      with run n pre c5 c [symmetric] show ?thesis
        by (auto simp: nth_append list_update_append)
    qed
  qed
qed

definition in_sync :: "nat \<Rightarrow> bitvec \<Rightarrow> u8 list \<Rightarrow> bool" where
  "in_sync sz p V \<longleftrightarrow> bv_good p \<and> iSize p = sz \<and> linear_good V \<and> sz \<le> linear_size V \<and>
     (\<forall>j \<in> {1..sz}. bv_elem p j \<longleftrightarrow> linear_elem V j)"

lemma SETBIT_law:
  assumes "linear_good V" and "i \<in> {1..linear_size V}"
  shows "\<exists>V'. SETBIT V i = Done V' \<and> linear_good V' \<and> linear_size V' = linear_size V \<and>
    (\<forall>j \<in> {1..linear_size V}. linear_elem V' j \<longleftrightarrow> j = i \<or> linear_elem V j)"
  using linear.set_law [OF assms, of "[]"] by auto

lemma in_sync_set:
  assumes "in_sync sz p V" and "j \<in> {1..sz}"
  shows "\<exists>V' rc p' ms'. SETBIT V j = Done V' \<and> bv_set p j ms = Done (rc, p', ms') \<and>
    (rc = 0 \<longrightarrow> in_sync sz p' V') \<and> (False \<notin> set ms \<longrightarrow> rc = 0 \<and> False \<notin> set ms')"
proof -
  have s: "bv_good p" "iSize p = sz" "linear_good V" "sz \<le> linear_size V"
      "\<forall>j \<in> {1..sz}. bv_elem p j \<longleftrightarrow> linear_elem V j"
    using assms(1) by (auto simp: in_sync_def)
  have j: "j \<in> {1..iSize p}" "j \<in> {1..linear_size V}" using assms(2) s(2,4) by auto
  from SETBIT_law [OF s(3) j(2)] obtain V' where V': "SETBIT V j = Done V'" "linear_good V'"
      "linear_size V' = linear_size V"
      "\<forall>k \<in> {1..linear_size V}. linear_elem V' k \<longleftrightarrow> k = j \<or> linear_elem V k" by blast
  from bv.set_law [OF s(1) j(1), of ms] obtain rc p' ms' where
    p': "bv_set p j ms = Done (rc, p', ms')" "bv_good p'" "iSize p' = iSize p"
      "rc = SQLITE_OK \<longrightarrow> (\<forall>k \<in> {1..iSize p}. bv_elem p' k \<longleftrightarrow> k = j \<or> bv_elem p k)"
      "False \<notin> set ms \<longrightarrow> rc = SQLITE_OK \<and> False \<notin> set ms'" by blast
  have "in_sync sz p' V'" if "rc = 0"
    unfolding in_sync_def
  proof (intro conjI ballI)
    fix k assume k: "k \<in> {1..sz}"
    with s(4) have "k \<in> {1..linear_size V}" by auto
    with V'(4) p'(4) s(2,5) k that show "bv_elem p' k \<longleftrightarrow> linear_elem V' k"
      by (simp add: result_codes)
  qed (use p'(2,3) V'(2,3) s in simp_all)
  with V'(1) p'(1,5) show ?thesis by (auto simp: result_codes)
qed

lemma in_sync_clear:
  assumes "in_sync sz p V" and "j \<in> {1..sz}"
  shows "\<exists>V' p'. CLEARBIT V j = Done V' \<and> bv_clear p j = Done p' \<and> in_sync sz p' V'"
proof -
  have s: "bv_good p" "iSize p = sz" "linear_good V" "sz \<le> linear_size V"
      "\<forall>j \<in> {1..sz}. bv_elem p j \<longleftrightarrow> linear_elem V j"
    using assms(1) by (auto simp: in_sync_def)
  have j: "j \<in> {1..iSize p}" "j \<in> {1..linear_size V}" using assms(2) s(2,4) by auto
  from linear.clear_law [OF s(3) j(2)] obtain V' where V': "CLEARBIT V j = Done V'" "linear_good V'"
      "linear_size V' = linear_size V"
      "\<forall>k \<in> {1..linear_size V}. linear_elem V' k \<longleftrightarrow> k \<noteq> j \<and> linear_elem V k" by blast
  from bv.clear_law [OF s(1) j(1)] obtain p' where
    p': "bv_clear p j = Done p'" "bv_good p'" "iSize p' = iSize p"
      "\<forall>k \<in> {1..iSize p}. bv_elem p' k \<longleftrightarrow> k \<noteq> j \<and> bv_elem p k" by blast
  have "in_sync sz p' V'"
    unfolding in_sync_def
  proof (intro conjI ballI)
    fix k assume k: "k \<in> {1..sz}"
    with s(4) have "k \<in> {1..linear_size V}" by auto
    with V'(4) p'(4) s(2,5) k show "bv_elem p' k \<longleftrightarrow> linear_elem V' k" by simp
  qed (use p'(2,3) V'(2,3) s in simp_all)
  with V'(1) p'(1) show ?thesis by blast
qed

lemma builtinLoop_ok:
  assumes "prog_ok (drop pc aOp)" and "0 < sz" and "in_sync sz p V"
  shows "\<exists>ok p' V' ms'. builtinLoop sz rnd pc aOp k (p, V, ms) = Done (ok, (p', V', ms')) \<and>
    (ok \<longrightarrow> in_sync sz p' V') \<and> (False \<notin> set ms \<longrightarrow> ok)"
  using assms
proof (induction sz rnd pc aOp k p V ms rule: builtinLoop.induct [split_format (complete)])
  case (1 sz rnd pc aOp k p V ms)
  have pc: "pc < length aOp" using "1.prems"(1) by (cases "pc < length aOp") auto
  show ?case
  proof (cases "aOp ! pc = 0")
    case True
    with pc "1.prems"(3) show ?thesis by (subst builtinLoop.simps) auto
  next
    case False
    obtain aOp1 i nx k1 where o: "builtinOperands rnd aOp pc k = Done (aOp1, i, nx, k1)"
        "in_i32 (aOp1 ! (pc + 1) - 1)" "aOp ! pc \<noteq> 5"
        "prog_ok (drop (pc + (if 0 < aOp1 ! (pc + 1) - 1 then 0 else nx))
          (aOp1[pc + 1 := aOp1 ! (pc + 1) - 1]))"
      using prog_ok_step [OF "1.prems"(1) pc False] by blast
    let ?c = "aOp1 ! (pc + 1) - 1"
    let ?aOp2 = "aOp1[pc + 1 := ?c]"
    let ?pc = "pc + (if 0 < ?c then 0 else nx)"
    let ?j = "nat ((i AND 0x7fffffff) mod int sz) + 1"
    have "\<not> (\<not> in_i32 ?c \<or> sz = 0)" using o(2) "1.prems"(2) by simp
    note IH = "1.IH" [OF pc False o(1) refl refl refl this refl refl refl refl]
    have "(i AND 0x7fffffff) mod int sz < int sz" using "1.prems"(2) by simp
    moreover have "0 \<le> (i AND 0x7fffffff) mod int sz" using "1.prems"(2) by simp
    ultimately have j: "?j \<in> {1..sz}" by (simp del: pos_mod_bound)
    show ?thesis
    proof (cases "aOp ! pc AND 1 \<noteq> 0")
      case True
      from in_sync_set [OF "1.prems"(3) j, of ms] obtain V' rc p' ms' where
        s: "SETBIT V ?j = Done V'" "bv_set p ?j ms = Done (rc, p', ms')"
          "rc = 0 \<longrightarrow> in_sync sz p' V'" "False \<notin> set ms \<longrightarrow> rc = 0 \<and> False \<notin> set ms'" by blast
      have step: "builtinLoop sz rnd pc aOp k (p, V, ms) =
          (if rc \<noteq> 0 then Done (False, (p', V', ms'))
           else builtinLoop sz rnd ?pc ?aOp2 k1 (p', V', ms'))"
        using pc False o(1-3) True "1.prems"(2) s(1,2)
        by (subst builtinLoop.simps) (simp add: Let_def)
      show ?thesis
      proof (cases "rc = 0")
        case rc: True
        have go: "builtinLoop sz rnd pc aOp k (p, V, ms) =
            builtinLoop sz rnd ?pc ?aOp2 k1 (p', V', ms')"
          unfolding step by (simp only: rc simp_thms if_False)
        from IH(1) [OF True o(3) _ o(4) "1.prems"(2), of rc p' V' ms'] rc s(3,4) show ?thesis
          unfolding go by blast
      next
        case False
        with step s(4) show ?thesis by auto
      qed
    next
      case even: False
      from in_sync_clear [OF "1.prems"(3) j] obtain V' p' where
        s: "CLEARBIT V ?j = Done V'" "bv_clear p ?j = Done p'" "in_sync sz p' V'" by blast
      have step: "builtinLoop sz rnd pc aOp k (p, V, ms) =
          builtinLoop sz rnd ?pc ?aOp2 k1 (p', V', ms)"
        using pc False o(1-3) even "1.prems"(2) s(1,2)
        by (subst builtinLoop.simps) (simp add: Let_def)
      from IH(3) [OF even o(4) "1.prems"(2) s(3)] show ?thesis
        unfolding step by blast
    qed
  qed
qed

lemma builtinCompare_ok:
  assumes "in_sync sz p V" and "1 \<le> i" and "i + n \<le> sz + 1"
  shows "builtinCompare p V n i rc = Done rc"
  using assms(2,3)
proof (induction n arbitrary: i)
  case 0
  then show ?case by simp
next
  case (Suc n)
  have s: "bv_good p" "iSize p = sz" "linear_good V" "sz \<le> linear_size V"
      "\<forall>j \<in> {1..sz}. bv_elem p j \<longleftrightarrow> linear_elem V j"
    using assms(1) by (auto simp: in_sync_def)
  have i: "i \<in> {1..sz}" using Suc.prems by simp
  with s(4) have "i \<in> {1..linear_size V}" by simp
  with linear.test_law [OF s(3), of i] have "TESTBIT V i = Done (linear_elem V i)" by simp
  moreover have "sqlite3BitvecTest (Some p) i = Done (linear_elem V i)"
    using bv.test_law [OF s(1), of i] i s(2,5) by simp
  ultimately show ?case using Suc by simp
qed

lemma created_in_sync:
  assumes "sqlite3BitvecCreate sz ms = (Some p, ms')" and "sz + 124 < 2 ^ 32"
  shows "in_sync sz p (replicate ((sz + 7) div 8 + 1) 0)"
proof -
  note c = create_ok [OF assms(1)]
  have "sz \<le> 8 * ((sz + 7) div 8) + 7" by presburger
  moreover have "\<not> bv_elem p j \<and> \<not> linear_elem (replicate ((sz + 7) div 8 + 1) 0) j"
    if "j \<in> {1..sz}" for j
  proof
    have "j - 1 < sz" using that by auto
    with assms(2) c(3) show "\<not> bv_elem p j" by (simp add: bv_elem_def)
    have "j div 8 \<le> (sz + 7) div 8" using that by (intro div_le_mono) simp
    then show "\<not> linear_elem (replicate ((sz + 7) div 8 + 1) 0) j"
      by (simp add: linear_elem_def del: replicate.simps)
  qed
  ultimately show ?thesis
    using c(1,2) assms(2)
    by (simp add: in_sync_def bv_good_def linear_good_def linear_size_def del: replicate.simps)
qed

subsection \<open>Properties\<close>

text \<open>
  Property C6.  From creation on, any history of set and clear operations in the range of the
  vector runs to its end (the recursion is at most seven calls deep, every probe ends), only a
  failed allocation makes it stop with an error, and without an error
  \<^verbatim>\<open>sqlite3BitvecTest\<close> answers for every number as the set does that the history describes,
  across all three representations and the changes between them.
\<close>

theorem bitvec_history_is_set:
  assumes "sqlite3BitvecCreate sz ms0 = (Some p, ms)" and "sz + 124 < 2 ^ 32"
    and "\<forall>q \<in> set ops. op_bit q \<in> {1..sz}"
  shows "\<exists>rc p' ms'. run_ops bv_set bv_clear ops p ms = Done (rc, p', ms') \<and>
    (False \<notin> set ms \<longrightarrow> rc = SQLITE_OK) \<and>
    (rc = SQLITE_OK \<longrightarrow>
      (\<forall>i. sqlite3BitvecTest (Some p') i = Done (i \<in> {1..sz} \<and> i \<in> spec_ops ops {})))"
proof -
  have s: "bv_good p" "iSize p = sz" "\<forall>j \<in> {1..iSize p}. bv_elem p j \<longleftrightarrow> j \<in> {}"
    using create_ok [OF assms(1)] assms(2) by (auto simp: bv_good_def bv_elem_def)
  with assms(3) bv.history [OF s(1) _ s(3), of ops ms] bv.test_law show ?thesis by fastforce
qed

theorem bitvec_history_is_set_witness:
  "\<exists>rc p' ms'. run_ops bv_set bv_clear [SetBit 3, SetBit 128, SetBit 5000, ClearBit 3]
      (Bitvec 5000 0 0 (aHash (replicate 125 0))) [] = Done (rc, p', ms') \<and> rc = SQLITE_OK \<and>
    sqlite3BitvecTest (Some p') 128 = Done True \<and> sqlite3BitvecTest (Some p') 3 = Done False"
proof -
  have "sqlite3BitvecCreate 5000 [] = (Some (Bitvec 5000 0 0 (aHash (replicate 125 0))), [])"
    by (simp add: sqlite3BitvecCreate_def zeroed_def bitvec_sizes del: replicate.simps)
  from bitvec_history_is_set [OF this, of "[SetBit 3, SetBit 128, SetBit 5000, ClearBit 3]"]
  show ?thesis by (auto simp del: run_ops.simps)
qed

text \<open>
  Property C21.  Whatever the outcome, setting a bit sets no other bit: after \<^verbatim>\<open>SQLITE_NOMEM\<close>, which
  can come in the middle of rebuilding the table as a tree, every bit that tests true is the
  new one or was set before.  After success the change is exactly the new bit.
\<close>

theorem bitvec_set_adds_only_its_bit:
  assumes "bv_good p" and "i \<in> {1..iSize p}"
  shows "\<exists>rc p' ms'. sqlite3BitvecSet (Some p) i ms = Done (rc, Some p', ms') \<and> bv_good p' \<and>
    iSize p' = iSize p \<and> (rc = SQLITE_OK \<or> rc = SQLITE_NOMEM) \<and>
    (\<forall>j. sqlite3BitvecTest (Some p') j = Done True \<longrightarrow>
       j = i \<or> sqlite3BitvecTest (Some p) j = Done True) \<and>
    (rc = SQLITE_OK \<longrightarrow> (\<forall>j. sqlite3BitvecTest (Some p') j = Done True \<longleftrightarrow>
       j = i \<or> sqlite3BitvecTest (Some p) j = Done True))"
proof -
  from bv.set_law [OF assms, of ms] obtain rc p' ms' where
    s: "bv_set p i ms = Done (rc, p', ms')" "bv_good p'" "iSize p' = iSize p"
      "rc = SQLITE_OK \<or> rc = SQLITE_NOMEM"
      "\<forall>j \<in> {1..iSize p}. bv_elem p' j \<longrightarrow> j = i \<or> bv_elem p j"
      "rc = SQLITE_OK \<longrightarrow> (\<forall>j \<in> {1..iSize p}. bv_elem p' j \<longleftrightarrow> j = i \<or> bv_elem p j)"
    by blast
  have "sqlite3BitvecSet (Some p) i ms = Done (rc, Some p', ms')"
    using s(1) by (auto simp: bv_set_def split: option.splits)
  moreover have t': "sqlite3BitvecTest (Some p') j = Done True \<longleftrightarrow> j \<in> {1..iSize p} \<and> bv_elem p' j"
    and t: "sqlite3BitvecTest (Some p) j = Done True \<longleftrightarrow> j \<in> {1..iSize p} \<and> bv_elem p j" for j
    using bv.test_law [OF s(2)] bv.test_law [OF assms(1)] s(3) by simp_all
  have "\<forall>j. sqlite3BitvecTest (Some p') j = Done True \<longrightarrow>
       j = i \<or> sqlite3BitvecTest (Some p) j = Done True"
    unfolding t t' using s(5) by blast
  moreover have "rc = SQLITE_OK \<longrightarrow> (\<forall>j. sqlite3BitvecTest (Some p') j = Done True \<longleftrightarrow>
       j = i \<or> sqlite3BitvecTest (Some p) j = Done True)"
    unfolding t t' using s(6) assms(2) by blast
  ultimately show ?thesis using s(2-4) by blast
qed

theorem bitvec_set_adds_only_its_bit_witness:
  "\<exists>rc p' ms'. sqlite3BitvecSet (Some (Bitvec 10 0 0 (aBitmap (replicate 500 0)))) 7 [] =
      Done (rc, Some p', ms') \<and> (\<forall>j. sqlite3BitvecTest (Some p') j = Done True \<longrightarrow>
       j = 7 \<or> sqlite3BitvecTest (Some (Bitvec 10 0 0 (aBitmap (replicate 500 0)))) j = Done True)"
  using bitvec_set_adds_only_its_bit [of "Bitvec 10 0 0 (aBitmap (replicate 500 0))" 7 "[]"]
  by (auto simp: bv_good_def simp del: replicate.simps)

text \<open>
  Property C22.  \<^verbatim>\<open>sqlite3BitvecBuiltinTest\<close>, run on any program that ends in a 0 opcode, avoids the
  fault-injecting opcode 5 and overflows no \<^verbatim>\<open>int\<close>, for every size whose \<^verbatim>\<open>sz+7\<close> is an \<^verbatim>\<open>int\<close>,
  returns: 0 when all allocations
  succeed, 0 or -1 in every case; never the number of a bit that differs.
\<close>

theorem bitvec_builtin_test_passes:
  assumes "prog_ok aOp" and "0 < sz" and "in_i32 (int sz + 7)"
  shows "\<exists>rc. sqlite3BitvecBuiltinTest sz aOp rnd ms = Done rc \<and> (rc = 0 \<or> rc = - 1) \<and>
    (False \<notin> set ms \<longrightarrow> rc = 0)"
proof -
  obtain op ms1 where c: "sqlite3BitvecCreate sz ms = (op, ms1)" by (cases "sqlite3BitvecCreate sz ms")
  obtain bV ms2 where a2: "alloc ms1 = (bV, ms2)" by (cases "alloc ms1")
  obtain bT ms3 where a3: "alloc ms2 = (bT, ms3)" by (cases "alloc ms2")
  have fits: "sz + 124 < 2 ^ 32" using assms(3) by (simp add: in_i32_def)
  have body: "(if \<not> in_i32 (int sz + 7) then Undefined else e) = e" for e :: "int exec" using assms(3) by simp
  note defs = sqlite3BitvecBuiltinTest_def body c a2 a3
  have mem: "False \<notin> set ms \<longrightarrow> op \<noteq> None \<and> bV \<and> bT \<and> False \<notin> set ms3"
    using create_None [of sz ms ms1] create_Some [of sz ms _ ms1] c alloc_all [OF _ a2] alloc_all [OF _ a3]
    by (cases op) auto
  show ?thesis
  proof (cases "op = None \<or> \<not> bV \<or> \<not> bT")
    case True
    with mem show ?thesis by (auto simp: defs)
  next
    case False
    then obtain p where p: "op = Some p" by auto
    have "in_sync sz p (replicate ((sz + 7) div 8 + 1) 0)"
      using created_in_sync [OF _ fits] c p by simp
    from builtinLoop_ok [of 0 aOp sz p _ rnd 0 ms3, OF _ assms(2) this] assms(1)
    obtain ok p' V' ms' where l: "builtinLoop sz rnd 0 aOp 0 (p, replicate ((sz + 7) div 8 + 1) 0, ms3) =
          Done (ok, (p', V', ms'))" "ok \<longrightarrow> in_sync sz p' V'" "False \<notin> set ms3 \<longrightarrow> ok"
      by auto
    show ?thesis
    proof (cases ok)
      case False
      with l mem \<open>\<not> (op = None \<or> \<not> bV \<or> \<not> bT)\<close> p show ?thesis
        by (auto simp: defs sqlite3BitvecSet_def sqlite3BitvecClear_def simp del: replicate.simps)
    next
      case True
      with l(2) have sync: "in_sync sz p' V'" by simp
      then have g: "bv_good p'" "iSize p' = sz" by (auto simp: in_sync_def)
      have "sqlite3BitvecTest (Some p') (u32_wrap (sz + 1)) = Done False"
        "sqlite3BitvecTest (Some p') 0 = Done False"
        using g fits by (simp_all add: sqlite3BitvecTest_def)
      with True l(1) \<open>\<not> (op = None \<or> \<not> bV \<or> \<not> bT)\<close> p g(2) builtinCompare_ok [OF sync]
      show ?thesis
        by (simp add: defs sqlite3BitvecSet_def sqlite3BitvecClear_def sqlite3BitvecTest_def [of None]
            sqlite3BitvecSize_def of_test_def del: replicate.simps)
    qed
  qed
qed

theorem bitvec_builtin_test_passes_witness:
  "\<exists>rc. sqlite3BitvecBuiltinTest 400 [1, 400, 1, 1, 2, 7, 3, 5, 4, 2, 0] (\<lambda>k. 17 * int k) [] =
     Done rc \<and> rc = 0"
  using bitvec_builtin_test_passes [of "[1, 400, 1, 1, 2, 7, 3, 5, 4, 2, 0]" 400 "\<lambda>k. 17 * int k" "[]"]
  by (auto simp: in_i32_def)

end
