(* ===== verification/Ctype.thy ===== *)
theory Ctype
  imports CBase "HOL-Library.Char_ord"
begin

text \<open>
  Characters and strings: the tables \<^verbatim>\<open>sqlite3UpperToLower\<close> and \<^verbatim>\<open>sqlite3CtypeMap\<close> of
  \<^verbatim>\<open>global.c\<close> with the macros over them, and the string routines of \<^verbatim>\<open>util.c\<close>
  (\<^verbatim>\<open>sqlite3Strlen30\<close>, \<^verbatim>\<open>sqlite3_stricmp\<close>, \<^verbatim>\<open>sqlite3_strnicmp\<close>, \<^verbatim>\<open>sqlite3Dequote\<close>,
  \<^verbatim>\<open>sqlite3HexToInt\<close>, \<^verbatim>\<open>sqlite3HexToBlob\<close>).

  A zero-terminated string is the list of its characters without the terminator; reading at
  its end gives the terminator.  A \<^verbatim>\<open>NULL\<close> pointer is \<^term>\<open>None\<close>.
\<close>

unbundle bit_operations_syntax

subsection \<open>Tables\<close>

abbreviation code :: "char \<Rightarrow> nat" where "code c \<equiv> of_char c"

definition sqlite3UpperToLower :: "nat list" where
  "sqlite3UpperToLower =
    [0, 1, 2, 3, 4, 5, 6, 7, 8, 9, 10, 11, 12, 13, 14, 15, 16, 17,
     18, 19, 20, 21, 22, 23, 24, 25, 26, 27, 28, 29, 30, 31, 32, 33, 34, 35,
     36, 37, 38, 39, 40, 41, 42, 43, 44, 45, 46, 47, 48, 49, 50, 51, 52, 53,
     54, 55, 56, 57, 58, 59, 60, 61, 62, 63, 64, 97, 98, 99, 100, 101, 102, 103,
     104, 105, 106, 107, 108, 109, 110, 111, 112, 113, 114, 115, 116, 117, 118, 119, 120, 121,
     122, 91, 92, 93, 94, 95, 96, 97, 98, 99, 100, 101, 102, 103, 104, 105, 106, 107,
     108, 109, 110, 111, 112, 113, 114, 115, 116, 117, 118, 119, 120, 121, 122, 123, 124, 125,
     126, 127, 128, 129, 130, 131, 132, 133, 134, 135, 136, 137, 138, 139, 140, 141, 142, 143,
     144, 145, 146, 147, 148, 149, 150, 151, 152, 153, 154, 155, 156, 157, 158, 159, 160, 161,
     162, 163, 164, 165, 166, 167, 168, 169, 170, 171, 172, 173, 174, 175, 176, 177, 178, 179,
     180, 181, 182, 183, 184, 185, 186, 187, 188, 189, 190, 191, 192, 193, 194, 195, 196, 197,
     198, 199, 200, 201, 202, 203, 204, 205, 206, 207, 208, 209, 210, 211, 212, 213, 214, 215,
     216, 217, 218, 219, 220, 221, 222, 223, 224, 225, 226, 227, 228, 229, 230, 231, 232, 233,
     234, 235, 236, 237, 238, 239, 240, 241, 242, 243, 244, 245, 246, 247, 248, 249, 250, 251,
     252, 253, 254, 255]"

definition sqlite3CtypeMap :: "nat list" where
  "sqlite3CtypeMap =
    [0x00, 0x00, 0x00, 0x00, 0x00, 0x00, 0x00, 0x00, 0x00, 0x01, 0x01, 0x01, 0x01, 0x01, 0x00, 0x00,
     0x00, 0x00, 0x00, 0x00, 0x00, 0x00, 0x00, 0x00, 0x00, 0x00, 0x00, 0x00, 0x00, 0x00, 0x00, 0x00,
     0x01, 0x00, 0x00, 0x00, 0x40, 0x00, 0x00, 0x00, 0x00, 0x00, 0x00, 0x00, 0x00, 0x00, 0x00, 0x00,
     0x0c, 0x0c, 0x0c, 0x0c, 0x0c, 0x0c, 0x0c, 0x0c, 0x0c, 0x0c, 0x00, 0x00, 0x00, 0x00, 0x00, 0x00,
     0x00, 0x0a, 0x0a, 0x0a, 0x0a, 0x0a, 0x0a, 0x02, 0x02, 0x02, 0x02, 0x02, 0x02, 0x02, 0x02, 0x02,
     0x02, 0x02, 0x02, 0x02, 0x02, 0x02, 0x02, 0x02, 0x02, 0x02, 0x02, 0x00, 0x00, 0x00, 0x00, 0x40,
     0x00, 0x2a, 0x2a, 0x2a, 0x2a, 0x2a, 0x2a, 0x22, 0x22, 0x22, 0x22, 0x22, 0x22, 0x22, 0x22, 0x22,
     0x22, 0x22, 0x22, 0x22, 0x22, 0x22, 0x22, 0x22, 0x22, 0x22, 0x22, 0x00, 0x00, 0x00, 0x00, 0x00,
     0x40, 0x40, 0x40, 0x40, 0x40, 0x40, 0x40, 0x40, 0x40, 0x40, 0x40, 0x40, 0x40, 0x40, 0x40, 0x40,
     0x40, 0x40, 0x40, 0x40, 0x40, 0x40, 0x40, 0x40, 0x40, 0x40, 0x40, 0x40, 0x40, 0x40, 0x40, 0x40,
     0x40, 0x40, 0x40, 0x40, 0x40, 0x40, 0x40, 0x40, 0x40, 0x40, 0x40, 0x40, 0x40, 0x40, 0x40, 0x40,
     0x40, 0x40, 0x40, 0x40, 0x40, 0x40, 0x40, 0x40, 0x40, 0x40, 0x40, 0x40, 0x40, 0x40, 0x40, 0x40,
     0x40, 0x40, 0x40, 0x40, 0x40, 0x40, 0x40, 0x40, 0x40, 0x40, 0x40, 0x40, 0x40, 0x40, 0x40, 0x40,
     0x40, 0x40, 0x40, 0x40, 0x40, 0x40, 0x40, 0x40, 0x40, 0x40, 0x40, 0x40, 0x40, 0x40, 0x40, 0x40,
     0x40, 0x40, 0x40, 0x40, 0x40, 0x40, 0x40, 0x40, 0x40, 0x40, 0x40, 0x40, 0x40, 0x40, 0x40, 0x40,
     0x40, 0x40, 0x40, 0x40, 0x40, 0x40, 0x40, 0x40, 0x40, 0x40, 0x40, 0x40, 0x40, 0x40, 0x40, 0x40]"

definition sqlite3Tolower :: "char \<Rightarrow> nat" where
  "sqlite3Tolower c = sqlite3UpperToLower ! code c"

definition sqlite3Isspace :: "char \<Rightarrow> bool" where
  "sqlite3Isspace c \<longleftrightarrow> (sqlite3CtypeMap ! code c) AND 0x01 \<noteq> 0"

definition sqlite3Isalnum :: "char \<Rightarrow> bool" where
  "sqlite3Isalnum c \<longleftrightarrow> (sqlite3CtypeMap ! code c) AND 0x06 \<noteq> 0"

definition sqlite3Isalpha :: "char \<Rightarrow> bool" where
  "sqlite3Isalpha c \<longleftrightarrow> (sqlite3CtypeMap ! code c) AND 0x02 \<noteq> 0"

definition sqlite3Isdigit :: "char \<Rightarrow> bool" where
  "sqlite3Isdigit c \<longleftrightarrow> (sqlite3CtypeMap ! code c) AND 0x04 \<noteq> 0"

definition sqlite3Isxdigit :: "char \<Rightarrow> bool" where
  "sqlite3Isxdigit c \<longleftrightarrow> (sqlite3CtypeMap ! code c) AND 0x08 \<noteq> 0"

definition sqlite3Toupper :: "char \<Rightarrow> nat" where
  "sqlite3Toupper c = code c - ((sqlite3CtypeMap ! code c) AND 0x20)"

definition IdChar :: "char \<Rightarrow> bool" where
  "IdChar c \<longleftrightarrow> (sqlite3CtypeMap ! code c) AND 0x46 \<noteq> 0"

subsection \<open>What the tables say\<close>

text \<open>A statement about all characters is checked on the 256 codes.\<close>

fun table_check :: "(nat \<Rightarrow> nat \<Rightarrow> bool) \<Rightarrow> nat \<Rightarrow> nat list \<Rightarrow> bool" where
  "table_check P n [] = True"
| "table_check P n (v # vs) \<longleftrightarrow> P n v \<and> table_check P (n + 1) vs"

lemma table_check_nth: "table_check P n T \<Longrightarrow> k < length T \<Longrightarrow> P (n + k) (T ! k)"
  by (induction P n T arbitrary: k rule: table_check.induct) (auto simp: nth_Cons' gr0_conv_Suc)

lemma table_lengths [simp]: "length sqlite3UpperToLower = 256" "length sqlite3CtypeMap = 256"
  by (simp_all add: sqlite3UpperToLower_def sqlite3CtypeMap_def)

lemma all_codes: "table_check P 0 T \<Longrightarrow> length T = 256 \<Longrightarrow> P (code c) (T ! code c)"
  using table_check_nth [of P 0 T "code c"] by simp

named_theorems ctype \<open>the character classes by code\<close>

lemma tolower_code [ctype]:
  "sqlite3Tolower c = (if 65 \<le> code c \<and> code c \<le> 90 then code c + 32 else code c)"
  unfolding sqlite3Tolower_def
  by (rule all_codes [of "\<lambda>n v. v = (if 65 \<le> n \<and> n \<le> 90 then n + 32 else n)"])
    (simp_all add: sqlite3UpperToLower_def)

definition upper_code :: "nat \<Rightarrow> bool" where "upper_code n \<longleftrightarrow> 65 \<le> n \<and> n \<le> 90"
definition lower_code :: "nat \<Rightarrow> bool" where "lower_code n \<longleftrightarrow> 97 \<le> n \<and> n \<le> 122"
definition digit_code :: "nat \<Rightarrow> bool" where "digit_code n \<longleftrightarrow> 48 \<le> n \<and> n \<le> 57"
definition hex_code :: "nat \<Rightarrow> bool" where
  "hex_code n \<longleftrightarrow> digit_code n \<or> 65 \<le> n \<and> n \<le> 70 \<or> 97 \<le> n \<and> n \<le> 102"
definition space_code :: "nat \<Rightarrow> bool" where
  "space_code n \<longleftrightarrow> n = 32 \<or> 9 \<le> n \<and> n \<le> 13"

lemmas code_classes = upper_code_def lower_code_def digit_code_def hex_code_def space_code_def

definition ctype_value :: "nat \<Rightarrow> nat" where
  "ctype_value n =
     (if space_code n then 0x01 else if digit_code n then 0x0c
      else if 65 \<le> n \<and> n \<le> 70 then 0x0a else if upper_code n then 0x02
      else if 97 \<le> n \<and> n \<le> 102 then 0x2a else if lower_code n then 0x22
      else if n = 95 \<or> n = 36 \<or> 128 \<le> n then 0x40 else 0x00)"

lemma ctype_value: "sqlite3CtypeMap ! code c = ctype_value (code c)"
  by (rule all_codes [of "\<lambda>n v. v = ctype_value n"])
    (simp_all add: sqlite3CtypeMap_def ctype_value_def code_classes)

lemma ctype_codes [ctype]:
  "sqlite3Isspace c \<longleftrightarrow> space_code (code c)"
  "sqlite3Isalpha c \<longleftrightarrow> upper_code (code c) \<or> lower_code (code c)"
  "sqlite3Isdigit c \<longleftrightarrow> digit_code (code c)"
  "sqlite3Isalnum c \<longleftrightarrow> upper_code (code c) \<or> lower_code (code c) \<or> digit_code (code c)"
  "sqlite3Isxdigit c \<longleftrightarrow> hex_code (code c)"
  "IdChar c \<longleftrightarrow> upper_code (code c) \<or> lower_code (code c) \<or> digit_code (code c) \<or>
     code c = 95 \<or> code c = 36 \<or> 128 \<le> code c"
  "sqlite3Toupper c = (if lower_code (code c) then code c - 32 else code c)"
  unfolding sqlite3Isspace_def sqlite3Isalpha_def sqlite3Isdigit_def sqlite3Isalnum_def
    sqlite3Isxdigit_def IdChar_def sqlite3Toupper_def ctype_value ctype_value_def
  by (auto simp: code_classes)

subsection \<open>Lengths and comparisons\<close>

definition sqlite3Strlen30 :: "string option \<Rightarrow> int" where
  "sqlite3Strlen30 z = (case z of None \<Rightarrow> 0 | Some z \<Rightarrow> 0x3fffffff AND int (length z))"

text \<open>The character a pointer into a string shows.\<close>

fun deref :: "string \<Rightarrow> char" where
  "deref [] = NUL"
| "deref (c # _) = c"

lemma deref_not_NUL: "deref z \<noteq> NUL \<Longrightarrow> z \<noteq> []"
  by auto

function stricmpLoop :: "string \<Rightarrow> string \<Rightarrow> int" where
  "stricmpLoop a b =
     (if deref a \<noteq> NUL \<and> sqlite3Tolower (deref a) = sqlite3Tolower (deref b)
      then stricmpLoop (tl a) (tl b)
      else int (sqlite3Tolower (deref a)) - int (sqlite3Tolower (deref b)))"
  by pat_completeness auto
termination
  by (relation "measure (\<lambda>(a, b). length a)") (auto dest: deref_not_NUL)

declare stricmpLoop.simps [simp del]

definition sqlite3_stricmp :: "string option \<Rightarrow> string option \<Rightarrow> int" where
  "sqlite3_stricmp zLeft zRight =
     (case zLeft of
        None \<Rightarrow> (if zRight \<noteq> None then - 1 else 0)
      | Some a \<Rightarrow> (case zRight of None \<Rightarrow> 1 | Some b \<Rightarrow> stricmpLoop a b))"

function strnicmpLoop :: "string \<Rightarrow> string \<Rightarrow> int \<Rightarrow> int" where
  "strnicmpLoop a b n =
     (if 0 < n \<and> deref a \<noteq> NUL \<and> sqlite3Tolower (deref a) = sqlite3Tolower (deref b)
      then strnicmpLoop (tl a) (tl b) (n - 1)
      else if n - 1 < 0 then 0
      else int (sqlite3Tolower (deref a)) - int (sqlite3Tolower (deref b)))"
  by pat_completeness auto
termination
  by (relation "measure (\<lambda>(a, b, n). length a)") (auto dest: deref_not_NUL)

declare strnicmpLoop.simps [simp del]

definition sqlite3_strnicmp :: "string option \<Rightarrow> string option \<Rightarrow> int \<Rightarrow> int" where
  "sqlite3_strnicmp zLeft zRight n =
     (case zLeft of
        None \<Rightarrow> (if zRight \<noteq> None then - 1 else 0)
      | Some a \<Rightarrow> (case zRight of None \<Rightarrow> 1 | Some b \<Rightarrow> strnicmpLoop a b n))"

lemma tolower_0: "sqlite3Tolower c = 0 \<longleftrightarrow> c = NUL"
  using of_char_eq_iff [of c "CHR 0x00", where 'a = nat] by (auto simp: ctype NUL_def)

lemma tolower_NUL [simp]: "sqlite3Tolower NUL = 0"
  by (simp add: tolower_0)

lemma stricmpLoop_Nil: "stricmpLoop [] b = - int (sqlite3Tolower (deref b))"
  by (subst stricmpLoop.simps) simp

lemma stricmpLoop_Cons_Nil: "a \<noteq> NUL \<Longrightarrow> stricmpLoop (a # as) [] = int (sqlite3Tolower a)"
  by (subst stricmpLoop.simps) (simp add: tolower_0)

lemma stricmpLoop_Cons_Cons: "a \<noteq> NUL \<Longrightarrow> stricmpLoop (a # as) (b # bs) =
    (if sqlite3Tolower a = sqlite3Tolower b then stricmpLoop as bs
     else int (sqlite3Tolower a) - int (sqlite3Tolower b))"
  by (subst stricmpLoop.simps) simp

lemmas stricmpLoop_cases = stricmpLoop_Nil stricmpLoop_Cons_Nil stricmpLoop_Cons_Cons

lemma stricmpLoop_lexord:
  assumes "NUL \<notin> set a" and "NUL \<notin> set b"
  shows "(stricmpLoop a b = 0 \<longleftrightarrow> map sqlite3Tolower a = map sqlite3Tolower b) \<and>
    (stricmpLoop a b < 0 \<longleftrightarrow>
       (map sqlite3Tolower a, map sqlite3Tolower b) \<in> lexord {(x, y). x < y}) \<and>
    stricmpLoop b a = - stricmpLoop a b"
  using assms
proof (induction a arbitrary: b)
  case Nil
  then show ?case
  proof (cases b)
    case (Cons c cs)
    with Nil have "sqlite3Tolower c \<noteq> 0" by (auto simp: tolower_0)
    with Cons Nil show ?thesis by (auto simp: stricmpLoop_cases)
  qed (simp add: stricmpLoop_cases)
next
  case (Cons a as)
  then show ?case
  proof (cases b)
    case Nil
    with Cons.prems show ?thesis by (auto simp: stricmpLoop_cases tolower_0)
  next
    case (Cons c cs)
    with Cons.prems Cons.IH [of cs] show ?thesis
      by (cases "sqlite3Tolower a = sqlite3Tolower c") (auto simp: stricmpLoop_cases)
  qed
qed

text \<open>Strings up to the case of the letters.\<close>

definition folded :: "string \<Rightarrow> nat list" where
  "folded z = map sqlite3Tolower z"

lemma stricmp_folded:
  "NUL \<notin> set a \<Longrightarrow> NUL \<notin> set b \<Longrightarrow> sqlite3_stricmp (Some a) (Some b) = 0 \<longleftrightarrow> folded a = folded b"
  using stricmpLoop_lexord [of a b] by (simp add: sqlite3_stricmp_def folded_def)

lemma strnicmpLoop_take:
  "0 \<le> n \<Longrightarrow> NUL \<notin> set a \<Longrightarrow> NUL \<notin> set b \<Longrightarrow>
     strnicmpLoop a b n = stricmpLoop (take (nat n) a) (take (nat n) b)"
proof (induction a b n rule: strnicmpLoop.induct)
  case (1 a b n)
  show ?case
  proof (cases "n = 0")
    case True
    then show ?thesis by (subst strnicmpLoop.simps, subst stricmpLoop.simps) simp
  next
    case False
    with "1.prems"(1) have n: "0 < n" by simp
    define k where "k = nat (n - 1)"
    have k: "nat n = Suc k" "nat (n - 1) = k" using n by (simp_all add: k_def)
    show ?thesis
    proof (cases a)
      case Nil
      then show ?thesis
        using n k by (cases b) (subst strnicmpLoop.simps, simp add: stricmpLoop_cases)+
    next
      case (Cons x xs)
      note a = Cons
      have x: "x \<noteq> NUL" using "1.prems"(2) a by auto
      show ?thesis
      proof (cases b)
        case Nil
        then show ?thesis
          using n k a x by (subst strnicmpLoop.simps) (simp add: stricmpLoop_cases tolower_0)
      next
        case (Cons y ys)
        show ?thesis
        proof (cases "sqlite3Tolower x = sqlite3Tolower y")
          case True
          have "strnicmpLoop xs ys (n - 1) = stricmpLoop (take k xs) (take k ys)"
            using "1.IH" n k a Cons x True "1.prems" by simp
          then show ?thesis
            using n k a x Cons True by (subst strnicmpLoop.simps) (simp add: stricmpLoop_cases)
        next
          case False
          then show ?thesis
            using n k a x Cons by (subst strnicmpLoop.simps) (simp add: stricmpLoop_cases)
        qed
      qed
    qed
  qed
qed

subsection \<open>Quoting\<close>

text \<open>
  The loop of \<^verbatim>\<open>sqlite3Dequote\<close>, at the characters after the opening quote, with the characters
  copied so far; at the end of the string without a closing quote it would go on behind the
  terminator.
\<close>

fun dequoteLoop :: "char \<Rightarrow> string \<Rightarrow> string \<Rightarrow> string exec" where
  "dequoteLoop quote [] out = Undefined"
| "dequoteLoop quote (c # z) out =
     (if c = quote
      then (case z of
              d # z' \<Rightarrow> if d = quote then dequoteLoop quote z' (out @ [quote]) else Done out
            | [] \<Rightarrow> Done out)
      else dequoteLoop quote z (out @ [c]))"

definition sqlite3Dequote :: "string option \<Rightarrow> (int \<times> string option) exec" where
  "sqlite3Dequote zz =
     (case zz of
        None \<Rightarrow> Done (- 1, None)
      | Some z \<Rightarrow>
          (let q = deref z in
           if q = CHR 0x27 \<or> q = CHR 0x22 \<or> q = CHR 0x60 \<or> q = CHR ''[''
           then exec_bind (dequoteLoop (if q = CHR ''['' then CHR '']'' else q) (tl z) [])
                  (\<lambda>out. Done (int (length out), Some out))
           else Done (- 1, Some z)))"

definition quoted :: "char \<Rightarrow> string \<Rightarrow> string" where
  "quoted q s = concat (map (\<lambda>c. if c = q then [c, c] else [c]) s) @ [q]"

lemma dequoteLoop_quoted:
  "deref rest \<noteq> q \<Longrightarrow> q \<noteq> NUL \<Longrightarrow> dequoteLoop q (quoted q s @ rest) out = Done (out @ s)"
  by (induction s arbitrary: out) (auto simp: quoted_def split: list.splits)

lemma dequoteLoop_unclosed: "q \<notin> set s \<Longrightarrow> dequoteLoop q s out = Undefined"
  by (induction s arbitrary: out) auto

subsection \<open>Hexadecimal\<close>

definition sqlite3HexToInt :: "int \<Rightarrow> u8" where
  "sqlite3HexToInt h = (let h' = h + 9 * (1 AND drop_bit 6 h) in word_of_int (h' AND 0xf))"

fun hexToBlobLoop :: "string \<Rightarrow> u8 list" where
  "hexToBlobLoop (a # b # z) =
     (push_bit 4 (sqlite3HexToInt (int (code a))) OR sqlite3HexToInt (int (code b)))
       # hexToBlobLoop z"
| "hexToBlobLoop _ = []"

text \<open>
  \<^verbatim>\<open>n\<close> is the length of the hex digits and the closing quote; the blob is followed by a zero
  byte.
\<close>

definition sqlite3HexToBlob :: "string \<Rightarrow> nat \<Rightarrow> bool list \<Rightarrow> u8 list option \<times> bool list" where
  "sqlite3HexToBlob z n ms =
     (case alloc ms of
        (False, ms') \<Rightarrow> (None, ms')
      | (True, ms') \<Rightarrow> (Some (hexToBlobLoop (take (n - 1) z) @ [0]), ms'))"

definition hex_digit :: "bool \<Rightarrow> nat \<Rightarrow> char" where
  "hex_digit up n = char_of (if n < 10 then 48 + n else if up then 55 + n else 87 + n)"

fun hex_of :: "bool \<Rightarrow> u8 list \<Rightarrow> string" where
  "hex_of up [] = []"
| "hex_of up (b # bs) = hex_digit up (unat b div 16) # hex_digit up (unat b mod 16) # hex_of up bs"

lemma sqlite3HexToInt_digit:
  assumes "n < 16"
  shows "sqlite3HexToInt (int (code (hex_digit up n))) = word_of_nat n"
proof -
  have "list_all (\<lambda>n. sqlite3HexToInt (int (code (hex_digit up n))) = word_of_nat n)
      [0,1,2,3,4,5,6,7,8,9,10,11,12,13,14,15]"
    by (cases up) (simp_all add: sqlite3HexToInt_def hex_digit_def Let_def)
  moreover have "n \<in> set [0,1,2,3,4,5,6,7,8,9,10,11,12,13,14,15]"
    using assms by (simp only: list.set insert_iff empty_iff) presburger
  ultimately show ?thesis unfolding list_all_iff by blast
qed

lemma nibbles: "push_bit 4 (word_of_nat (unat b div 16)) OR word_of_nat (unat b mod 16) = b" for b :: u8
proof -
  have "unat b div 16 = unat (drop_bit 4 b)" "unat b mod 16 = unat (take_bit 4 b)"
    by (simp_all add: drop_bit_eq_div unat_div take_bit_eq_mod unat_mod)
  then have "push_bit 4 (word_of_nat (unat b div 16)) OR word_of_nat (unat b mod 16) =
      push_bit 4 (drop_bit 4 b) OR take_bit 4 b"
    by simp
  also have "\<dots> = b" by (rule u8_bits_eqI) (simp add: bit_simps)
  finally show ?thesis .
qed

lemma high_nibble_less: "unat (b :: u8) div 16 < 16"
  using unsigned_less [of b, where 'a = nat] by simp

lemma hexToBlobLoop_hex: "hexToBlobLoop (hex_of up bs) = bs"
  by (induction bs) (simp_all add: sqlite3HexToInt_digit high_nibble_less nibbles)

lemma length_hex_of [simp]: "length (hex_of up bs) = 2 * length bs"
  by (induction bs) auto

subsection \<open>Properties\<close>

text \<open>
  Property C34.  \<^verbatim>\<open>sqlite3_stricmp\<close> is the lexicographic order on ASCII-folded strings: zero
  exactly for strings that agree up to the case of the letters, negative exactly for smaller
  ones, antisymmetric; \<^verbatim>\<open>sqlite3_strnicmp\<close> compares the first \<^verbatim>\<open>N\<close> characters the same way.
\<close>

theorem stricmp_is_folded_order:
  assumes "NUL \<notin> set a" and "NUL \<notin> set b" and "0 \<le> n"
  shows "(sqlite3_stricmp (Some a) (Some b) = 0 \<longleftrightarrow> map sqlite3Tolower a = map sqlite3Tolower b) \<and>
    (sqlite3_stricmp (Some a) (Some b) < 0 \<longleftrightarrow>
       (map sqlite3Tolower a, map sqlite3Tolower b) \<in> lexord {(x, y). x < y}) \<and>
    sqlite3_stricmp (Some b) (Some a) = - sqlite3_stricmp (Some a) (Some b) \<and>
    sqlite3_strnicmp (Some a) (Some b) n =
      sqlite3_stricmp (Some (take (nat n) a)) (Some (take (nat n) b))"
  using stricmpLoop_lexord [OF assms(1,2)] strnicmpLoop_take [OF assms(3,1,2)]
  by (simp add: sqlite3_stricmp_def sqlite3_strnicmp_def)

theorem stricmp_is_folded_order_witness:
  "sqlite3_stricmp (Some ''Select'') (Some ''sELECT'') = 0 \<and>
   sqlite3_strnicmp (Some ''selector'') (Some ''SELECTS'') 6 =
     sqlite3_stricmp (Some ''select'') (Some ''SELECT'')"
proof -
  have "map sqlite3Tolower ''Select'' = map sqlite3Tolower ''sELECT''"
    by (simp add: tolower_code)
  then show ?thesis
    using stricmp_is_folded_order [of "''Select''" "''sELECT''" 0]
      stricmp_is_folded_order [of "''selector''" "''SELECTS''" 6]
    by (simp add: NUL_def)
qed

text \<open>
  \<^verbatim>\<open>sqlite3Dequote\<close> undoes SQL quoting with any of the four quotes, whatever follows
  the closing quote, and returns the length; other strings are left alone with -1; an opening
  quote that is never closed sends it behind the terminator (the assertion is compiled out).
\<close>

theorem dequote_undoes_quoting:
  assumes "q \<in> {CHR 0x27, CHR 0x22, CHR 0x60, CHR ''[''}"
    and "close = (if q = CHR ''['' then CHR '']'' else q)" and "deref rest \<noteq> close"
  shows "sqlite3Dequote (Some (q # quoted close s @ rest)) = Done (int (length s), Some s) \<and>
    (close \<in> set s \<or> sqlite3Dequote (Some (q # s)) = Undefined)"
proof (intro conjI)
  have "close \<noteq> NUL" using assms(1,2) by (auto simp: NUL_def)
  then show "sqlite3Dequote (Some (q # quoted close s @ rest)) = Done (int (length s), Some s)"
    using assms dequoteLoop_quoted [of rest close s "[]"]
    by (auto simp: sqlite3Dequote_def Let_def)
  show "close \<in> set s \<or> sqlite3Dequote (Some (q # s)) = Undefined"
    using assms(1,2) dequoteLoop_unclosed [of close s "[]"]
    by (cases "close \<in> set s") (auto simp: sqlite3Dequote_def Let_def)
qed

theorem dequote_undoes_quoting_witness:
  "sqlite3Dequote (Some (CHR 0x27 # quoted (CHR 0x27) [CHR ''a'', CHR 0x27, CHR ''b''] @ '' x'')) =
     Done (3, Some [CHR ''a'', CHR 0x27, CHR ''b''])"
  using dequote_undoes_quoting [of "CHR 0x27" "CHR 0x27" "'' x''" "[CHR ''a'', CHR 0x27, CHR ''b'']"]
  by simp

text \<open>
  A blob literal in upper or lower case hex digits is read back byte by byte, with
  the terminating zero behind it.
\<close>

theorem hex_blob_roundtrip:
  "sqlite3HexToBlob (hex_of up bs @ CHR 0x27 # rest) (2 * length bs + 1) [] = (Some (bs @ [0]), [])"
  by (simp add: sqlite3HexToBlob_def hexToBlobLoop_hex)

end
