(* ===== verification/Numbers.thy ===== *)
theory Numbers
  imports Complex_Main Ctype
begin

text \<open>
  Arithmetic and number parsing of \<^verbatim>\<open>util.c\<close>: overflow-checked 64-bit arithmetic, \<^verbatim>\<open>LogEst\<close>
  logarithms, \<^verbatim>\<open>sqlite3Atoi64\<close> and its callers.  Signed integers are mathematical integers;
  a step that leaves the 64-bit range is undefined behaviour and makes the result
  \<^verbatim>\<open>Undefined\<close>.
\<close>

unbundle bit_operations_syntax

subsection \<open>Checked arithmetic\<close>

definition LARGEST_INT64 :: int where "LARGEST_INT64 = 0xffffffff OR push_bit 32 0x7fffffff"
definition SMALLEST_INT64 :: int where "SMALLEST_INT64 = - 1 - LARGEST_INT64"

lemma int64_limits [simp]: "LARGEST_INT64 = 2 ^ 63 - 1" "SMALLEST_INT64 = - (2 ^ 63)"
  by (simp_all add: LARGEST_INT64_def SMALLEST_INT64_def)

definition in_i64 :: "int \<Rightarrow> bool" where
  "in_i64 x \<longleftrightarrow> - (2 ^ 63) \<le> x \<and> x < 2 ^ 63"

definition checked :: "int \<Rightarrow> int exec" where
  "checked x = (if in_i64 x then Done x else Undefined)"

definition addTo :: "int \<Rightarrow> int \<Rightarrow> (int \<times> int) exec" where
  "addTo iA iB = exec_bind (checked (iA + iB)) (\<lambda>s. Done (0, s))"

text \<open>The result code and \<^verbatim>\<open>*pA\<close> afterwards.\<close>

definition sqlite3AddInt64 :: "int \<Rightarrow> int \<Rightarrow> (int \<times> int) exec" where
  "sqlite3AddInt64 iA iB =
     (if 0 \<le> iB
      then if 0 < iA
           then exec_bind (checked (LARGEST_INT64 - iA))
                  (\<lambda>d. if d < iB then Done (1, iA) else addTo iA iB)
           else addTo iA iB
      else if iA < 0
           then exec_bind (checked (iA + LARGEST_INT64)) (\<lambda>s.
                  exec_bind (checked (- s)) (\<lambda>m.
                    exec_bind (checked (iB + 1))
                      (\<lambda>b. if b < m then Done (1, iA) else addTo iA iB)))
           else addTo iA iB)"

definition sqlite3SubInt64 :: "int \<Rightarrow> int \<Rightarrow> (int \<times> int) exec" where
  "sqlite3SubInt64 pA iB =
     (if iB = SMALLEST_INT64
      then if 0 \<le> pA then Done (1, pA)
           else exec_bind (checked (pA - iB)) (\<lambda>s. Done (0, s))
      else exec_bind (checked (- iB)) (\<lambda>m. sqlite3AddInt64 pA m))"

definition TWOPOWER32 :: int where "TWOPOWER32 = push_bit 32 1"
definition TWOPOWER31 :: int where "TWOPOWER31 = push_bit 31 1"

text \<open>The part after the case distinction, with \<^verbatim>\<open>r\<close> the product of a high and a low half.\<close>

definition mulTail :: "int \<Rightarrow> int \<Rightarrow> int \<Rightarrow> int \<Rightarrow> (int \<times> int) exec" where
  "mulTail pA iA0 iB0 r =
     (if r < - TWOPOWER31 \<or> TWOPOWER31 \<le> r then Done (1, pA)
      else exec_bind (checked (r * TWOPOWER32)) (\<lambda>r'.
             exec_bind (checked (iA0 * iB0)) (\<lambda>lo.
               exec_bind (sqlite3AddInt64 r' lo) (\<lambda>(rc, s).
                 if rc \<noteq> 0 then Done (1, pA) else Done (0, s)))))"

definition sqlite3MulInt64 :: "int \<Rightarrow> int \<Rightarrow> (int \<times> int) exec" where
  "sqlite3MulInt64 iA iB =
     (let iA1 = iA sdiv TWOPOWER32; iA0 = iA smod TWOPOWER32;
          iB1 = iB sdiv TWOPOWER32; iB0 = iB smod TWOPOWER32
      in if iA1 = 0
         then if iB1 = 0
              then exec_bind (checked (iA * iB)) (\<lambda>p. Done (0, p))
              else exec_bind (checked (iA0 * iB1)) (\<lambda>r. mulTail iA iA0 iB0 r)
         else if iB1 = 0
              then exec_bind (checked (iA1 * iB0)) (\<lambda>r. mulTail iA iA0 iB0 r)
              else Done (1, iA))"

definition sqlite3AbsInt32 :: "int \<Rightarrow> int" where
  "sqlite3AbsInt32 x = (if 0 \<le> x then x else if x = - (2 ^ 31) then 0x7fffffff else - x)"

lemma sqlite3AddInt64_exact:
  assumes "in_i64 a" and "in_i64 b"
  shows "sqlite3AddInt64 a b = Done (if in_i64 (a + b) then (0, a + b) else (1, a))"
  using assms by (auto simp: sqlite3AddInt64_def addTo_def checked_def in_i64_def)

lemma sqlite3SubInt64_exact:
  assumes "in_i64 a" and "in_i64 b"
  shows "sqlite3SubInt64 a b = Done (if in_i64 (a - b) then (0, a - b) else (1, a))"
proof (cases "b = SMALLEST_INT64")
  case True
  with assms show ?thesis by (auto simp: sqlite3SubInt64_def checked_def in_i64_def)
next
  case False
  with assms(2) have "in_i64 (- b)" by (auto simp: in_i64_def)
  with False assms(1) show ?thesis
    by (simp add: sqlite3SubInt64_def checked_def sqlite3AddInt64_exact)
qed

text \<open>Division that truncates: quotient, remainder, and how big they are.\<close>

lemma halves:
  fixes a :: int
  assumes "in_i64 a"
  defines "h \<equiv> a sdiv 2 ^ 32" and "l \<equiv> a smod 2 ^ 32"
  shows "a = h * 2 ^ 32 + l" and "\<bar>l\<bar> < 2 ^ 32" and "\<bar>h\<bar> \<le> 2 ^ 31"
    and "0 \<le> a \<Longrightarrow> 0 \<le> h \<and> 0 \<le> l" and "a \<le> 0 \<Longrightarrow> h \<le> 0 \<and> l \<le> 0"
    and "h = 0 \<longleftrightarrow> \<bar>a\<bar> < 2 ^ 32"
proof -
  have pos: "h = a div 2 ^ 32 \<and> l = a mod 2 ^ 32" if "0 \<le> a"
    using that by (cases "a = 0") (simp_all add: h_def l_def signed_divide_int_def signed_modulo_int_def)
  have neg: "h = - ((- a) div 2 ^ 32) \<and> l = - ((- a) mod 2 ^ 32)" if "a < 0"
    using that by (simp add: h_def l_def signed_divide_int_def signed_modulo_int_def)
  have a: "- (2 ^ 63) \<le> a" "a < 2 ^ 63" using assms(1) by (auto simp: in_i64_def)
  consider "0 \<le> a" | "a < 0" by linarith
  then have "a = h * 2 ^ 32 + l \<and> \<bar>l\<bar> < 2 ^ 32 \<and> \<bar>h\<bar> \<le> 2 ^ 31 \<and> (0 \<le> a \<longrightarrow> 0 \<le> h \<and> 0 \<le> l) \<and>
    (a \<le> 0 \<longrightarrow> h \<le> 0 \<and> l \<le> 0) \<and> (h = 0 \<longleftrightarrow> \<bar>a\<bar> < 2 ^ 32)"
  proof cases
    case 1
    have "a div 2 ^ 32 * 2 ^ 32 + a mod 2 ^ 32 = a" "0 \<le> a mod 2 ^ 32" "a mod 2 ^ 32 < 2 ^ 32"
      by simp_all
    moreover have "0 \<le> a div 2 ^ 32" using 1 by simp
    ultimately show ?thesis using pos [OF 1] 1 a by (auto simp: abs_if)
  next
    case 2
    define b where "b = - a"
    have b: "a = - b" "0 < b" "b \<le> 2 ^ 63" using 2 a by (auto simp: b_def)
    define q r where "q = b div 2 ^ 32" and "r = b mod 2 ^ 32"
    have "q * 2 ^ 32 + r = b" "0 \<le> r" "r < 2 ^ 32"
      by (simp_all add: q_def r_def)
    moreover have "0 \<le> q" using b by (simp add: q_def)
    moreover have "h = - q" "l = - r" using neg [OF 2] by (simp_all add: b_def q_def r_def)
    ultimately show ?thesis using b by auto
  qed
  then show "a = h * 2 ^ 32 + l" "\<bar>l\<bar> < 2 ^ 32" "\<bar>h\<bar> \<le> 2 ^ 31" "0 \<le> a \<Longrightarrow> 0 \<le> h \<and> 0 \<le> l"
    "a \<le> 0 \<Longrightarrow> h \<le> 0 \<and> l \<le> 0" "h = 0 \<longleftrightarrow> \<bar>a\<bar> < 2 ^ 32"
    by blast+
qed

text \<open>One factor \<^verbatim>\<open>x\<close> is below \<^verbatim>\<open>2^32\<close>, the other one is \<^verbatim>\<open>h * 2^32 + l\<close> with \<^verbatim>\<open>h\<close> not 0.\<close>

lemma mulTail_exact:
  fixes x h l :: int
  assumes x: "\<bar>x\<bar> < 2 ^ 32" and h: "h \<noteq> 0" "\<bar>h\<bar> \<le> 2 ^ 31" and l: "\<bar>l\<bar> < 2 ^ 32"
    and sgn: "0 \<le> h \<and> 0 \<le> l \<or> h \<le> 0 \<and> l \<le> 0" and pA: "in_i64 pA"
  shows "exec_bind (checked (x * h)) (\<lambda>r. mulTail pA x l r) =
    Done (if in_i64 (x * (h * 2 ^ 32 + l)) then (0, x * (h * 2 ^ 32 + l)) else (1, pA))"
proof -
  have xl: "x * (h * 2 ^ 32 + l) = x * h * 2 ^ 32 + x * l" by (simp add: algebra_simps)
  have "\<bar>x * h\<bar> \<le> (2 ^ 32 - 1) * 2 ^ 31"
    using x h by (simp only: abs_mult) (intro mult_mono, auto)
  then have r: "in_i64 (x * h)" by (auto simp: in_i64_def abs_le_iff)
  have same: "0 \<le> x * h \<and> 0 \<le> x * l \<or> x * h \<le> 0 \<and> x * l \<le> 0"
    using sgn by (cases "0 \<le> x") (auto simp: zero_le_mult_iff mult_le_0_iff)
  show ?thesis
  proof (cases "x * h < - (2 ^ 31) \<or> 2 ^ 31 \<le> x * h")
    case True
    then have "\<not> in_i64 (x * (h * 2 ^ 32 + l))"
      using same unfolding xl in_i64_def by auto
    with True r show ?thesis
      by (auto simp: checked_def mulTail_def TWOPOWER31_def TWOPOWER32_def)
  next
    case False
    have "\<bar>x\<bar> \<le> \<bar>x * h\<bar>" using h(1) mult_left_mono [of 1 "\<bar>h\<bar>" "\<bar>x\<bar>"] by (simp add: abs_mult)
    with False have x31: "\<bar>x\<bar> \<le> 2 ^ 31" by linarith
    have "\<bar>x * l\<bar> \<le> 2 ^ 31 * (2 ^ 32 - 1)"
      using x31 l by (simp only: abs_mult) (intro mult_mono, auto)
    then have lo: "in_i64 (x * l)" by (auto simp: in_i64_def abs_le_iff)
    have "in_i64 (m * 2 ^ 32)" if "\<not> (m < - (2 ^ 31) \<or> 2 ^ 31 \<le> m)" for m :: int
      using that by (simp add: in_i64_def)
    from this [OF False] have hi: "in_i64 (x * h * 2 ^ 32)" .
    show ?thesis
      unfolding xl using False r lo hi sqlite3AddInt64_exact [OF hi lo]
      by (auto simp: checked_def mulTail_def TWOPOWER31_def TWOPOWER32_def)
  qed
qed

lemma sqlite3MulInt64_exact:
  assumes "in_i64 a" and "in_i64 b"
  shows "sqlite3MulInt64 a b =
    (if in_i64 (a * b) then Done (0, a * b)
     else if \<bar>a\<bar> < 2 ^ 32 \<and> \<bar>b\<bar> < 2 ^ 32 then Undefined
     else Done (1, a))"
proof -
  define a1 a0 b1 b0 where d: "a1 = a sdiv 2 ^ 32" "a0 = a smod 2 ^ 32" "b1 = b sdiv 2 ^ 32"
    "b0 = b smod 2 ^ 32"
  note A = halves [OF assms(1), folded d] and B = halves [OF assms(2), folded d]
  have run: "sqlite3MulInt64 a b =
      (if a1 = 0 then if b1 = 0 then exec_bind (checked (a * b)) (\<lambda>p. Done (0, p))
         else exec_bind (checked (a0 * b1)) (\<lambda>r. mulTail a a0 b0 r)
       else if b1 = 0 then exec_bind (checked (a1 * b0)) (\<lambda>r. mulTail a a0 b0 r)
       else Done (1, a))"
    by (simp add: sqlite3MulInt64_def TWOPOWER32_def d Let_def)
  consider "a1 = 0" "b1 = 0" | "a1 = 0" "b1 \<noteq> 0" | "a1 \<noteq> 0" "b1 = 0" | "a1 \<noteq> 0" "b1 \<noteq> 0" by blast
  then show ?thesis
  proof cases
    case 1
    with A(6) B(6) show ?thesis by (simp add: run checked_def)
  next
    case 2
    have "sqlite3MulInt64 a b = exec_bind (checked (a0 * b1)) (\<lambda>r. mulTail a a0 b0 r)"
      using 2 by (simp only: run if_True if_False simp_thms)
    moreover have "0 \<le> b1 \<and> 0 \<le> b0 \<or> b1 \<le> 0 \<and> b0 \<le> 0" using B(4,5) by linarith
    moreover have "a0 * (b1 * 2 ^ 32 + b0) = a * b" using A(1) B(1) 2 by simp
    ultimately have "sqlite3MulInt64 a b = Done (if in_i64 (a * b) then (0, a * b) else (1, a))"
      using mulTail_exact [OF A(2) 2(2) B(3) B(2) _ assms(1)] by (simp only:)
    with 2 A(6) B(6) show ?thesis by simp
  next
    case 3
    have b: "b = b0" using B(1) 3 by simp
    have swap: "mulTail a a0 b0 r = mulTail a b0 a0 r" for r
      by (simp add: mulTail_def mult.commute)
    have "sqlite3MulInt64 a b = exec_bind (checked (b0 * a1)) (\<lambda>r. mulTail a b0 a0 r)"
      using 3 by (simp only: run swap mult.commute [of a1 b0] if_True if_False simp_thms)
    moreover have "0 \<le> a1 \<and> 0 \<le> a0 \<or> a1 \<le> 0 \<and> a0 \<le> 0" using A(4,5) by linarith
    moreover have "b0 * (a1 * 2 ^ 32 + a0) = a * b" using A(1) b by simp
    ultimately have "sqlite3MulInt64 a b = Done (if in_i64 (a * b) then (0, a * b) else (1, a))"
      using mulTail_exact [OF B(2) 3(1) A(3) A(2) _ assms(1)] by (simp only:)
    with 3 A(6) B(6) show ?thesis by simp
  next
    case 4
    then have "2 ^ 32 \<le> \<bar>a\<bar>" "2 ^ 32 \<le> \<bar>b\<bar>" using A(6) B(6) by auto
    then have "2 ^ 32 * 2 ^ 32 \<le> \<bar>a * b\<bar>" by (simp only: abs_mult) (intro mult_mono, auto)
    then have "\<not> in_i64 (a * b)" by (auto simp: in_i64_def)
    with 4 A(6) B(6) show ?thesis by (simp add: run)
  qed
qed

subsection \<open>Logarithms\<close>

text \<open>
  \<^verbatim>\<open>LogEst\<close> values are ten times a base-2 logarithm, in 16 bits.  The argument of
  \<^verbatim>\<open>sqlite3LogEst\<close> is an unsigned 64-bit integer; the first loop is entered with 2 to 7 only.
\<close>

definition logEstAddTable :: "int list" where
  "logEstAddTable =
     [10, 10, 9, 9, 8, 8, 7, 7, 7, 6, 6, 6, 5, 5, 5, 4, 4, 4, 4, 3, 3, 3, 3, 3, 3,
      2, 2, 2, 2, 2, 2, 2]"

definition sqlite3LogEstAdd :: "int \<Rightarrow> int \<Rightarrow> int" where
  "sqlite3LogEstAdd a b =
     (if b \<le> a
      then if b + 49 < a then a
           else if b + 31 < a then a + 1
           else a + logEstAddTable ! nat (a - b)
      else if a + 49 < b then b
           else if a + 31 < b then b + 1
           else b + logEstAddTable ! nat (b - a))"

function logEstSmall :: "nat \<Rightarrow> int \<Rightarrow> nat \<times> int" where
  "logEstSmall x y = (if 0 < x \<and> x < 8 then logEstSmall (x * 2) (y - 10) else (x, y))"
  by pat_completeness auto
termination by (relation "measure (\<lambda>(x, y). 8 - x)") auto

function logEstBy4 :: "nat \<Rightarrow> int \<Rightarrow> nat \<times> int" where
  "logEstBy4 x y = (if 255 < x then logEstBy4 (drop_bit 4 x) (y + 40) else (x, y))"
  by pat_completeness auto
termination by (relation "measure (\<lambda>(x, y). x)") (auto simp: drop_bit_eq_div)

function logEstBy1 :: "nat \<Rightarrow> int \<Rightarrow> nat \<times> int" where
  "logEstBy1 x y = (if 15 < x then logEstBy1 (drop_bit 1 x) (y + 10) else (x, y))"
  by pat_completeness auto
termination by (relation "measure (\<lambda>(x, y). x)") (auto simp: drop_bit_eq_div)

declare logEstSmall.simps [simp del] logEstBy4.simps [simp del] logEstBy1.simps [simp del]

definition logEstTable :: "int list" where
  "logEstTable = [0, 2, 3, 5, 6, 7, 8, 9]"

definition sqlite3LogEst :: "nat \<Rightarrow> int" where
  "sqlite3LogEst x0 =
     (if x0 < 2 then 0
      else let (x, y) = (if x0 < 8 then logEstSmall x0 40
                         else case logEstBy4 x0 40 of (x, y) \<Rightarrow> logEstBy1 x y)
           in logEstTable ! (x AND 7) + y - 10)"

definition sqlite3LogEstToInt :: "int \<Rightarrow> nat" where
  "sqlite3LogEstToInt x0 =
     (if x0 < 10 then 1
      else let n0 = nat (x0 mod 10); x = x0 div 10;
               n = (if 5 \<le> n0 then n0 - 2 else if 1 \<le> n0 then n0 - 1 else n0)
           in if 3 \<le> x
              then if 60 < x then 2 ^ 63 - 1 else push_bit (nat (x - 3)) (n + 8)
              else drop_bit (nat (3 - x)) (n + 8))"

lemma logEstBy4_shift:
  "8 \<le> x \<Longrightarrow> \<exists>j. logEstBy4 x y = (x div 2 ^ (4 * j), y + 40 * int j) \<and>
     8 \<le> x div 2 ^ (4 * j) \<and> x div 2 ^ (4 * j) \<le> 255"
proof (induction x y rule: logEstBy4.induct)
  case (1 x y)
  show ?case
  proof (cases "255 < x")
    case False
    with "1.prems" show ?thesis by (intro exI [of _ 0]) (subst logEstBy4.simps, simp)
  next
    case True
    then have "8 \<le> drop_bit 4 x" by (simp add: drop_bit_eq_div)
    from "1.IH" [OF True this] obtain j where
      j: "logEstBy4 (drop_bit 4 x) (y + 40) = (drop_bit 4 x div 2 ^ (4 * j), y + 40 + 40 * int j)"
        "8 \<le> drop_bit 4 x div 2 ^ (4 * j)" "drop_bit 4 x div 2 ^ (4 * j) \<le> 255" by blast
    have "drop_bit 4 x div 2 ^ (4 * j) = x div 2 ^ (4 * Suc j)"
      by (simp add: drop_bit_eq_div div_mult2_eq [symmetric] power_add)
    with j True show ?thesis
      by (intro exI [of _ "Suc j"]) (subst logEstBy4.simps, simp)
  qed
qed

lemma logEstBy1_shift:
  "8 \<le> x \<Longrightarrow> \<exists>j. logEstBy1 x y = (x div 2 ^ j, y + 10 * int j) \<and>
     8 \<le> x div 2 ^ j \<and> x div 2 ^ j \<le> 15"
proof (induction x y rule: logEstBy1.induct)
  case (1 x y)
  show ?case
  proof (cases "15 < x")
    case False
    with "1.prems" show ?thesis by (intro exI [of _ 0]) (subst logEstBy1.simps, simp)
  next
    case True
    then have "8 \<le> drop_bit 1 x" by (simp add: drop_bit_eq_div)
    from "1.IH" [OF True this] obtain j where
      j: "logEstBy1 (drop_bit 1 x) (y + 10) = (drop_bit 1 x div 2 ^ j, y + 10 + 10 * int j)"
        "8 \<le> drop_bit 1 x div 2 ^ j" "drop_bit 1 x div 2 ^ j \<le> 15" by blast
    have "drop_bit 1 x div 2 ^ j = x div 2 ^ Suc j"
      by (simp add: drop_bit_eq_div div_mult2_eq [symmetric])
    with j True show ?thesis
      by (intro exI [of _ "Suc j"]) (subst logEstBy1.simps, simp)
  qed
qed

lemma and_7: "n AND 7 = n mod 8" for n :: nat
  using take_bit_eq_mask [of 3 n] by (simp add: take_bit_eq_mod mask_eq_exp_minus_1)

text \<open>From 8 on: the leading four bits decide, the position of the first one counts ten.\<close>

lemma sqlite3LogEst_big:
  assumes "8 \<le> x"
  obtains s where "8 \<le> x div 2 ^ s" and "x div 2 ^ s \<le> 15"
    and "sqlite3LogEst x = logEstTable ! (x div 2 ^ s - 8) + 10 * int s + 30"
proof -
  obtain i where i: "logEstBy4 x 40 = (x div 2 ^ (4 * i), 40 + 40 * int i)" "8 \<le> x div 2 ^ (4 * i)"
    using logEstBy4_shift [OF assms, of 40] by blast
  obtain j where j: "logEstBy1 (x div 2 ^ (4 * i)) (40 + 40 * int i) =
        (x div 2 ^ (4 * i) div 2 ^ j, 40 + 40 * int i + 10 * int j)"
      "8 \<le> x div 2 ^ (4 * i) div 2 ^ j" "x div 2 ^ (4 * i) div 2 ^ j \<le> 15"
    using logEstBy1_shift [OF i(2)] by blast
  have eq: "x div 2 ^ (4 * i) div 2 ^ j = x div 2 ^ (4 * i + j)"
    by (simp add: div_mult2_eq [symmetric] power_add)
  have mod: "m mod 8 = m - 8" if "8 \<le> m" "m \<le> 15" for m :: nat
    using that by (simp add: mod_if)
  show ?thesis
  proof (rule that [of "4 * i + j"])
    show "8 \<le> x div 2 ^ (4 * i + j)" "x div 2 ^ (4 * i + j) \<le> 15" using j(2,3) by (simp_all add: eq)
    then show "sqlite3LogEst x = logEstTable ! (x div 2 ^ (4 * i + j) - 8) + 10 * int (4 * i + j) + 30"
      using assms i(1) j(1) by (simp add: sqlite3LogEst_def and_7 mod eq)
  qed
qed

lemma sqlite3LogEst_exp:
  assumes "2 ^ k \<le> x" and "x < 2 ^ (k + 1)" and "3 \<le> k"
  shows "sqlite3LogEst x = logEstTable ! (x div 2 ^ (k - 3) - 8) + 10 * int k"
    and "8 \<le> x div 2 ^ (k - 3)" and "x div 2 ^ (k - 3) \<le> 15"
proof -
  have "(2::nat) ^ 3 \<le> 2 ^ k" using assms(3) by (intro power_increasing) auto
  with assms(1) have "8 \<le> x" by simp
  then obtain s where s: "8 \<le> x div 2 ^ s" "x div 2 ^ s \<le> 15"
      "sqlite3LogEst x = logEstTable ! (x div 2 ^ s - 8) + 10 * int s + 30"
    by (rule sqlite3LogEst_big)
  have low: "2 ^ (s + 3) \<le> x"
    using s(1) by (simp add: power_add less_eq_div_iff_mult_less_eq)
  have "x div 2 ^ s < 16" using s(2) by simp
  then have high: "x < 2 ^ (s + 4)" by (simp add: power_add div_less_iff_less_mult mult.commute)
  have "2 ^ (s + 3) < (2::nat) ^ (k + 1)" by (rule le_less_trans [OF low assms(2)])
  then have "s + 3 < k + 1" using power_less_imp_less_exp [of "2::nat" "s + 3" "k + 1"] by simp
  moreover have "2 ^ k < (2::nat) ^ (s + 4)" by (rule le_less_trans [OF assms(1) high])
  then have "k < s + 4" using power_less_imp_less_exp [of "2::nat" k "s + 4"] by simp
  ultimately have "k = s + 3" by simp
  with s show "sqlite3LogEst x = logEstTable ! (x div 2 ^ (k - 3) - 8) + 10 * int k"
    "8 \<le> x div 2 ^ (k - 3)" "x div 2 ^ (k - 3) \<le> 15" by simp_all
qed

lemma eight_cases: "n < (8::nat) \<Longrightarrow> n \<in> {0, 1, 2, 3, 4, 5, 6, 7}"
  by (simp only: insert_iff empty_iff) presburger

lemma logEstTable_range: "n < 8 \<Longrightarrow> 0 \<le> logEstTable ! n \<and> logEstTable ! n \<le> 9"
  using eight_cases [of n] by (auto simp: logEstTable_def)

lemma logEstTable_mono: "m \<le> n \<Longrightarrow> n < 8 \<Longrightarrow> logEstTable ! m \<le> logEstTable ! n"
  using eight_cases [of m] eight_cases [of n] by (auto simp: logEstTable_def)

lemma sqlite3LogEst_small:
  "sqlite3LogEst 0 = 0" "sqlite3LogEst 1 = 0" "sqlite3LogEst 2 = 10" "sqlite3LogEst 3 = 16"
  "sqlite3LogEst 4 = 20" "sqlite3LogEst 5 = 23" "sqlite3LogEst 6 = 26" "sqlite3LogEst 7 = 28"
  by code_simp+

lemma sqlite3LogEst_between:
  assumes "2 ^ k \<le> x" and "x < 2 ^ (k + 1)"
  shows "10 * int k \<le> sqlite3LogEst x \<and> sqlite3LogEst x \<le> 10 * int k + 9"
proof (cases "3 \<le> k")
  case True
  note e = sqlite3LogEst_exp [OF assms True]
  then have "x div 2 ^ (k - 3) - 8 < 8" by simp
  with e(1) logEstTable_range show ?thesis by (metis add_increasing2 add.commute add_right_mono le_add_same_cancel2)
next
  case False
  then have "k = 0 \<or> k = 1 \<or> k = 2" by arith
  moreover from this assms have "x < 8" by auto
  ultimately show ?thesis
    using assms eight_cases [of x] by (auto simp: sqlite3LogEst_small sqlite3LogEst_small(2) [unfolded One_nat_def])
qed

lemma log_exists: "0 < x \<Longrightarrow> \<exists>k. 2 ^ k \<le> x \<and> x < 2 ^ (k + 1)" for x :: nat
  using ex_power_ivl1 [of 2 x] by simp

lemma log_bounds:
  fixes x a b :: nat
  shows "2 ^ a < x ^ 10 \<Longrightarrow> real a < 10 * log 2 (real x)" "0 < x \<Longrightarrow> x ^ 10 < 2 ^ b \<Longrightarrow> 10 * log 2 (real x) < real b"
proof -
  have ten: "log 2 (real x ^ 10) = 10 * log 2 (real x)" if "0 < x" using that log_nat_power [of "real x" 2 10] by simp
  show "real a < 10 * log 2 (real x)" if l: "2 ^ a < x ^ 10"
  proof -
    have "0 < x" using l by (cases x) auto
    moreover have "(2::real) ^ a < real x ^ 10" using l by (metis of_nat_less_iff of_nat_numeral of_nat_power)
    ultimately show ?thesis using less_log_of_power [of 2 a "real x ^ 10"] ten by simp
  qed
  show "10 * log 2 (real x) < real b" if "0 < x" "x ^ 10 < 2 ^ b"
  proof -
    have "real x ^ 10 < (2::real) ^ b" using that(2) by (metis of_nat_less_iff of_nat_numeral of_nat_power)
    then show ?thesis using that(1) ten log_less_iff [of 2 "real x ^ 10" "real b"] by (simp add: powr_realpow)
  qed
qed

text \<open>The estimate is less than 1 above and less than 2 below ten times the binary logarithm.\<close>

lemma logEst_cases:
  assumes "8 \<le> m" "m \<le> 15"
  shows "2 ^ (nat (logEstTable ! (m - 8)) + 29) < m ^ 10 \<and> (m + 1) ^ 10 < (2::nat) ^ (nat (logEstTable ! (m - 8)) + 32) \<and>
    0 \<le> logEstTable ! (m - 8)"
proof -
  have "m = 8 \<or> m = 9 \<or> m = 10 \<or> m = 11 \<or> m = 12 \<or> m = 13 \<or> m = 14 \<or> m = 15" using assms by arith
  then show ?thesis by (elim disjE) (simp_all add: logEstTable_def)
qed

lemma sqlite3LogEst_log:
  assumes "0 < x"
  shows "10 * log 2 (real x) - 2 < real_of_int (sqlite3LogEst x)" "real_of_int (sqlite3LogEst x) < 10 * log 2 (real x) + 1"
proof (atomize (full), cases "8 \<le> x")
  case False
  then consider "x = 1" | "x = 2" | "x = 3" | "x = 4" | "x = 5" | "x = 6" | "x = 7" using assms by linarith
  then show "10 * log 2 (real x) - 2 < real_of_int (sqlite3LogEst x) \<and> real_of_int (sqlite3LogEst x) < 10 * log 2 (real x) + 1"
  proof cases
    case 1
    then show ?thesis using sqlite3LogEst_small(2) by simp
  next
    case 2
    then show ?thesis by (simp add: sqlite3LogEst_small)
  next
    case 3
    then show ?thesis using log_bounds(1) [of 15 3] log_bounds(2) [of 3 18] by (simp add: sqlite3LogEst_small)
  next
    case 4
    then show ?thesis using log_bounds(1) [of 19 4] log_bounds(2) [of 4 22] by (simp add: sqlite3LogEst_small)
  next
    case 5
    then show ?thesis using log_bounds(1) [of 22 5] log_bounds(2) [of 5 25] by (simp add: sqlite3LogEst_small)
  next
    case 6
    then show ?thesis using log_bounds(1) [of 25 6] log_bounds(2) [of 6 28] by (simp add: sqlite3LogEst_small)
  next
    case 7
    then show ?thesis using log_bounds(1) [of 27 7] log_bounds(2) [of 7 30] by (simp add: sqlite3LogEst_small)
  qed
next
  case True
  obtain k where k: "2 ^ k \<le> x" "x < 2 ^ (k + 1)" using ex_power_ivl1 [of 2 x] assms by (auto simp: numeral_2_eq_2)
  have three: "3 \<le> k"
  proof (rule ccontr)
    assume "\<not> 3 \<le> k"
    then have "(2::nat) ^ (k + 1) \<le> 2 ^ 3" by (intro power_increasing) auto
    then show False using k True by simp
  qed
  define s m where "s = k - 3" and "m = x div 2 ^ s"
  have ks: "k = s + 3" using three by (simp add: s_def)
  have m: "8 \<le> m" "m \<le> 15"
  proof -
    have "8 * 2 ^ s \<le> x" "x < 16 * 2 ^ s" using k by (simp_all add: ks power_add)
    then show "8 \<le> m" "m \<le> 15" using less_eq_div_iff_mult_less_eq [of "2 ^ s" 8 x] div_less_iff_less_mult [of "2 ^ s" x 16] by (simp_all add: m_def)
  qed
  have e: "sqlite3LogEst x = logEstTable ! (m - 8) + 10 * int k"
    using sqlite3LogEst_exp [OF k three] by (simp add: m_def s_def)
  define t where "t = nat (logEstTable ! (m - 8))"
  note c = logEst_cases [OF m, folded t_def]
  have L: "sqlite3LogEst x = int (t + 10 * s + 30)" using c by (simp add: e t_def ks)
  have "m * 2 ^ s \<le> x" "x < (m + 1) * 2 ^ s"
    by (simp_all add: m_def) (metis add.commute div_mult_mod_eq mod_less_divisor mult.commute mult_Suc_right nat_add_left_cancel_less zero_less_numeral zero_less_power)
  then have "(m * 2 ^ s) ^ 10 \<le> x ^ 10" "x ^ 10 < ((m + 1) * 2 ^ s) ^ 10"
    by (intro power_mono power_strict_mono; simp)+
  then have "m ^ 10 * 2 ^ (10 * s) \<le> x ^ 10" "x ^ 10 < (m + 1) ^ 10 * 2 ^ (10 * s)"
    unfolding power_mult_distrib power_mult [symmetric] by (simp_all only: mult.commute [of s 10])
  moreover have "2 ^ (t + 29) * 2 ^ (10 * s) < m ^ 10 * 2 ^ (10 * s)" "(m + 1) ^ 10 * 2 ^ (10 * s) < 2 ^ (t + 32) * (2::nat) ^ (10 * s)"
    using c by simp_all
  ultimately have "2 ^ (t + 29 + 10 * s) < x ^ 10" "x ^ 10 < 2 ^ (t + 32 + 10 * s)"
    unfolding power_add by linarith+
  from log_bounds(1) [OF this(1)] log_bounds(2) [OF assms this(2)]
  show "10 * log 2 (real x) - 2 < real_of_int (sqlite3LogEst x) \<and> real_of_int (sqlite3LogEst x) < 10 * log 2 (real x) + 1"
    by (simp add: L)
qed

lemma sqlite3LogEst_power: "sqlite3LogEst (2 ^ k) = 10 * int k"
proof (cases "3 \<le> k")
  case True
  have "(2::nat) ^ k div 2 ^ (k - 3) = 8"
  proof -
    have "(2::nat) ^ k = 2 ^ (k - 3) * 8" using True power_add [of "2::nat" "k - 3" 3] by simp
    then show ?thesis by simp
  qed
  then show ?thesis using sqlite3LogEst_exp [of k "2 ^ k"] True by (simp add: logEstTable_def)
next
  case False
  then consider "k = 0" | "k = 1" | "k = 2" by linarith
  then show ?thesis by cases (simp_all add: sqlite3LogEst_small sqlite3LogEst_small(2) [unfolded One_nat_def])
qed

lemma sqlite3LogEst_mono: "x \<le> x' \<Longrightarrow> sqlite3LogEst x \<le> sqlite3LogEst x'"
proof -
  assume le: "x \<le> x'"
  show ?thesis
  proof (cases "x = 0")
    case True
    show ?thesis
    proof (cases "x' = 0")
      case False
      then obtain k where "2 ^ k \<le> x' \<and> x' < 2 ^ (k + 1)" using log_exists by blast
      with sqlite3LogEst_between [of k x'] True show ?thesis by (simp add: sqlite3LogEst_small)
    qed (use True in simp)
  next
    case False
    obtain k where k: "2 ^ k \<le> x" "x < 2 ^ (k + 1)" using log_exists False by blast
    obtain k' where k': "2 ^ k' \<le> x'" "x' < 2 ^ (k' + 1)" using log_exists [of x'] le False by auto
    have "2 ^ k < (2::nat) ^ (k' + 1)" using k k' le by simp
    then have "k \<le> k'" using power_less_imp_less_exp [of "2::nat" k "k' + 1"] by simp
    then consider "k < k'" | "k = k'" "3 \<le> k" | "k = k'" "k < 3" by linarith
    then show ?thesis
    proof cases
      case 1
      with sqlite3LogEst_between [OF k] sqlite3LogEst_between [OF k'] show ?thesis by simp
    next
      case 2
      note e = sqlite3LogEst_exp [OF k 2(2)] and e' = sqlite3LogEst_exp [OF k' 2(2) [unfolded 2(1)]]
      have "x div 2 ^ (k - 3) - 8 \<le> x' div 2 ^ (k - 3) - 8"
        by (intro diff_le_mono div_le_mono le)
      moreover have "x' div 2 ^ (k - 3) - 8 < 8" using e'(2,3) 2(1) by simp
      ultimately have "logEstTable ! (x div 2 ^ (k - 3) - 8) \<le> logEstTable ! (x' div 2 ^ (k - 3) - 8)"
        by (rule logEstTable_mono)
      with e(1) e'(1) 2(1) show ?thesis by simp
    next
      case 3
      then have "k = 0 \<or> k = 1 \<or> k = 2" by arith
      with k k' 3 have "x < 8" "x' < 8" by auto
      with le eight_cases [of x] eight_cases [of x'] show ?thesis by (auto simp: sqlite3LogEst_small sqlite3LogEst_small(2) [unfolded One_nat_def])
    qed
  qed
qed

lemma sqlite3LogEst_of_int:
  assumes "3 \<le> q" and "q \<le> 60" and "r < 10"
  shows "sqlite3LogEst (sqlite3LogEstToInt (10 * int q + int r)) =
    10 * int q + (if r = 1 then 0 else if r = 4 then 5 else int r)"
proof -
  let ?n = "if 5 \<le> r then r - 2 else if 1 \<le> r then r - 1 else r"
  have n: "?n < 8" using assms(3) by auto
  have d: "(10 * int q + int r) mod 10 = int r" "(10 * int q + int r) div 10 = int q"
    using assms(3) by simp_all
  have q: "nat (int q - 3) = q - 3" by (simp add: nat_diff_distrib')
  have v: "sqlite3LogEstToInt (10 * int q + int r) = (?n + 8) * 2 ^ (q - 3)"
    using assms d q by (simp add: sqlite3LogEstToInt_def Let_def push_bit_eq_mult)
  have p: "(2::nat) ^ q = 8 * 2 ^ (q - 3)"
    using power_add [of "2::nat" 3 "q - 3"] assms(1) by simp
  have "2 ^ q \<le> (?n + 8) * 2 ^ (q - 3)" "(?n + 8) * 2 ^ (q - 3) < 2 ^ (q + 1)"
    using n by (simp_all add: p)
  from sqlite3LogEst_exp [OF this assms(1)]
  have "sqlite3LogEst ((?n + 8) * 2 ^ (q - 3)) = logEstTable ! ?n + 10 * int q" by simp
  moreover have "logEstTable ! ?n = (if r = 1 then 0 else if r = 4 then 5 else int r)"
  proof -
    have "r \<in> {0,1,2,3,4,5,6,7,8,9}" using assms(3) by (simp only: insert_iff empty_iff) presburger
    then show ?thesis by (auto simp: logEstTable_def)
  qed
  ultimately show ?thesis by (simp only: v)
qed

lemma sqlite3LogEstAdd_bounds:
  "sqlite3LogEstAdd a b = sqlite3LogEstAdd b a \<and> max a b \<le> sqlite3LogEstAdd a b \<and>
   sqlite3LogEstAdd a b \<le> max a b + 10 \<and> sqlite3LogEstAdd a a = a + 10"
proof -
  have t: "0 \<le> logEstAddTable ! n \<and> logEstAddTable ! n \<le> 10" if "n < 32" for n
  proof -
    have "list_all (\<lambda>v. 0 \<le> v \<and> v \<le> 10) logEstAddTable" "length logEstAddTable = 32"
      by (simp_all add: logEstAddTable_def)
    with that show ?thesis unfolding list_all_length by auto
  qed
  have zero: "logEstAddTable ! 0 = 10" by (simp add: logEstAddTable_def)
  have swap: "sqlite3LogEstAdd a b = sqlite3LogEstAdd b a"
    by (cases "a = b") (auto simp: sqlite3LogEstAdd_def)
  have upper: "x \<le> sqlite3LogEstAdd x y \<and> sqlite3LogEstAdd x y \<le> x + 10" if "y \<le> x" for x y
  proof -
    consider "y + 49 < x" | "\<not> y + 49 < x" "y + 31 < x" | "\<not> y + 49 < x" "\<not> y + 31 < x" by blast
    then show ?thesis
    proof cases
      case 3
      then have "nat (x - y) < 32" by linarith
      then have "0 \<le> logEstAddTable ! nat (x - y) \<and> logEstAddTable ! nat (x - y) \<le> 10" by (rule t)
      with 3 that show ?thesis by (simp only: sqlite3LogEstAdd_def if_True if_False) linarith
    qed (simp_all only: sqlite3LogEstAdd_def that if_True if_False, linarith+)
  qed
  have "sqlite3LogEstAdd a a = a + 10" by (simp add: sqlite3LogEstAdd_def zero)
  with swap upper [of b a] upper [of a b] show ?thesis by (cases "b \<le> a") (auto simp: max_def)
qed

subsection \<open>Reading integers\<close>

definition SQLITE_UTF8 :: nat where "SQLITE_UTF8 = 1"
definition SQLITE_UTF16LE :: nat where "SQLITE_UTF16LE = 2"
definition SQLITE_UTF16BE :: nat where "SQLITE_UTF16BE = 3"

text \<open>
  Pointers into the text are positions; a character of 16 bits takes two.  \<^verbatim>\<open>skipFrom\<close> is the
  loop \<^verbatim>\<open>while( zNum<zEnd && P(*zNum) ) zNum+=incr\<close>, with \<^verbatim>\<open>incr\<close> 1 or 2.
\<close>

function skipFrom :: "(char \<Rightarrow> bool) \<Rightarrow> string \<Rightarrow> nat \<Rightarrow> nat \<Rightarrow> nat \<Rightarrow> nat" where
  "skipFrom P z zEnd incr p =
     (if 0 < incr \<and> p < zEnd \<and> P (z ! p) then skipFrom P z zEnd incr (p + incr) else p)"
  by pat_completeness auto
termination by (relation "measure (\<lambda>(P, z, zEnd, incr, p). zEnd - p)") auto

text \<open>The digits loop: \<^verbatim>\<open>i\<close>, \<^verbatim>\<open>u\<close> (an unsigned 64-bit integer) and the last character read.\<close>

function atoiDigits ::
  "string \<Rightarrow> nat \<Rightarrow> nat \<Rightarrow> nat \<Rightarrow> nat \<Rightarrow> nat \<Rightarrow> nat \<Rightarrow> nat \<times> nat \<times> nat" where
  "atoiDigits z p zEnd incr i u c =
     (if 0 < incr \<and> p + i < zEnd
      then (let c' = code (z ! (p + i))
            in if 48 \<le> c' \<and> c' \<le> 57
               then atoiDigits z p zEnd incr (i + incr) ((u * 10 + c' - 48) mod 2 ^ 64) c'
               else (i, u, c'))
      else (i, u, c))"
  by pat_completeness auto
termination by (relation "measure (\<lambda>(z, p, zEnd, incr, i, u, c). zEnd - i)") auto

declare skipFrom.simps [simp del] atoiDigits.simps [simp del]

text \<open>The comparison loop of \<^verbatim>\<open>compare2pow63\<close>, over the digits of \<^verbatim>\<open>pow63\<close> that are left.\<close>

fun pow63Loop :: "string \<Rightarrow> nat \<Rightarrow> nat \<Rightarrow> string \<Rightarrow> nat \<Rightarrow> int" where
  "pow63Loop z p incr [] i = 0"
| "pow63Loop z p incr (q # qs) i =
     (let c = (int (code (z ! (p + i * incr))) - int (code q)) * 10
      in if c = 0 then pow63Loop z p incr qs (i + 1) else c)"

definition compare2pow63 :: "string \<Rightarrow> nat \<Rightarrow> nat \<Rightarrow> int" where
  "compare2pow63 z p incr =
     (let c = pow63Loop z p incr ''922337203685477580'' 0
      in if c = 0 then int (code (z ! (p + 18 * incr))) - 56 else c)"

text \<open>The result code and \<^verbatim>\<open>*pNum\<close>; \<^verbatim>\<open>atoiConclude\<close> is the part from the digits loop on.\<close>

definition atoiConclude ::
  "string \<Rightarrow> nat \<Rightarrow> nat \<Rightarrow> bool \<Rightarrow> nat \<Rightarrow> nat \<Rightarrow> bool \<Rightarrow> int \<times> int"
where
  "atoiConclude z zEnd incr neg p2 p3 nonNum =
     (case atoiDigits z p3 zEnd incr 0 0 0 of (i, u, c) \<Rightarrow>
        let num = (if LARGEST_INT64 < int u then (if neg then SMALLEST_INT64 else LARGEST_INT64)
                   else if neg then - int u else int u)
        in if (c \<noteq> 0 \<and> p3 + i < zEnd) \<or> (i = 0 \<and> p2 = p3) \<or> 19 * incr < i \<or> nonNum
           then (1, num)
           else if i < 19 * incr then (0, num)
           else let d = compare2pow63 z p3 incr
                in (if d < 0 then 0 else if 0 < d then 1 else if neg then 0 else 2, num))"

definition sqlite3Atoi64 :: "string \<Rightarrow> nat \<Rightarrow> nat \<Rightarrow> int \<times> int" where
  "sqlite3Atoi64 z len enc =
     (let utf8 = (enc = SQLITE_UTF8);
          incr = (if utf8 then 1 else 2);
          i0 = skipFrom (\<lambda>c. c = NUL) z len 2 (3 - enc);
          nonNum = (\<not> utf8 \<and> i0 < len);
          zEnd = (if utf8 then len else i0 + enc - 3);
          p0 = (if utf8 then 0 else enc AND 1);
          p1 = skipFrom sqlite3Isspace z zEnd incr p0;
          neg = (p1 < zEnd \<and> z ! p1 = CHR ''-'');
          p2 = (if p1 < zEnd \<and> (z ! p1 = CHR ''-'' \<or> z ! p1 = CHR ''+'') then p1 + incr else p1);
          p3 = skipFrom (\<lambda>c. c = CHR ''0'') z zEnd incr p2
      in atoiConclude z zEnd incr neg p2 p3 nonNum)"

fun hexDigits :: "nat \<Rightarrow> nat \<Rightarrow> string \<Rightarrow> nat \<times> nat \<times> string" where
  "hexDigits k u [] = (k, u, [])"
| "hexDigits k u (c # z) =
     (if sqlite3Isxdigit c
      then hexDigits (k + 1) ((u * 16 + unat (sqlite3HexToInt (int (code c)))) mod 2 ^ 64) z
      else (k, u, c # z))"

definition hexPrefix :: "string \<Rightarrow> bool" where
  "hexPrefix z \<longleftrightarrow>
     (case z of a # b # c # _ \<Rightarrow>
        a = CHR ''0'' \<and> (b = CHR ''x'' \<or> b = CHR ''X'') \<and> sqlite3Isxdigit c
      | _ \<Rightarrow> False)"

text \<open>\<^verbatim>\<open>memcpy(pOut, &u, 8)\<close> reads the unsigned integer as a signed one.\<close>

definition i64_of_u64 :: "nat \<Rightarrow> int" where
  "i64_of_u64 u = (if u < 2 ^ 63 then int u else int u - 2 ^ 64)"

definition sqlite3DecOrHexToI64 :: "string \<Rightarrow> int \<times> int" where
  "sqlite3DecOrHexToI64 z =
     (if hexPrefix z
      then (case hexDigits 0 0 (dropWhile (\<lambda>c. c = CHR ''0'') (drop 2 z)) of (k, u, rest) \<Rightarrow>
              (if deref rest = NUL \<and> k \<le> 16 then 0 else 1, i64_of_u64 u))
      else sqlite3Atoi64 z (nat (sqlite3Strlen30 (Some z))) SQLITE_UTF8)"

fun hexDigits32 :: "nat \<Rightarrow> nat \<Rightarrow> string \<Rightarrow> nat \<times> string" where
  "hexDigits32 i u z =
     (case z of
        [] \<Rightarrow> (u, z)
      | c # z' \<Rightarrow>
          if sqlite3Isxdigit c \<and> i < 8
          then hexDigits32 (i + 1) ((u * 16 + unat (sqlite3HexToInt (int (code c)))) mod 2 ^ 32) z'
          else (u, z))"

fun int32Digits :: "nat \<Rightarrow> int \<Rightarrow> string \<Rightarrow> nat \<times> int" where
  "int32Digits i v z =
     (case z of
        [] \<Rightarrow> (i, v)
      | c # z' \<Rightarrow>
          if i < 11 \<and> 0 \<le> int (code c) - 48 \<and> int (code c) - 48 \<le> 9
          then int32Digits (i + 1) (v * 10 + (int (code c) - 48)) z'
          else (i, v))"

declare hexDigits32.simps [simp del] int32Digits.simps [simp del]

text \<open>\<^term>\<open>None\<close>: the function returns 0 and \<^verbatim>\<open>*pValue\<close> is unchanged.\<close>

definition sqlite3GetInt32 :: "string \<Rightarrow> int option" where
  "sqlite3GetInt32 z =
     (if deref z \<noteq> CHR ''-'' \<and> deref z \<noteq> CHR ''+'' \<and> hexPrefix z
      then (case hexDigits32 0 0 (dropWhile (\<lambda>c. c = CHR ''0'') (drop 2 z)) of (u, rest) \<Rightarrow>
              if u AND 0x80000000 = 0 \<and> \<not> sqlite3Isxdigit (deref rest) then Some (int u) else None)
      else let neg = (if deref z = CHR ''-'' then 1 else 0);
               z1 = (if deref z = CHR ''-'' \<or> deref z = CHR ''+'' then tl z else z)
           in case int32Digits 0 0 (dropWhile (\<lambda>c. c = CHR ''0'') z1) of (i, v) \<Rightarrow>
                if 10 < i then None
                else if 2147483647 < v - neg then None
                else Some (if neg = 1 then - v else v))"

definition sqlite3Atoi :: "string option \<Rightarrow> int" where
  "sqlite3Atoi z =
     (case z of None \<Rightarrow> 0
      | Some z \<Rightarrow> (case sqlite3GetInt32 z of None \<Rightarrow> 0 | Some x \<Rightarrow> x))"

subsection \<open>Digits and values\<close>

definition digit_val :: "char \<Rightarrow> nat" where
  "digit_val c = code c - 48"

fun dec_val :: "string \<Rightarrow> nat" where
  "dec_val [] = 0"
| "dec_val (c # z) = digit_val c * 10 ^ length z + dec_val z"

definition digits :: "string \<Rightarrow> bool" where
  "digits z \<longleftrightarrow> (\<forall>c \<in> set z. sqlite3Isdigit c)"

lemma digits_simps [simp]: "digits []" "digits (c # z) \<longleftrightarrow> sqlite3Isdigit c \<and> digits z"
  "digits (a @ b) \<longleftrightarrow> digits a \<and> digits b"
  by (auto simp: digits_def)

lemma digit_val_less: "sqlite3Isdigit c \<Longrightarrow> digit_val c \<le> 9"
  unfolding ctype digit_code_def digit_val_def by linarith

lemma digit_code_iff: "48 \<le> code c \<and> code c \<le> 57 \<longleftrightarrow> sqlite3Isdigit c"
  by (simp add: ctype digit_code_def)

lemma digit_code_val: "sqlite3Isdigit c \<Longrightarrow> code c = 48 + digit_val c"
  by (simp add: ctype digit_code_def digit_val_def)

lemma dec_val_append: "dec_val (a @ b) = dec_val a * 10 ^ length b + dec_val b"
  by (induction a) (simp_all add: algebra_simps power_add)

lemma dec_val_less: "digits z \<Longrightarrow> dec_val z < 10 ^ length z"
proof (induction z)
  case Nil
  then show ?case by simp
next
  case (Cons c z)
  then have "digit_val c * 10 ^ length z \<le> 9 * 10 ^ length z"
    using digit_val_less by (intro mult_right_mono) simp_all
  moreover have "dec_val z < 10 ^ length z" using Cons by simp
  ultimately show ?case unfolding dec_val.simps list.size power_Suc add_0_right add_Suc_right
    by linarith
qed

lemma dec_val_zeros: "dec_val (dropWhile (\<lambda>c. c = CHR ''0'') z) = dec_val z"
  by (induction z) (simp_all add: digit_val_def)

lemma dec_val_ge:
  assumes "digits z" and "z \<noteq> []" and "hd z \<noteq> CHR ''0''"
  shows "10 ^ (length z - 1) \<le> dec_val z"
proof (cases z)
  case (Cons c r)
  have "code c \<noteq> 48"
    using assms(3) Cons of_char_eq_iff [of c "CHR ''0''", where 'a = nat] by simp
  with assms(1) Cons have "1 \<le> digit_val c" by (auto simp: digit_val_def ctype digit_code_def)
  then have "1 * 10 ^ length r \<le> digit_val c * 10 ^ length r" by (rule mult_right_mono) simp
  then have "10 ^ length r \<le> dec_val z" unfolding Cons dec_val.simps by linarith
  with Cons show ?thesis by simp
qed (use assms(2) in simp)

subsection \<open>The loops on a text of 8-bit characters\<close>

lemma skipFrom_app:
  assumes "\<forall>c \<in> set a. P c" and "b = [] \<or> \<not> P (hd b)"
  shows "skipFrom P (pre @ a @ b) (length (pre @ a @ b)) 1 (length pre) = length pre + length a"
  using assms
proof (induction a arbitrary: pre)
  case Nil
  then show ?case by (subst skipFrom.simps) (cases b, auto simp: nth_append)
next
  case (Cons c a)
  then have "skipFrom P ((pre @ [c]) @ a @ b) (length ((pre @ [c]) @ a @ b)) 1 (length (pre @ [c])) =
      length (pre @ [c]) + length a" by (intro Cons.IH) auto
  with Cons.prems(1) show ?case by (subst skipFrom.simps) (simp add: nth_append)
qed

lemma mod_mult_add_mod: "(x mod m * k + r) mod m = (x * k + r) mod m" for x m k r :: nat
  by (metis mod_add_left_eq mod_mult_left_eq)

lemma atoiDigits_app:
  assumes "digits a" and "b = [] \<or> \<not> sqlite3Isdigit (hd b)"
  shows "atoiDigits (pre @ x @ a @ b) (length pre) (length (pre @ x @ a @ b)) 1 (length x) u c =
    (length x + length a, if a = [] then u else (u * 10 ^ length a + dec_val a) mod 2 ^ 64,
     if b \<noteq> [] then code (hd b) else if a \<noteq> [] then code (last a) else c)"
  using assms(1)
proof (induction a arbitrary: x u c)
  case Nil
  show ?case
    using assms(2) by (subst atoiDigits.simps) (cases b, auto simp: nth_append Let_def digit_code_iff)
next
  case (Cons d a)
  let ?u = "(u * 10 + code d - 48) mod 2 ^ 64"
  have "sqlite3Isdigit d" using Cons.prems by simp
  note d = digit_code_iff [of d, THEN iffD2, OF this] digit_code_val [OF this]
  have IH: "atoiDigits (pre @ (x @ [d]) @ a @ b) (length pre) (length (pre @ (x @ [d]) @ a @ b)) 1
      (length (x @ [d])) ?u (code d) =
    (length (x @ [d]) + length a, if a = [] then ?u else (?u * 10 ^ length a + dec_val a) mod 2 ^ 64,
     if b \<noteq> [] then code (hd b) else if a \<noteq> [] then code (last a) else code d)"
    using Cons by (intro Cons.IH) simp
  have "(?u * 10 ^ length a + dec_val a) mod 2 ^ 64 =
      ((u * 10 + digit_val d) * 10 ^ length a + dec_val a) mod 2 ^ 64"
    unfolding d(2) by (simp only: mod_mult_add_mod) simp
  also have "(u * 10 + digit_val d) * 10 ^ length a + dec_val a =
      u * 10 ^ length (d # a) + dec_val (d # a)"
    by (simp add: algebra_simps)
  finally have v: "(?u * 10 ^ length a + dec_val a) mod 2 ^ 64 =
      (u * 10 ^ length (d # a) + dec_val (d # a)) mod 2 ^ 64" .
  have v0: "a = [] \<Longrightarrow> ?u = (u * 10 ^ length (d # a) + dec_val (d # a)) mod 2 ^ 64"
    by (simp add: d(2))
  show ?case
    using d(1) IH v v0
    by (subst atoiDigits.simps) (simp add: nth_append Let_def split: if_splits)
qed

lemma pow63Loop_digits:
  assumes "digits ds" and "digits qs" and "length qs \<le> length ds" and "incr = 1"
    and "\<forall>k < length ds. z ! (p + i + k) = ds ! k"
  shows "(pow63Loop z p incr qs i < 0 \<longleftrightarrow> dec_val (take (length qs) ds) < dec_val qs) \<and>
    (pow63Loop z p incr qs i = 0 \<longleftrightarrow> dec_val (take (length qs) ds) = dec_val qs)"
  using assms
proof (induction qs arbitrary: ds i)
  case Nil
  then show ?case by simp
next
  case (Cons q qs)
  obtain d r where ds: "ds = d # r" using Cons.prems(3) by (cases ds) auto
  have dig: "sqlite3Isdigit d" "sqlite3Isdigit q" "digits r" "digits qs"
    using Cons.prems(1,2) ds by simp_all
  have zd: "z ! (p + i) = d" using Cons.prems(5) ds by (metis add.right_neutral length_Cons nth_Cons_0 zero_less_Suc)
  have lt: "dec_val (take (length qs) r) < 10 ^ length qs" "dec_val qs < 10 ^ length qs"
    using dec_val_less [of "take (length qs) r"] dec_val_less [of qs] dig Cons.prems(3) ds
    by (auto simp: digits_def dest: in_set_takeD)
  have take: "dec_val (take (length (q # qs)) ds) =
      digit_val d * 10 ^ length qs + dec_val (take (length qs) r)"
    using Cons.prems(3) ds by simp
  have c: "int (code (z ! (p + i * incr))) - int (code q) = int (digit_val d) - int (digit_val q)"
    using Cons.prems(4) zd digit_code_val dig by simp
  consider "digit_val d = digit_val q" | "digit_val d < digit_val q" | "digit_val q < digit_val d"
    by linarith
  then show ?case
  proof cases
    case 1
    have "\<forall>k < length r. z ! (p + Suc i + k) = r ! k"
      using Cons.prems(5) ds by (metis add_Suc_right add_Suc_shift length_Cons not_less_eq nth_Cons_Suc)
    with Cons.IH [of r "Suc i"] dig Cons.prems(3,4) ds 1 c take show ?thesis
      by (simp add: Let_def)
  next
    case 2
    then have "(digit_val d + 1) * 10 ^ length qs \<le> digit_val q * 10 ^ length qs"
      by (intro mult_right_mono) simp_all
    with lt have "dec_val (take (length (q # qs)) ds) < dec_val (q # qs)"
      unfolding take dec_val.simps by (simp add: algebra_simps)
    with 2 c show ?thesis by (simp add: Let_def)
  next
    case 3
    then have "(digit_val q + 1) * 10 ^ length qs \<le> digit_val d * 10 ^ length qs"
      by (intro mult_right_mono) simp_all
    with lt have "dec_val (q # qs) < dec_val (take (length (q # qs)) ds)"
      unfolding take dec_val.simps by (simp add: algebra_simps)
    with 3 c show ?thesis by (simp add: Let_def)
  qed
qed

lemma compare2pow63_digits:
  assumes "digits ds" and "length ds = 19" and "\<forall>k < 19. z ! (p + k) = ds ! k"
  shows "(compare2pow63 z p 1 < 0 \<longleftrightarrow> dec_val ds < 2 ^ 63) \<and>
    (compare2pow63 z p 1 = 0 \<longleftrightarrow> dec_val ds = 2 ^ 63)"
proof -
  let ?q = "''922337203685477580''"
  obtain a d where ds: "ds = a @ [d]" "length a = 18"
    using assms(2) by (metis Suc_numeral length_append_singleton length_Suc_conv_rev semiring_norm(5) semiring_norm(8) nat.inject)
  have dig: "digits a" "sqlite3Isdigit d" using assms(1) ds(1) by simp_all
  have q: "digits ?q" "length ?q = 18" "dec_val ?q = 922337203685477580"
    by (simp_all add: ctype digit_code_def digit_val_def)
  have nth: "z ! (p + 0 + k) = ds ! k" if "k < length ds" for k using assms(2,3) that by simp
  have loop: "(pow63Loop z p 1 ?q 0 < 0 \<longleftrightarrow> dec_val a < 922337203685477580) \<and>
      (pow63Loop z p 1 ?q 0 = 0 \<longleftrightarrow> dec_val a = 922337203685477580)"
    using pow63Loop_digits [OF assms(1) q(1) _ refl, of z p 0] nth ds assms(2) q(2,3) by simp
  have last: "z ! (p + 18) = d" using assms(3) ds by (simp add: nth_append)
  have val: "dec_val ds = dec_val a * 10 + digit_val d" by (simp add: ds(1) dec_val_append)
  have d9: "digit_val d \<le> 9" "int (code d) - 56 = int (digit_val d) - 8"
    using digit_val_less digit_code_val dig by simp_all
  show ?thesis
    using loop last val d9 by (auto simp: compare2pow63_def Let_def)
qed

subsection \<open>What the readers return\<close>

text \<open>A text cut into blanks, sign, digits and the rest.\<close>

definition number_text :: "string \<Rightarrow> string \<Rightarrow> string \<Rightarrow> string \<Rightarrow> bool" where
  "number_text sp sg ds rest \<longleftrightarrow>
     (\<forall>c \<in> set sp. sqlite3Isspace c) \<and> sg \<in> {[], ''-'', ''+''} \<and> digits ds \<and>
     (rest = [] \<or> \<not> sqlite3Isdigit (hd rest)) \<and>
     (sg @ ds = [] \<and> rest \<noteq> [] \<longrightarrow>
        \<not> sqlite3Isspace (hd rest) \<and> hd rest \<noteq> CHR ''-'' \<and> hd rest \<noteq> CHR ''+'')"

lemma classes_disjoint:
  "sqlite3Isdigit c \<Longrightarrow> \<not> sqlite3Isspace c \<and> c \<noteq> CHR ''-'' \<and> c \<noteq> CHR ''+''"
  "\<not> sqlite3Isspace CHR ''-''" "\<not> sqlite3Isspace CHR ''+''"
  "sqlite3Isdigit CHR ''0''"
  by (auto simp: ctype code_classes)

lemma hd_digits: "digits a \<Longrightarrow> a \<noteq> [] \<Longrightarrow> sqlite3Isdigit (hd a)"
  by (cases a) auto

lemma split_zeros:
  assumes "digits ds"
  obtains zs sig where "ds = zs @ sig" and "\<forall>c \<in> set zs. c = CHR ''0''"
    and "sig = [] \<or> hd sig \<noteq> CHR ''0''" and "digits sig" and "dec_val sig = dec_val ds"
proof (rule that)
  let ?P = "\<lambda>c. c = CHR ''0''"
  show "ds = takeWhile ?P ds @ dropWhile ?P ds" by simp
  show "\<forall>c \<in> set (takeWhile ?P ds). c = CHR ''0''" by (auto dest: set_takeWhileD)
  show "dropWhile ?P ds = [] \<or> hd (dropWhile ?P ds) \<noteq> CHR ''0''"
    using hd_dropWhile [of ?P ds] by auto
  show "digits (dropWhile ?P ds)" using assms by (auto simp: digits_def dest: set_dropWhileD)
  show "dec_val (dropWhile ?P ds) = dec_val ds" by (rule dec_val_zeros)
qed

definition atoi_code :: "bool \<Rightarrow> string \<Rightarrow> string \<Rightarrow> int" where
  "atoi_code neg ds rest =
     (if ds = [] \<or> (rest \<noteq> [] \<and> hd rest \<noteq> NUL) then 1
      else if dec_val ds < 2 ^ 63 then 0
      else if dec_val ds = 2 ^ 63 then (if neg then 0 else 2)
      else 1)"

lemma code_0: "code c = 0 \<longleftrightarrow> c = NUL"
  using of_char_eq_iff [of c "CHR 0x00", where 'a = nat] by (simp add: NUL_def)

lemma sqlite3Atoi64_utf8:
  assumes "number_text sp sg ds rest"
  defines "z \<equiv> sp @ sg @ ds @ rest" and "neg \<equiv> (sg = ''-'')"
  shows "fst (sqlite3Atoi64 z (length z) SQLITE_UTF8) = atoi_code neg ds rest"
    and "snd (sqlite3Atoi64 z (length z) SQLITE_UTF8) =
      (if dec_val ds mod 2 ^ 64 < 2 ^ 63 then (if neg then - int (dec_val ds mod 2 ^ 64) else int (dec_val ds mod 2 ^ 64))
       else if neg then SMALLEST_INT64 else LARGEST_INT64)"
proof -
  have h: "\<forall>c \<in> set sp. sqlite3Isspace c" "sg \<in> {[], ''-'', ''+''}" "digits ds"
      "rest = [] \<or> \<not> sqlite3Isdigit (hd rest)"
      "sg @ ds = [] \<and> rest \<noteq> [] \<longrightarrow>
        \<not> sqlite3Isspace (hd rest) \<and> hd rest \<noteq> CHR ''-'' \<and> hd rest \<noteq> CHR ''+''"
    using assms(1) by (auto simp: number_text_def)
  obtain zs sig where s: "ds = zs @ sig" "\<forall>c \<in> set zs. c = CHR ''0''"
      "sig = [] \<or> hd sig \<noteq> CHR ''0''" "digits sig" "dec_val sig = dec_val ds"
    using split_zeros [OF h(3)] by blast
  let ?e = "length z"
  have "sg @ ds @ rest = [] \<or> \<not> sqlite3Isspace (hd (sg @ ds @ rest))"
    using h hd_digits classes_disjoint by (cases "ds = []") auto
  then have p1: "skipFrom sqlite3Isspace z ?e 1 0 = length sp"
    using skipFrom_app [of sp sqlite3Isspace "sg @ ds @ rest" "[]"] h(1) by (simp add: z_def)
  have first: "length sp < ?e \<longleftrightarrow> sg @ ds @ rest \<noteq> []"
    "length sp < ?e \<Longrightarrow> z ! length sp = hd (sg @ ds @ rest)"
    by (auto simp: z_def nth_append hd_conv_nth)
  have nosign: "sg = [] \<Longrightarrow> ds @ rest \<noteq> [] \<Longrightarrow>
      hd (ds @ rest) \<noteq> CHR ''-'' \<and> hd (ds @ rest) \<noteq> CHR ''+''"
    using h(3,5) hd_digits classes_disjoint(1) by (cases "ds = []") auto
  have neg: "(length sp < ?e \<and> z ! length sp = CHR ''-'') = neg"
    using first nosign h(2) by (auto simp: neg_def)
  have p2: "(if length sp < ?e \<and> (z ! length sp = CHR ''-'' \<or> z ! length sp = CHR ''+'')
      then length sp + 1 else length sp) = length (sp @ sg)"
    using first nosign h(2) by auto
  have "sig @ rest = [] \<or> hd (sig @ rest) \<noteq> CHR ''0''"
    using s(3) h(4) classes_disjoint(4) by (cases "sig = []") auto
  then have p3: "skipFrom (\<lambda>c. c = CHR ''0'') z ?e 1 (length (sp @ sg)) = length (sp @ sg @ zs)"
    using skipFrom_app [of zs "\<lambda>c. c = CHR ''0''" "sig @ rest" "sp @ sg"] s(1,2) by (simp add: z_def)
  let ?c = "if rest \<noteq> [] then code (hd rest) else if sig \<noteq> [] then code (last sig) else 0"
  have dig: "atoiDigits z (length (sp @ sg @ zs)) ?e 1 0 0 0 =
      (length sig, dec_val ds mod 2 ^ 64, ?c)"
    using atoiDigits_app [OF s(4) h(4), of "sp @ sg @ zs" "[]" 0 0] s(1,5)
    by (cases "sig = []") (simp_all add: z_def)
  have z_sig: "z ! (length (sp @ sg @ zs) + k) = sig ! k" if "k < length sig" for k
    using that by (simp add: z_def s(1) nth_append)
  have more: "length (sp @ sg @ zs) + length sig < ?e \<longleftrightarrow> rest \<noteq> []"
    by (simp add: z_def s(1))
  have nodigits: "length sig = 0 \<and> length (sp @ sg) = length (sp @ sg @ zs) \<longleftrightarrow> ds = []"
    by (auto simp: s(1))
  define num where "num = (if LARGEST_INT64 < int (dec_val ds mod 2 ^ 64)
      then (if neg then SMALLEST_INT64 else LARGEST_INT64)
      else if neg then - int (dec_val ds mod 2 ^ 64) else int (dec_val ds mod 2 ^ 64))"
  have run: "sqlite3Atoi64 z ?e SQLITE_UTF8 =
     (if (rest \<noteq> [] \<and> hd rest \<noteq> NUL) \<or> ds = [] \<or> 19 < length sig then (1, num)
      else if length sig < 19 then (0, num)
      else let d = compare2pow63 z (length (sp @ sg @ zs)) 1
           in (if d < 0 then 0 else if 0 < d then 1 else if neg then 0 else 2, num))"
  proof -
    have "sqlite3Atoi64 z ?e SQLITE_UTF8 =
        atoiConclude z ?e 1 neg (length (sp @ sg)) (length (sp @ sg @ zs)) False"
      unfolding sqlite3Atoi64_def Let_def
      by (simp only: simp_thms if_True if_False p1 neg p2 p3)
    also have "\<dots> = (if (?c \<noteq> 0 \<and> rest \<noteq> []) \<or> ds = [] \<or> 19 < length sig then (1, num)
      else if length sig < 19 then (0, num)
      else let d = compare2pow63 z (length (sp @ sg @ zs)) 1
           in (if d < 0 then 0 else if 0 < d then 1 else if neg then 0 else 2, num))"
      unfolding atoiConclude_def dig prod.case num_def [symmetric] Let_def [of num] more nodigits
      by (simp only: mult_1_right simp_thms)
    also have "(?c \<noteq> 0 \<and> rest \<noteq> []) \<longleftrightarrow> (rest \<noteq> [] \<and> hd rest \<noteq> NUL)"
      by (cases "rest = []") (simp_all only: if_True if_False simp_thms code_0)
    finally show ?thesis .
  qed
  have len: "dec_val ds < 10 ^ length sig" using dec_val_less [OF s(4)] s(5) by simp
  have ge: "sig \<noteq> [] \<Longrightarrow> 10 ^ (length sig - 1) \<le> dec_val ds"
    using dec_val_ge [OF s(4)] s(3,5) by simp
  consider "19 < length sig" | "length sig < 19" | "length sig = 19" by linarith
  then show "fst (sqlite3Atoi64 z ?e SQLITE_UTF8) = atoi_code neg ds rest"
  proof cases
    case 1
    have "(10::nat) ^ 19 \<le> 10 ^ (length sig - 1)" using 1 by (intro power_increasing) auto
    also have "\<dots> \<le> dec_val ds" using 1 by (intro ge) auto
    finally have "2 ^ 63 < dec_val ds" by simp
    with 1 show ?thesis by (simp add: run atoi_code_def)
  next
    case 2
    have "(10::nat) ^ length sig \<le> 10 ^ 18" using 2 by (intro power_increasing) auto
    with len have "dec_val ds < 2 ^ 63" by simp
    with 2 show ?thesis by (auto simp: run atoi_code_def)
  next
    case 3
    from compare2pow63_digits [OF s(4) 3, of z "length (sp @ sg @ zs)"] z_sig 3 s(5)
    have "(compare2pow63 z (length (sp @ sg @ zs)) 1 < 0 \<longleftrightarrow> dec_val ds < 2 ^ 63) \<and>
      (compare2pow63 z (length (sp @ sg @ zs)) 1 = 0 \<longleftrightarrow> dec_val ds = 2 ^ 63)" by simp
    with 3 show ?thesis by (auto simp: run atoi_code_def Let_def)
  qed
  have "LARGEST_INT64 < int u \<longleftrightarrow> \<not> u < 2 ^ 63" for u by auto
  then have "num = (if dec_val ds mod 2 ^ 64 < 2 ^ 63 then (if neg then - int (dec_val ds mod 2 ^ 64) else int (dec_val ds mod 2 ^ 64))
       else if neg then SMALLEST_INT64 else LARGEST_INT64)"
    unfolding num_def by (simp only: if_not_P if_P split: if_split) simp
  then show "snd (sqlite3Atoi64 z ?e SQLITE_UTF8) =
      (if dec_val ds mod 2 ^ 64 < 2 ^ 63 then (if neg then - int (dec_val ds mod 2 ^ 64) else int (dec_val ds mod 2 ^ 64))
       else if neg then SMALLEST_INT64 else LARGEST_INT64)"
    unfolding run Let_def by (simp split del: if_split cong: if_cong) auto
qed

lemma int32Digits_app:
  assumes "digits a" and "b = [] \<or> \<not> sqlite3Isdigit (hd b)" and "i \<le> 11"
  shows "(i + length a \<le> 11 \<longrightarrow>
      int32Digits i v (a @ b) = (i + length a, v * 10 ^ length a + int (dec_val a))) \<and>
    (11 < i + length a \<longrightarrow> 10 < fst (int32Digits i v (a @ b)))"
  using assms(1,3)
proof (induction a arbitrary: i v)
  case Nil
  have "int32Digits i v b = (i, v)"
  proof (cases b)
    case (Cons c r)
    then have "\<not> sqlite3Isdigit c" using assms(2) by simp
    then have "\<not> (0 \<le> int (code c) - 48 \<and> int (code c) - 48 \<le> 9)"
      unfolding digit_code_iff [symmetric] by linarith
    with Cons show ?thesis by (subst int32Digits.simps) auto
  qed (subst int32Digits.simps, simp)
  with Nil show ?case by simp
next
  case (Cons d a)
  have d: "sqlite3Isdigit d" "digits a" using Cons.prems(1) by simp_all
  have dv: "int (code d) - 48 = int (digit_val d)" using digit_code_val [OF d(1)] by simp
  show ?case
  proof (cases "i < 11")
    case True
    have step: "int32Digits i v ((d # a) @ b) = int32Digits (i + 1) (v * 10 + int (digit_val d)) (a @ b)"
      using True dv digit_val_less [OF d(1)] by (subst int32Digits.simps) simp
    have "(v * 10 + int (digit_val d)) * 10 ^ length a + int (dec_val a) =
        v * 10 ^ length (d # a) + int (dec_val (d # a))"
      by (simp add: algebra_simps)
    with Cons.IH [OF d(2), of "i + 1" "v * 10 + int (digit_val d)"] True show ?thesis
      unfolding step by simp
  next
    case False
    with Cons.prems(2) have "i = 11" by simp
    moreover have "int32Digits 11 v ((d # a) @ b) = (11, v)"
      by (subst int32Digits.simps) simp
    ultimately show ?thesis by simp
  qed
qed

lemma sqlite3GetInt32_decimal:
  assumes "sg \<in> {[], ''-'', ''+''}" and "digits ds" and "rest = [] \<or> \<not> sqlite3Isdigit (hd rest)"
    and "sg @ ds = [] \<longrightarrow> deref rest \<noteq> CHR ''-'' \<and> deref rest \<noteq> CHR ''+''"
    and "sg = [] \<longrightarrow> \<not> hexPrefix (ds @ rest)"
  defines "v \<equiv> (if sg = ''-'' then - int (dec_val ds) else int (dec_val ds))"
  shows "sqlite3GetInt32 (sg @ ds @ rest) = (if - (2 ^ 31) \<le> v \<and> v < 2 ^ 31 then Some v else None)"
proof -
  obtain zs sig where s: "ds = zs @ sig" "\<forall>c \<in> set zs. c = CHR ''0''"
      "sig = [] \<or> hd sig \<noteq> CHR ''0''" "digits sig" "dec_val sig = dec_val ds"
    using split_zeros [OF assms(2)] by blast
  have nz: "sig @ rest = [] \<or> hd (sig @ rest) \<noteq> CHR ''0''"
    using s(3) assms(3) classes_disjoint(4) by (cases "sig = []") auto
  have drop: "dropWhile (\<lambda>c. c = CHR ''0'') (ds @ rest) = sig @ rest"
    using s(1,2) nz by (cases "sig @ rest") (auto simp: dropWhile_append)
  have first: "sg = [] \<Longrightarrow> deref (ds @ rest) \<noteq> CHR ''-'' \<and> deref (ds @ rest) \<noteq> CHR ''+''"
    using assms(2,4) classes_disjoint(1) by (cases ds) auto
  have run: "sqlite3GetInt32 (sg @ ds @ rest) =
      (case int32Digits 0 0 (sig @ rest) of (i, w) \<Rightarrow>
        if 10 < i then None
        else if 2147483647 < w - (if sg = ''-'' then 1 else 0) then None
        else Some (if sg = ''-'' then - w else w))"
  proof -
    consider "sg = []" | "sg = ''-''" | "sg = ''+''" using assms(1) by blast
    then show ?thesis
    proof cases
      case 1
      with first assms(5) show ?thesis
        by (simp add: sqlite3GetInt32_def drop split: prod.split)
    qed (simp_all add: sqlite3GetInt32_def drop split: prod.split)
  qed
  note dig = int32Digits_app [OF s(4) assms(3), of 0 0]
  have len: "dec_val ds < 10 ^ length sig" using dec_val_less [OF s(4)] s(5) by simp
  show ?thesis
  proof (cases "length sig \<le> 10")
    case True
    with dig s(5) have "int32Digits 0 0 (sig @ rest) = (length sig, int (dec_val ds))" by simp
    with True show ?thesis by (auto simp: run v_def)
  next
    case False
    then have "10 < fst (int32Digits 0 0 (sig @ rest))"
      using dig by (cases "length sig \<le> 11") auto
    then have "sqlite3GetInt32 (sg @ ds @ rest) = None"
      by (cases "int32Digits 0 0 (sig @ rest)") (simp add: run)
    moreover have "(10::nat) ^ 10 \<le> 10 ^ (length sig - 1)" using False by (intro power_increasing) auto
    then have "10 ^ 10 \<le> dec_val ds" using dec_val_ge [OF s(4)] s(3,5) False by fastforce
    ultimately show ?thesis by (auto simp: v_def)
  qed
qed

lemma hex_digit_zero: "n < 16 \<Longrightarrow> hex_digit up n = CHR ''0'' \<longleftrightarrow> n = 0"
  using of_char_eq_iff [of "hex_digit up n" "CHR ''0''", where 'a = nat]
  by (auto simp: hex_digit_def split: if_splits)

lemma hex_digit_class: "n < 16 \<Longrightarrow> sqlite3Isxdigit (hex_digit up n)"
  by (auto simp: ctype code_classes hex_digit_def)

definition hex_val :: "nat list \<Rightarrow> nat" where
  "hex_val ns = foldl (\<lambda>u n. u * 16 + n) 0 ns"

lemma unat_HexToInt_digit:
  "n < 16 \<Longrightarrow> unat (sqlite3HexToInt (int (code (hex_digit up n)))) = n"
  by (simp add: sqlite3HexToInt_digit unsigned_of_nat take_bit_nat_eq_self)

lemma hexDigits_all:
  "\<forall>n \<in> set ns. n < 16 \<Longrightarrow>
     hexDigits k (u mod 2 ^ 64) (map (hex_digit up) ns) =
       (k + length ns, foldl (\<lambda>u n. u * 16 + n) u ns mod 2 ^ 64, [])"
proof (induction ns arbitrary: k u)
  case Nil
  then show ?case by simp
next
  case (Cons n ns)
  then have n: "n < 16" by simp
  have "hexDigits k (u mod 2 ^ 64) (map (hex_digit up) (n # ns)) =
      hexDigits (k + 1) ((u * 16 + n) mod 2 ^ 64) (map (hex_digit up) ns)"
    unfolding list.map hexDigits.simps
    by (simp only: hex_digit_class [OF n] unat_HexToInt_digit [OF n] mod_mult_add_mod if_True)
  with Cons.IH [of "k + 1" "u * 16 + n"] Cons.prems show ?case by simp
qed

lemma hex_val_zeros: "hex_val (dropWhile (\<lambda>n. n = 0) ns) = hex_val ns"
  by (induction ns) (simp_all add: hex_val_def)

lemma dropWhile_hex:
  "\<forall>n \<in> set ns. n < 16 \<Longrightarrow>
     dropWhile (\<lambda>c. c = CHR ''0'') (map (hex_digit up) ns) =
       map (hex_digit up) (dropWhile (\<lambda>n. n = 0) ns)"
  by (induction ns) (simp_all add: hex_digit_zero)

subsection \<open>Properties\<close>

text \<open>
  Property C31.  The overflow-checked 64-bit arithmetic: addition and subtraction never overflow
  themselves, give the exact result with 0 when it fits and leave \<^verbatim>\<open>*pA\<close> with 1 when it does
  not; multiplication does the same unless both factors are below \<^verbatim>\<open>2^32\<close> in magnitude: then
  it multiplies unchecked, which overflows for large factors.
\<close>

theorem int64_arithmetic_exact:
  assumes "in_i64 a" and "in_i64 b"
  shows "sqlite3AddInt64 a b = Done (if in_i64 (a + b) then (0, a + b) else (1, a)) \<and>
    sqlite3SubInt64 a b = Done (if in_i64 (a - b) then (0, a - b) else (1, a)) \<and>
    sqlite3MulInt64 a b =
      (if in_i64 (a * b) then Done (0, a * b)
       else if \<bar>a\<bar> < 2 ^ 32 \<and> \<bar>b\<bar> < 2 ^ 32 then Undefined
       else Done (1, a))"
  using assms sqlite3AddInt64_exact sqlite3SubInt64_exact sqlite3MulInt64_exact by simp

theorem int64_arithmetic_exact_witness:
  "sqlite3AddInt64 (2 ^ 63 - 1) 1 = Done (1, 2 ^ 63 - 1) \<and>
   sqlite3MulInt64 (- (2 ^ 40)) (2 ^ 23) = Done (0, - (2 ^ 63)) \<and>
   sqlite3MulInt64 (2 ^ 32 - 1) (2 ^ 32 - 1) = Undefined"
  using int64_arithmetic_exact [of "2 ^ 63 - 1" 1] int64_arithmetic_exact [of "- (2 ^ 40)" "2 ^ 23"]
    int64_arithmetic_exact [of "2 ^ 32 - 1" "2 ^ 32 - 1"]
  by (simp add: in_i64_def)

text \<open>
  Property C33.  \<^verbatim>\<open>sqlite3LogEst\<close> of a positive integer is less than 1 above and less than 2 below ten
  times its binary logarithm; it is exact on powers of two, monotone, and 0 for 0.  For an estimate
  \<^verbatim>\<open>10 q + r\<close> from 30 to 609, estimating \<^verbatim>\<open>sqlite3LogEstToInt\<close> of it gives it back, apart from the
  remainders 1 and 4, which come back as 0 and 5.
\<close>

theorem logest_tracks_logarithm:
  assumes "0 < x" and "x \<le> y" and "3 \<le> q" and "q \<le> 60" and "r < 10"
  shows "10 * log 2 (real x) - 2 < real_of_int (sqlite3LogEst x) \<and>
    real_of_int (sqlite3LogEst x) < 10 * log 2 (real x) + 1 \<and>
    sqlite3LogEst (2 ^ k) = 10 * int k \<and> sqlite3LogEst 0 = 0 \<and>
    sqlite3LogEst x \<le> sqlite3LogEst y \<and>
    sqlite3LogEst (sqlite3LogEstToInt (10 * int q + int r)) =
      10 * int q + (if r = 1 then 0 else if r = 4 then 5 else int r)"
  using sqlite3LogEst_log [OF assms(1)] sqlite3LogEst_power [of k] sqlite3LogEst_small(1)
    sqlite3LogEst_mono [OF assms(2)] sqlite3LogEst_of_int [OF assms(3-5)] by simp

theorem logest_tracks_logarithm_witness:
  "10 * log 2 100 - 2 < real_of_int (sqlite3LogEst 100) \<and> sqlite3LogEst 4096 = 120 \<and>
   sqlite3LogEst 100 \<le> sqlite3LogEst 1000 \<and> sqlite3LogEst (sqlite3LogEstToInt 103) = 103"
  using logest_tracks_logarithm [of 100 1000 10 3 12] by simp

text \<open>
  Property C32.  \<^verbatim>\<open>sqlite3Atoi64\<close> on UTF-8 text, cut into blanks, sign, digits and the rest.  The code
  is 1 for no digits or a rest that does not start with the terminator, and otherwise says whether
  the value fits (0), is exactly \<^verbatim>\<open>2^63\<close> without a minus sign (2), or not (1).  The value written is
  the number, or the nearest 64-bit one for magnitudes from \<^verbatim>\<open>2^63\<close> to \<^verbatim>\<open>2^64 - 1\<close>; from \<^verbatim>\<open>2^64\<close> on (where
  the code is 1) the digits are accumulated modulo \<^verbatim>\<open>2^64\<close> and what is written is that remainder in
  place of the magnitude.
\<close>

theorem atoi64_reads_decimal:
  assumes "number_text sp sg ds rest"
  defines "u \<equiv> dec_val ds mod 2 ^ 64"
  shows "sqlite3Atoi64 (sp @ sg @ ds @ rest) (length (sp @ sg @ ds @ rest)) SQLITE_UTF8 =
      (if ds = [] \<or> (rest \<noteq> [] \<and> hd rest \<noteq> NUL) then 1
       else if dec_val ds < 2 ^ 63 then 0
       else if dec_val ds = 2 ^ 63 then (if sg = ''-'' then 0 else 2)
       else 1,
       if u < 2 ^ 63 then (if sg = ''-'' then - int u else int u)
       else if sg = ''-'' then - (2 ^ 63) else 2 ^ 63 - 1)"
  using sqlite3Atoi64_utf8 [OF assms(1)] unfolding u_def
  by (intro prod_eqI) (simp_all only: atoi_code_def fst_conv snd_conv, simp)

theorem atoi64_reads_decimal_witness:
  "sqlite3Atoi64 '' -9223372036854775808'' (length '' -9223372036854775808'') SQLITE_UTF8 = (0, - (2 ^ 63)) \<and>
   sqlite3Atoi64 ''9223372036854775808'' (length ''9223372036854775808'') SQLITE_UTF8 = (2, 2 ^ 63 - 1) \<and>
   sqlite3Atoi64 ''18446744073709551617'' (length ''18446744073709551617'') SQLITE_UTF8 = (1, 1) \<and>
   sqlite3Atoi64 ''12x'' (length ''12x'') SQLITE_UTF8 = (1, 12)"
proof -
  have "number_text '' '' ''-'' ''9223372036854775808'' []"
    "number_text [] [] ''9223372036854775808'' []" "number_text [] [] ''18446744073709551617'' []"
    "number_text [] [] ''12'' ''x''"
    by (simp_all add: number_text_def ctype code_classes)
  from this [THEN atoi64_reads_decimal] show ?thesis
    by (simp add: digit_val_def NUL_def)
qed

text \<open>
  \<^verbatim>\<open>sqlite3GetInt32\<close> on a decimal prefix, whatever follows it: success exactly when
  the value lies in the signed 32-bit range.
\<close>

theorem getInt32_range:
  assumes "sg \<in> {[], ''-'', ''+''}" and "digits ds" and "rest = [] \<or> \<not> sqlite3Isdigit (hd rest)"
    and "sg @ ds = [] \<longrightarrow> deref rest \<noteq> CHR ''-'' \<and> deref rest \<noteq> CHR ''+''"
    and "sg = [] \<longrightarrow> \<not> hexPrefix (ds @ rest)"
    and "v = (if sg = ''-'' then - int (dec_val ds) else int (dec_val ds))"
  shows "sqlite3GetInt32 (sg @ ds @ rest) = (if - (2 ^ 31) \<le> v \<and> v < 2 ^ 31 then Some v else None)"
  using sqlite3GetInt32_decimal [OF assms(1-5)] assms(6) by simp

theorem getInt32_range_witness:
  "sqlite3GetInt32 ''-2147483648 rows'' = Some (- 2147483648) \<and> sqlite3GetInt32 ''2147483648'' = None \<and>
   sqlite3GetInt32 ''abc'' = Some 0"
  using getInt32_range [of "''-''" "''2147483648''" "'' rows''" "- 2147483648"]
    getInt32_range [of "[]" "''2147483648''" "[]" "2147483648"]
    getInt32_range [of "[]" "[]" "''abc''" 0]
  by (simp add: ctype code_classes hexPrefix_def digit_val_def)

text \<open>
  Hexadecimal literals: up to 16 digits after leading zeros give the
  two's-complement value with code 0, more give code 1.
\<close>

theorem hex_literal_value:
  assumes "\<forall>n \<in> set ns. n < 16" and "ns \<noteq> []"
  shows "sqlite3DecOrHexToI64 (''0x'' @ map (hex_digit up) ns) =
    (if length (dropWhile (\<lambda>n. n = 0) ns) \<le> 16 then 0 else 1, i64_of_u64 (hex_val ns mod 2 ^ 64))"
proof -
  let ?ds = "dropWhile (\<lambda>n. n = 0) ns"
  have "hexPrefix (''0x'' @ map (hex_digit up) ns)"
    using assms hex_digit_class by (cases ns) (auto simp: hexPrefix_def)
  moreover have "\<forall>n \<in> set ?ds. n < 16" using assms(1) by (auto dest: set_dropWhileD)
  then have "hexDigits 0 0 (map (hex_digit up) ?ds) = (length ?ds, hex_val ns mod 2 ^ 64, [])"
    using hexDigits_all [of ?ds 0 0 up] hex_val_zeros [of ns] by (simp add: hex_val_def)
  ultimately show ?thesis
    by (simp add: sqlite3DecOrHexToI64_def dropWhile_hex [OF assms(1)])
qed

theorem hex_literal_value_witness:
  "sqlite3DecOrHexToI64 (''0x'' @ map (hex_digit True) 
     [15, 15, 15, 15, 15, 15, 15, 15, 15, 15, 15, 15, 15, 15, 15, 15]) = (0, - 1)"
  using hex_literal_value [of
    "[15, 15, 15, 15, 15, 15, 15, 15, 15, 15, 15, 15, 15, 15, 15, 15]" True]
  by (simp add: hex_val_def i64_of_u64_def)

end
