(* ===== verification/RowSet.thy ===== *)
theory RowSet
  imports CBase "HOL-Library.Tree"
begin

text \<open>
  The set of rowids of \<^verbatim>\<open>rowset.c\<close> (in \<^verbatim>\<open>sqlite/3.8.11/sqlite3.c\<close>): values inserted in any order,
  tested batch by batch, or extracted in increasing order.

  The lists linked through \<^verbatim>\<open>pRight\<close> are lists of rowids, the trees are \<^typ>\<open>int tree\<close> with
  \<^verbatim>\<open>Leaf\<close> for NULL, and the forest is the list of the trees (the \<^verbatim>\<open>pLeft\<close> of the entries on
  \<^verbatim>\<open>pForest\<close>).  A rowid is a signed 64-bit integer that is only copied and compared, so it is an
  \<^typ>\<open>int\<close>.  Entries come out of \<^verbatim>\<open>nFresh\<close> and of chunks of 63 entries (an entry has 16 bytes with
  four-byte pointers); an allocation may fail.
\<close>

subsection \<open>State\<close>

definition ROWSET_ALLOCATION_SIZE :: nat where "ROWSET_ALLOCATION_SIZE = 1024"
definition ROWSET_ENTRY_PER_CHUNK :: nat where
  "ROWSET_ENTRY_PER_CHUNK = (ROWSET_ALLOCATION_SIZE - 8) div 16"

record rowset =
  rs_chunks :: nat
  rs_db :: conn
  rs_entry :: "int list"
  rs_last :: "int option"
  rs_forest :: "int tree list"
  rs_nFresh :: nat
  rs_sorted :: bool
  rs_next :: bool
  rs_batch :: int

text \<open>
  \<^verbatim>\<open>pChunk\<close> is the number of chunks to free, \<^verbatim>\<open>pLast\<close> the value of the entry it points to, and the
  two bits of \<^verbatim>\<open>rsFlags\<close> are separate fields.  \<^verbatim>\<open>sizeof(RowSet)\<close> is 32.
\<close>

definition sqlite3RowSetInit :: "conn \<Rightarrow> nat \<Rightarrow> rowset exec" where
  "sqlite3RowSetInit db N =
     (if N < 32 then Undefined
      else Done \<lparr>rs_chunks = 0, rs_db = db, rs_entry = [], rs_last = None, rs_forest = [],
        rs_nFresh = ((N - 32) div 16) mod 2 ^ 16, rs_sorted = True, rs_next = False, rs_batch = 0\<rparr>)"

definition sqlite3RowSetClear :: "rowset \<Rightarrow> rowset" where
  "sqlite3RowSetClear p = p\<lparr>rs_chunks := 0, rs_nFresh := 0, rs_entry := [], rs_last := None,
     rs_forest := [], rs_sorted := True, rs_next := False\<rparr>"

subsection \<open>Inserting\<close>

definition rowSetEntryAlloc :: "rowset \<Rightarrow> bool \<times> rowset" where
  "rowSetEntryAlloc p =
     (if rs_nFresh p = 0
      then (case sqlite3DbMallocRaw (rs_db p) of (ok, db) \<Rightarrow>
        if ok then (True, p\<lparr>rs_db := db, rs_chunks := rs_chunks p + 1,
          rs_nFresh := ROWSET_ENTRY_PER_CHUNK - 1\<rparr>)
        else (False, p\<lparr>rs_db := db\<rparr>))
      else (True, p\<lparr>rs_nFresh := rs_nFresh p - 1\<rparr>))"

text \<open>
  \<^verbatim>\<open>pLast\<close> is the last entry of the list, so \<^verbatim>\<open>pLast->pRight = pEntry\<close> appends.  After
  \<^verbatim>\<open>sqlite3RowSetNext\<close> the call breaks the contract of the function.
\<close>

definition sqlite3RowSetInsert :: "rowset \<Rightarrow> int \<Rightarrow> rowset exec" where
  "sqlite3RowSetInsert p rowid =
     (if rs_next p then Undefined
      else (case rowSetEntryAlloc p of (ok, p) \<Rightarrow>
        if \<not> ok then Done p
        else (case rs_last p of
            Some v \<Rightarrow> Done (p\<lparr>rs_sorted := rs_sorted p \<and> \<not> rowid \<le> v,
              rs_entry := rs_entry p @ [rowid], rs_last := Some rowid\<rparr>)
          | None \<Rightarrow> Done (p\<lparr>rs_entry := [rowid], rs_last := Some rowid\<rparr>))))"

subsection \<open>Sorting\<close>

fun rowSetEntryMerge :: "int list \<Rightarrow> int list \<Rightarrow> int list" where
  "rowSetEntryMerge (a # as) (b # bs) =
     (if a < b then a # rowSetEntryMerge as (b # bs)
      else if b < a then b # rowSetEntryMerge (a # as) bs
      else rowSetEntryMerge as (b # bs))"
| "rowSetEntryMerge [] bs = bs"
| "rowSetEntryMerge as [] = as"

text \<open>
  The array \<^verbatim>\<open>aBucket\<close> is a list of 40 lists, empty for NULL.  The loop over \<^verbatim>\<open>i\<close> walks down the
  array; behind its end it would write out of bounds.
\<close>

fun rowSetBucket :: "int list \<Rightarrow> int list list \<Rightarrow> int list list exec" where
  "rowSetBucket p [] = Undefined"
| "rowSetBucket p (b # bs) =
     (if b = [] then Done (p # bs)
      else exec_bind (rowSetBucket (rowSetEntryMerge b p) bs) (\<lambda>bs'. Done ([] # bs')))"

fun rowSetFill :: "int list \<Rightarrow> int list list \<Rightarrow> int list list exec" where
  "rowSetFill [] bs = Done bs"
| "rowSetFill (x # xs) bs = exec_bind (rowSetBucket [x] bs) (rowSetFill xs)"

definition rowSetEntrySort :: "int list \<Rightarrow> int list exec" where
  "rowSetEntrySort p = exec_bind (rowSetFill p (replicate 40 []))
     (\<lambda>bs. Done (foldl rowSetEntryMerge [] bs))"

subsection \<open>Trees\<close>

fun rowSetTreeToList :: "int tree \<Rightarrow> int list" where
  "rowSetTreeToList Leaf = []"
| "rowSetTreeToList (Node l v r) =
     (if l \<noteq> Leaf then rowSetTreeToList l else []) @ v #
     (if r \<noteq> Leaf then rowSetTreeToList r else [])"

text \<open>The first argument is \<^verbatim>\<open>iDepth - 1\<close>; the second component of the result is the new \<^verbatim>\<open>*ppList\<close>.\<close>

fun rowSetNDeepTree :: "nat \<Rightarrow> int list \<Rightarrow> int tree \<times> int list" where
  "rowSetNDeepTree d [] = (Leaf, [])"
| "rowSetNDeepTree 0 (x # xs) = (Node Leaf x Leaf, xs)"
| "rowSetNDeepTree (Suc d) (x # xs) =
     (case rowSetNDeepTree d (x # xs) of (pLeft, rest) \<Rightarrow>
        (case rest of
            [] \<Rightarrow> (pLeft, [])
          | y # ys \<Rightarrow> (case rowSetNDeepTree d ys of (pRight, rest') \<Rightarrow>
              (Node pLeft y pRight, rest'))))"

lemma length_rowSetNDeepTree:
  "length (snd (rowSetNDeepTree d xs)) \<le> length xs"
proof (induction d xs rule: rowSetNDeepTree.induct)
  case (3 d x xs)
  obtain l rest where l: "rowSetNDeepTree d (x # xs) = (l, rest)" by fastforce
  show ?case
  proof (cases rest)
    case Nil
    then show ?thesis using l by simp
  next
    case (Cons y ys)
    obtain r rest' where "rowSetNDeepTree d ys = (r, rest')" by fastforce
    then show ?thesis using l Cons "3.IH"(1) "3.IH"(2) [OF l [symmetric] Cons] by simp
  qed
qed simp_all

function rowSetListToTreeLoop :: "int tree \<Rightarrow> nat \<Rightarrow> int list \<Rightarrow> int tree" where
  "rowSetListToTreeLoop p d [] = p"
| "rowSetListToTreeLoop p d (x # xs) =
     rowSetListToTreeLoop (Node p x (fst (rowSetNDeepTree d xs))) (Suc d) (snd (rowSetNDeepTree d xs))"
  by pat_completeness auto

termination
  by (relation "measure (\<lambda>(p, d, xs). length xs)") (auto simp: le_imp_less_Suc length_rowSetNDeepTree)

fun rowSetListToTree :: "int list \<Rightarrow> int tree exec" where
  "rowSetListToTree [] = Undefined"
| "rowSetListToTree (x # xs) = Done (rowSetListToTreeLoop (Node Leaf x Leaf) 0 xs)"

subsection \<open>Extracting\<close>

definition rowSetToList :: "rowset \<Rightarrow> rowset exec" where
  "rowSetToList p =
     (if rs_next p then Undefined
      else exec_bind (if \<not> rs_sorted p then rowSetEntrySort (rs_entry p) else Done (rs_entry p))
        (\<lambda>es. Done (p\<lparr>rs_entry := es, rs_next := True\<rparr>)))"

definition sqlite3RowSetNext :: "rowset \<Rightarrow> (int option \<times> rowset) exec" where
  "sqlite3RowSetNext p =
     exec_bind (if \<not> rs_next p then rowSetToList p else Done p) (\<lambda>p.
       case rs_entry p of
         v # es \<Rightarrow> Done (Some v,
           if es = [] then sqlite3RowSetClear (p\<lparr>rs_entry := es\<rparr>) else p\<lparr>rs_entry := es\<rparr>)
       | [] \<Rightarrow> Done (None, p))"

subsection \<open>Testing\<close>

text \<open>
  The loop over the forest: the batch goes to the first free slot, after it took in the trees of
  the slots before, which become free.  The last component tells whether there was a free slot.
\<close>

fun rowSetPlace :: "int list \<Rightarrow> int tree list \<Rightarrow> (int list \<times> int tree list \<times> bool) exec" where
  "rowSetPlace p [] = Done (p, [], False)"
| "rowSetPlace p (t # ts) =
     (if t = Leaf then exec_bind (rowSetListToTree p) (\<lambda>t'. Done (p, t' # ts, True))
      else exec_bind (rowSetPlace (rowSetEntryMerge (rowSetTreeToList t) p) ts)
        (\<lambda>(p', ts', placed). Done (p', Leaf # ts', placed)))"

definition rowSetNewBatch :: "rowset \<Rightarrow> rowset exec" where
  "rowSetNewBatch s =
     (if rs_entry s = [] then Done s
      else exec_bind (if \<not> rs_sorted s then rowSetEntrySort (rs_entry s) else Done (rs_entry s)) (\<lambda>p.
        exec_bind (rowSetPlace p (rs_forest s)) (\<lambda>(p, ts, placed).
        exec_bind (if placed then Done (s\<lparr>rs_forest := ts\<rparr>)
          else (case rowSetEntryAlloc s of (ok, s) \<Rightarrow>
            if ok then exec_bind (rowSetListToTree p) (\<lambda>t. Done (s\<lparr>rs_forest := ts @ [t]\<rparr>))
            else Done (s\<lparr>rs_forest := ts\<rparr>))) (\<lambda>s.
        Done (s\<lparr>rs_entry := [], rs_last := None, rs_sorted := True\<rparr>)))))"

fun rowSetFind :: "int \<Rightarrow> int tree \<Rightarrow> bool" where
  "rowSetFind x Leaf = False"
| "rowSetFind x (Node l v r) =
     (if v < x then rowSetFind x r else if v > x then rowSetFind x l else True)"

definition sqlite3RowSetTest :: "rowset \<Rightarrow> int \<Rightarrow> int \<Rightarrow> (bool \<times> rowset) exec" where
  "sqlite3RowSetTest s iBatch iRowid =
     (if rs_next s then Undefined
      else exec_bind (if iBatch \<noteq> rs_batch s
          then exec_bind (rowSetNewBatch s) (\<lambda>s. Done (s\<lparr>rs_batch := iBatch\<rparr>)) else Done s) (\<lambda>s.
        Done (\<exists>t\<in>set (rs_forest s). rowSetFind iRowid t, s)))"

subsection \<open>Merging and sorting\<close>

abbreviation ascending :: "int list \<Rightarrow> bool" where
  "ascending \<equiv> sorted_wrt (<)"

lemma set_rowSetEntryMerge [simp]: "set (rowSetEntryMerge as bs) = set as \<union> set bs"
  by (induction as bs rule: rowSetEntryMerge.induct) auto

lemma ascending_rowSetEntryMerge:
  "ascending as \<Longrightarrow> ascending bs \<Longrightarrow> ascending (rowSetEntryMerge as bs)"
  by (induction as bs rule: rowSetEntryMerge.induct) (auto simp: not_less)

lemma rowSetEntryMerge_Nil [simp]: "rowSetEntryMerge as bs = [] \<longleftrightarrow> as = [] \<and> bs = []"
  by (metis set_empty2 set_rowSetEntryMerge sup_eq_bot_iff)

text \<open>A bucket of number \<^verbatim>\<open>i\<close> in use counts for \<^verbatim>\<open>2 ^ i\<close> entries: the buckets are a binary counter.\<close>

fun bucket_load :: "nat \<Rightarrow> int list list \<Rightarrow> nat" where
  "bucket_load w [] = 0"
| "bucket_load w (b # bs) = (if b = [] then 0 else w) + bucket_load (2 * w) bs"

lemma rowSetBucket_ok:
  assumes "p \<noteq> []" "ascending p" "list_all ascending bs" "bucket_load w bs + w < w * 2 ^ length bs"
  shows "\<exists>bs'. rowSetBucket p bs = Done bs' \<and> length bs' = length bs \<and> list_all ascending bs' \<and>
    bucket_load w bs' = bucket_load w bs + w \<and> \<Union> (set ` set bs') = set p \<union> \<Union> (set ` set bs)"
  using assms
proof (induction p bs arbitrary: w rule: rowSetBucket.induct)
  case (2 p b bs)
  show ?case
  proof (cases "b = []")
    case True
    then show ?thesis using "2.prems" by simp
  next
    case False
    have "\<exists>bs'. rowSetBucket (rowSetEntryMerge b p) bs = Done bs' \<and> length bs' = length bs \<and>
        list_all ascending bs' \<and> bucket_load (2 * w) bs' = bucket_load (2 * w) bs + 2 * w \<and>
        \<Union> (set ` set bs') = set (rowSetEntryMerge b p) \<union> \<Union> (set ` set bs)"
      using "2.prems" False by (intro "2.IH") (simp_all add: ascending_rowSetEntryMerge algebra_simps)
    then show ?thesis using False by (auto simp: exec_bind_Done)
  qed
qed simp

lemma rowSetFill_ok:
  assumes "list_all ascending bs" "bucket_load 1 bs + length xs < 2 ^ length bs"
  shows "\<exists>bs'. rowSetFill xs bs = Done bs' \<and> list_all ascending bs' \<and>
    \<Union> (set ` set bs') = set xs \<union> \<Union> (set ` set bs)"
  using assms
proof (induction xs arbitrary: bs)
  case (Cons x xs)
  obtain bs' where b: "rowSetBucket [x] bs = Done bs'" "length bs' = length bs"
      "list_all ascending bs'" "bucket_load 1 bs' = bucket_load 1 bs + 1"
      "\<Union> (set ` set bs') = {x} \<union> \<Union> (set ` set bs)"
    using rowSetBucket_ok [of "[x]" bs 1] Cons.prems by auto
  obtain bs'' where "rowSetFill xs bs' = Done bs''" "list_all ascending bs''"
      "\<Union> (set ` set bs'') = set xs \<union> \<Union> (set ` set bs')"
    using Cons.IH [of bs'] Cons.prems b by auto
  then show ?case using b by auto
qed simp

lemma foldl_rowSetEntryMerge:
  "ascending p \<Longrightarrow> list_all ascending bs \<Longrightarrow>
     ascending (foldl rowSetEntryMerge p bs) \<and>
     set (foldl rowSetEntryMerge p bs) = set p \<union> \<Union> (set ` set bs)"
  by (induction bs arbitrary: p) (auto simp: ascending_rowSetEntryMerge)

lemma ascending_unique: "ascending xs \<Longrightarrow> xs = sorted_list_of_set (set xs)"
  by (metis finite_set set_sorted_list_of_set strict_sorted_equal strict_sorted_list_of_set)

lemma bucket_load_replicate [simp]: "bucket_load w (replicate n []) = 0"
  by (induction n arbitrary: w) auto

lemma rowSetEntrySort_ok:
  assumes "length xs < 2 ^ 40"
  shows "rowSetEntrySort xs = Done (sorted_list_of_set (set xs))"
proof -
  have "list_all ascending (replicate 40 [])" by (simp add: list_all_iff)
  moreover have "bucket_load 1 (replicate 40 []) + length xs < 2 ^ length (replicate 40 ([] :: int list))"
    using assms by (simp only: bucket_load_replicate length_replicate)
  ultimately obtain bs where bs: "rowSetFill xs (replicate 40 []) = Done bs" "list_all ascending bs"
      "\<Union> (set ` set bs) = set xs \<union> \<Union> (set ` set (replicate 40 []))"
    using rowSetFill_ok [of "replicate 40 []" xs] by blast
  have "ascending (foldl rowSetEntryMerge [] bs)" "set (foldl rowSetEntryMerge [] bs) = set xs"
    using foldl_rowSetEntryMerge [of "[]" bs] bs by auto
  then have "foldl rowSetEntryMerge [] bs = sorted_list_of_set (set xs)"
    by (metis ascending_unique)
  then show ?thesis using bs by (simp add: rowSetEntrySort_def)
qed

subsection \<open>Trees of sorted lists\<close>

lemma rowSetTreeToList_inorder [simp]: "rowSetTreeToList t = inorder t"
  by (induction t rule: rowSetTreeToList.induct) auto

definition shallow :: "int tree \<Rightarrow> bool" where
  "shallow t \<longleftrightarrow> t = Leaf \<or> 2 ^ height t \<le> 2 * size t"

lemma rowSetNDeepTree_ok:
  "rowSetNDeepTree d xs = (t, rest) \<Longrightarrow>
     inorder t @ rest = xs \<and> height t \<le> Suc d \<and> (rest \<noteq> [] \<longrightarrow> size t + 1 = 2 ^ Suc d)"
proof (induction d xs arbitrary: t rest rule: rowSetNDeepTree.induct)
  case (3 d x xs)
  obtain l mid where l: "rowSetNDeepTree d (x # xs) = (l, mid)" by fastforce
  note left = "3.IH"(1) [OF l]
  show ?case
  proof (cases mid)
    case Nil
    then show ?thesis using "3.prems" l left by simp
  next
    case (Cons y ys)
    obtain r rest' where r: "rowSetNDeepTree d ys = (r, rest')" by fastforce
    have right: "inorder r @ rest' = ys \<and> height r \<le> Suc d \<and> (rest' \<noteq> [] \<longrightarrow> size r + 1 = 2 ^ Suc d)"
      by (rule "3.IH"(2) [OF l [symmetric] Cons r])
    have "t = Node l y r" "rest = rest'" using "3.prems" l Cons r by simp_all
    then show ?thesis using left right Cons by auto
  qed
qed auto

lemma rowSetListToTreeLoop_ok:
  assumes "size p + 1 = 2 ^ Suc d" "height p = Suc d"
  shows "inorder (rowSetListToTreeLoop p d xs) = inorder p @ xs \<and>
    2 ^ height (rowSetListToTreeLoop p d xs) \<le> 2 * size (rowSetListToTreeLoop p d xs)"
  using assms
proof (induction p d xs rule: rowSetListToTreeLoop.induct)
  case (1 p d)
  have "(2 :: nat) \<le> 2 ^ Suc d" by simp
  then show ?case using 1 by simp
next
  case (2 p d x xs)
  obtain r rest where r: "rowSetNDeepTree d xs = (r, rest)" by fastforce
  note ok = rowSetNDeepTree_ok [OF r]
  show ?case
  proof (cases "rest = []")
    case True
    then show ?thesis using 2 r ok by (auto simp: max_def)
  next
    case False
    then have "size (Node p x r) + 1 = 2 ^ Suc (Suc d)" "height (Node p x r) = Suc (Suc d)"
      using 2 ok by auto
    then show ?thesis using "2.IH" r ok by auto
  qed
qed

lemma rowSetListToTree_ok:
  assumes "p \<noteq> []" "ascending p"
  shows "\<exists>t. rowSetListToTree p = Done t \<and> inorder t = p \<and> bst t \<and> shallow t"
proof -
  obtain x xs where p: "p = x # xs" using assms by (cases p) auto
  then show ?thesis
    using rowSetListToTreeLoop_ok [of "Node Leaf x Leaf" 0 xs] assms
    by (auto simp: bst_iff_sorted_wrt_less shallow_def)
qed

lemma rowSetFind_bst [simp]: "bst t \<Longrightarrow> rowSetFind x t \<longleftrightarrow> x \<in> set_tree t"
  by (induction x t rule: rowSetFind.induct) force+

definition forest_ok :: "int tree list \<Rightarrow> bool" where
  "forest_ok ts \<longleftrightarrow> list_all (\<lambda>t. bst t \<and> shallow t) ts"

lemma shallow_Leaf [simp]: "shallow Leaf"
  by (simp add: shallow_def)

lemma forest_ok_simps [simp]:
  "forest_ok []" "forest_ok (t # ts) \<longleftrightarrow> bst t \<and> shallow t \<and> forest_ok ts"
  "forest_ok (ts @ us) \<longleftrightarrow> forest_ok ts \<and> forest_ok us"
  by (auto simp: forest_ok_def)

lemma rowSetPlace_ok:
  assumes "p \<noteq> []" "ascending p" "forest_ok ts"
  shows "\<exists>p' ts' placed. rowSetPlace p ts = Done (p', ts', placed) \<and> forest_ok ts' \<and>
    p' \<noteq> [] \<and> ascending p' \<and>
    (if placed then \<Union> (set_tree ` set ts') = set p \<union> \<Union> (set_tree ` set ts)
     else set p' = set p \<union> \<Union> (set_tree ` set ts) \<and> \<Union> (set_tree ` set ts') = {})"
  using assms
proof (induction p ts rule: rowSetPlace.induct)
  case (1 p)
  then show ?case by (intro exI [of _ p] exI [of _ "[]"] exI [of _ False]) simp
next
  case (2 p t ts)
  show ?case
  proof (cases "t = Leaf")
    case True
    obtain t' where "rowSetListToTree p = Done t'" "inorder t' = p" "bst t'" "shallow t'"
      using rowSetListToTree_ok "2.prems" by blast
    then show ?thesis using True "2.prems" by (auto simp flip: set_inorder)
  next
    case False
    have "ascending (inorder t)" using "2.prems" by (simp add: bst_iff_sorted_wrt_less)
    then obtain p' ts' placed where ok: "rowSetPlace (rowSetEntryMerge (inorder t) p) ts = Done (p', ts', placed)"
        "forest_ok ts'" "p' \<noteq> []" "ascending p'"
        "if placed then \<Union> (set_tree ` set ts') = set (rowSetEntryMerge (inorder t) p) \<union> \<Union> (set_tree ` set ts)
         else set p' = set (rowSetEntryMerge (inorder t) p) \<union> \<Union> (set_tree ` set ts) \<and>
           \<Union> (set_tree ` set ts') = {}"
      using "2.IH" False "2.prems" by (fastforce simp: ascending_rowSetEntryMerge)
    show ?thesis
      using False ok by (cases placed) (auto simp: Un_ac)
  qed
qed

subsection \<open>The contract\<close>

text \<open>
  A row set promises two sets: the rowids of earlier batches, which tests see, and those of the
  current batch.  \<^verbatim>\<open>sp_count\<close> counts the inserts.
\<close>

datatype rowset_op = Insert int | Test int int

record rowset_spec =
  sp_seen :: "int set"
  sp_new :: "int set"
  sp_batch :: int
  sp_count :: nat

fun rowset_step :: "rowset_op \<Rightarrow> rowset \<Rightarrow> (bool option \<times> rowset) exec" where
  "rowset_step (Insert x) s = exec_bind (sqlite3RowSetInsert s x) (\<lambda>s'. Done (None, s'))"
| "rowset_step (Test b x) s =
     exec_bind (sqlite3RowSetTest s b x) (\<lambda>(r, s'). Done (Some r, s'))"

definition next_batch :: "int \<Rightarrow> rowset_spec \<Rightarrow> rowset_spec" where
  "next_batch b a = (if b = sp_batch a then a
     else a\<lparr>sp_seen := sp_seen a \<union> sp_new a, sp_new := {}, sp_batch := b\<rparr>)"

fun rowset_spec_step :: "rowset_op \<Rightarrow> rowset_spec \<Rightarrow> bool option \<times> rowset_spec" where
  "rowset_spec_step (Insert x) a = (None, a\<lparr>sp_new := insert x (sp_new a), sp_count := sp_count a + 1\<rparr>)"
| "rowset_spec_step (Test b x) a = (Some (x \<in> sp_seen (next_batch b a)), next_batch b a)"

text \<open>Sorting has 40 buckets, so a row set may take in fewer than \<^verbatim>\<open>2 ^ 40\<close> rowids.\<close>

fun rowset_may :: "rowset_op \<Rightarrow> rowset_spec \<Rightarrow> bool" where
  "rowset_may (Insert x) a \<longleftrightarrow> sp_count a + 1 < 2 ^ 40"
| "rowset_may (Test b x) a \<longleftrightarrow> True"

definition spec_empty :: rowset_spec where
  "spec_empty = \<lparr>sp_seen = {}, sp_new = {}, sp_batch = 0, sp_count = 0\<rparr>"

definition list_end :: "int list \<Rightarrow> int option" where
  "list_end es = (if es = [] then None else Some (last es))"

lemma list_end_simps [simp]: "list_end [] = None" "list_end (es @ [x]) = Some x"
  by (simp_all add: list_end_def)

definition rowset_inv :: "rowset \<Rightarrow> bool" where
  "rowset_inv s \<longleftrightarrow> \<not> rs_next s \<and> rs_last s = list_end (rs_entry s) \<and>
     (rs_sorted s \<longrightarrow> ascending (rs_entry s)) \<and> forest_ok (rs_forest s)"

definition seen :: "rowset \<Rightarrow> int set" where
  "seen s = \<Union> (set_tree ` set (rs_forest s))"

text \<open>The relation that survives failed allocations: nothing is invented, and nothing lost before one.\<close>

definition rowset_rel :: "rowset \<Rightarrow> rowset_spec \<Rightarrow> bool" where
  "rowset_rel s a \<longleftrightarrow> rowset_inv s \<and> rs_batch s = sp_batch a \<and>
     length (rs_entry s) \<le> sp_count a \<and> sp_count a < 2 ^ 40 \<and>
     seen s \<subseteq> sp_seen a \<and> set (rs_entry s) \<subseteq> sp_new a \<and>
     (\<not> mallocFailed (rs_db s) \<longrightarrow> seen s = sp_seen a \<and> set (rs_entry s) = sp_new a)"

definition exact_rel :: "rowset \<Rightarrow> rowset_spec \<Rightarrow> bool" where
  "exact_rel s a \<longleftrightarrow> rowset_rel s a \<and> plenty (rs_db s)"

lemma rowSetEntryAlloc_cases:
  obtains (ok) db n c where "rowSetEntryAlloc s = (True, s\<lparr>rs_db := db, rs_nFresh := n, rs_chunks := c\<rparr>)"
      "mallocFailed db \<longleftrightarrow> mallocFailed (rs_db s)" "plenty (rs_db s) \<longrightarrow> plenty db"
  | (failed) db where "rowSetEntryAlloc s = (False, s\<lparr>rs_db := db\<rparr>)" "mallocFailed db" "\<not> plenty (rs_db s)"
proof (cases "rs_nFresh s = 0")
  case False
  then have "rowSetEntryAlloc s = (True, s\<lparr>rs_db := rs_db s, rs_nFresh := rs_nFresh s - 1, rs_chunks := rs_chunks s\<rparr>)"
    by (simp add: rowSetEntryAlloc_def)
  then show ?thesis by (rule ok) auto
next
  case True
  obtain b db where db: "sqlite3DbMallocRaw (rs_db s) = (b, db)" by fastforce
  note failed_db = sqlite3DbMallocRaw_failed [OF db]
  have plenty: "plenty (rs_db s) \<Longrightarrow> b \<and> plenty db"
    using sqlite3DbMallocRaw_plenty [of "rs_db s"] db by auto
  show ?thesis
  proof (cases b)
    case False
    show ?thesis
    proof (rule failed)
      show "rowSetEntryAlloc s = (False, s\<lparr>rs_db := db\<rparr>)"
        using True False db by (simp add: rowSetEntryAlloc_def)
    qed (use False failed_db plenty in auto)
  next
    case b: True
    have "\<not> mallocFailed (rs_db s)"
      using b db by (auto simp: sqlite3DbMallocRaw_def split: if_splits)
    then show ?thesis
      using b plenty failed_db
      by (intro ok [where db = db and n = "ROWSET_ENTRY_PER_CHUNK - 1" and c = "rs_chunks s + 1"])
        (simp_all add: rowSetEntryAlloc_def True db)
  qed
qed

lemma ascending_snoc: "ascending es \<Longrightarrow> (es = [] \<or> last es < x) \<Longrightarrow> ascending (es @ [x])"
  by (induction es rule: rev_induct) (auto simp: sorted_wrt_append)

lemma insert_rel:
  assumes "rowset_rel s a" "rowset_may (Insert x) a"
  shows "\<exists>s'. sqlite3RowSetInsert s x = Done s' \<and> rowset_rel s' (snd (rowset_spec_step (Insert x) a)) \<and>
    (plenty (rs_db s) \<longrightarrow> plenty (rs_db s')) \<and> (mallocFailed (rs_db s) \<longrightarrow> mallocFailed (rs_db s'))"
proof -
  have inv: "\<not> rs_next s" "rs_last s = list_end (rs_entry s)"
      "rs_sorted s \<longrightarrow> ascending (rs_entry s)" "forest_ok (rs_forest s)"
    using assms by (auto simp: rowset_rel_def rowset_inv_def)
  show ?thesis
  proof (cases s rule: rowSetEntryAlloc_cases)
    case (failed db)
    have "rowset_rel (s\<lparr>rs_db := db\<rparr>) (snd (rowset_spec_step (Insert x) a))"
      using assms failed by (auto simp: rowset_rel_def rowset_inv_def seen_def)
    then show ?thesis using inv failed by (simp add: sqlite3RowSetInsert_def)
  next
    case (ok db n c)
    define s' where "s' = s\<lparr>rs_db := db, rs_nFresh := n, rs_chunks := c,
      rs_sorted := (rs_sorted s \<and> (rs_entry s = [] \<or> last (rs_entry s) < x)),
      rs_entry := rs_entry s @ [x], rs_last := Some x\<rparr>"
    have "sqlite3RowSetInsert s x = Done s'"
      using inv ok by (auto simp: sqlite3RowSetInsert_def s'_def list_end_def not_le)
    moreover have "rowset_inv s'"
      using inv ascending_snoc [of "rs_entry s" x] by (auto simp: rowset_inv_def s'_def)
    moreover have "rowset_rel s' (snd (rowset_spec_step (Insert x) a))"
      using assms ok \<open>rowset_inv s'\<close> by (auto simp: rowset_rel_def s'_def seen_def)
    ultimately show ?thesis using ok by (simp add: s'_def)
  qed
qed

text \<open>What a change of the batch does: the entries join the trees, or everything is lost.\<close>

lemma rowSetNewBatch_ok:
  assumes "rowset_inv s" "length (rs_entry s) < 2 ^ 40"
  shows "\<exists>s'. rowSetNewBatch s = Done s' \<and> rowset_inv s' \<and> rs_entry s' = [] \<and>
    rs_batch s' = rs_batch s \<and> (plenty (rs_db s) \<longrightarrow> plenty (rs_db s')) \<and>
    (mallocFailed (rs_db s) \<longrightarrow> mallocFailed (rs_db s')) \<and>
    (seen s' = seen s \<union> set (rs_entry s) \<or> seen s' = {} \<and> mallocFailed (rs_db s'))"
proof (cases "rs_entry s = []")
  case True
  then show ?thesis using assms by (auto simp: rowSetNewBatch_def rowset_inv_def)
next
  case False
  define p where "p = sorted_list_of_set (set (rs_entry s))"
  have sort: "(if \<not> rs_sorted s then rowSetEntrySort (rs_entry s) else Done (rs_entry s)) = Done p"
    using assms ascending_unique [of "rs_entry s"]
    by (auto simp: p_def rowSetEntrySort_ok rowset_inv_def)
  have p: "p \<noteq> []" "ascending p" "set p = set (rs_entry s)" using False by (auto simp: p_def)
  have inv: "\<not> rs_next s" "forest_ok (rs_forest s)" using assms by (auto simp: rowset_inv_def)
  obtain p' ts placed where place: "rowSetPlace p (rs_forest s) = Done (p', ts, placed)"
      and ts: "forest_ok ts" and p': "p' \<noteq> []" "ascending p'"
      and sets: "if placed then \<Union> (set_tree ` set ts) = set p \<union> \<Union> (set_tree ` set (rs_forest s))
        else set p' = set p \<union> \<Union> (set_tree ` set (rs_forest s)) \<and> \<Union> (set_tree ` set ts) = {}"
    using rowSetPlace_ok [OF p(1,2) inv(2)] by blast
  obtain t where t: "rowSetListToTree p' = Done t" "inorder t = p'" "bst t" "shallow t"
    using rowSetListToTree_ok [OF p'] by blast
  then have set_t: "set_tree t = set p'" by (simp flip: set_inorder)
  have batch: "rowSetNewBatch s = exec_bind (if placed then Done (s\<lparr>rs_forest := ts\<rparr>)
      else (case rowSetEntryAlloc s of (ok, s) \<Rightarrow>
        if ok then exec_bind (rowSetListToTree p') (\<lambda>t. Done (s\<lparr>rs_forest := ts @ [t]\<rparr>))
        else Done (s\<lparr>rs_forest := ts\<rparr>))) (\<lambda>s.
      Done (s\<lparr>rs_entry := [], rs_last := None, rs_sorted := True\<rparr>))"
    unfolding rowSetNewBatch_def sort using False place by (auto split: prod.splits)
  show ?thesis
  proof (cases placed)
    case True
    then show ?thesis
      using batch inv ts sets p by (auto simp: rowset_inv_def seen_def)
  next
    case not_placed: False
    show ?thesis
    proof (cases s rule: rowSetEntryAlloc_cases)
      case (failed db)
      then show ?thesis
        using batch inv ts sets not_placed by (auto simp: rowset_inv_def seen_def)
    next
      case (ok db n c)
      then show ?thesis
        using batch inv ts sets not_placed t set_t p by (auto simp: rowset_inv_def seen_def)
    qed
  qed
qed

lemma rowset_find: "forest_ok ts \<Longrightarrow> (\<exists>t\<in>set ts. rowSetFind x t) \<longleftrightarrow> x \<in> \<Union> (set_tree ` set ts)"
  by (auto simp: forest_ok_def list_all_iff)

lemma test_rel:
  assumes "rowset_rel s a"
  shows "\<exists>r s'. sqlite3RowSetTest s b x = Done (r, s') \<and> rowset_rel s' (next_batch b a) \<and>
    (plenty (rs_db s) \<longrightarrow> plenty (rs_db s')) \<and> (mallocFailed (rs_db s) \<longrightarrow> mallocFailed (rs_db s')) \<and>
    (r \<longrightarrow> x \<in> sp_seen (next_batch b a)) \<and>
    (\<not> mallocFailed (rs_db s') \<longrightarrow> (r \<longleftrightarrow> x \<in> sp_seen (next_batch b a)))"
proof -
  have "\<exists>s'. (if b \<noteq> rs_batch s then exec_bind (rowSetNewBatch s) (\<lambda>s. Done (s\<lparr>rs_batch := b\<rparr>)) else Done s) = Done s' \<and>
      rowset_rel s' (next_batch b a) \<and> (plenty (rs_db s) \<longrightarrow> plenty (rs_db s')) \<and>
      (mallocFailed (rs_db s) \<longrightarrow> mallocFailed (rs_db s'))"
  proof (cases "b = rs_batch s")
    case True
    then show ?thesis using assms by (simp add: next_batch_def rowset_rel_def)
  next
    case False
    obtain s1 where s1: "rowSetNewBatch s = Done s1" "rowset_inv s1" "rs_entry s1 = []"
        "plenty (rs_db s) \<longrightarrow> plenty (rs_db s1)" "mallocFailed (rs_db s) \<longrightarrow> mallocFailed (rs_db s1)"
        "seen s1 = seen s \<union> set (rs_entry s) \<or> seen s1 = {} \<and> mallocFailed (rs_db s1)"
      using rowSetNewBatch_ok [of s] assms by (auto simp: rowset_rel_def)
    have "rowset_inv (s1\<lparr>rs_batch := b\<rparr>)" "seen (s1\<lparr>rs_batch := b\<rparr>) = seen s1"
      using s1 by (simp_all add: rowset_inv_def seen_def)
    then have "rowset_rel (s1\<lparr>rs_batch := b\<rparr>) (next_batch b a)"
      using assms False s1 by (auto simp: rowset_rel_def next_batch_def)
    then show ?thesis using False s1 by auto
  qed
  then obtain s' where s': "(if b \<noteq> rs_batch s then exec_bind (rowSetNewBatch s) (\<lambda>s. Done (s\<lparr>rs_batch := b\<rparr>)) else Done s) = Done s'"
      and rel: "rowset_rel s' (next_batch b a)" "plenty (rs_db s) \<longrightarrow> plenty (rs_db s')"
      "mallocFailed (rs_db s) \<longrightarrow> mallocFailed (rs_db s')"
    by blast
  have "\<not> rs_next s" "forest_ok (rs_forest s')"
    using assms rel by (auto simp: rowset_rel_def rowset_inv_def)
  then have "sqlite3RowSetTest s b x = Done (x \<in> seen s', s')"
    using s' by (simp add: sqlite3RowSetTest_def rowset_find seen_def)
  then show ?thesis using rel by (auto simp: rowset_rel_def)
qed

lemma rowset_step_rel:
  assumes "rowset_rel s a" "rowset_may x a"
  shows "\<exists>r s'. rowset_step x s = Done (r, s') \<and> rowset_rel s' (snd (rowset_spec_step x a)) \<and>
    (plenty (rs_db s) \<longrightarrow> plenty (rs_db s')) \<and> (mallocFailed (rs_db s) \<longrightarrow> mallocFailed (rs_db s')) \<and>
    (r = Some True \<longrightarrow> fst (rowset_spec_step x a) = Some True) \<and>
    (\<not> mallocFailed (rs_db s') \<longrightarrow> r = fst (rowset_spec_step x a))"
proof (cases x)
  case (Insert y)
  then show ?thesis using insert_rel [of s a y] assms by fastforce
next
  case (Test b y)
  obtain r s' where "sqlite3RowSetTest s b y = Done (r, s')" "rowset_rel s' (next_batch b a)"
      "plenty (rs_db s) \<longrightarrow> plenty (rs_db s')" "mallocFailed (rs_db s) \<longrightarrow> mallocFailed (rs_db s')"
      "r \<longrightarrow> y \<in> sp_seen (next_batch b a)"
      "\<not> mallocFailed (rs_db s') \<longrightarrow> (r \<longleftrightarrow> y \<in> sp_seen (next_batch b a))"
    using test_rel [OF assms(1), of b y] by blast
  then show ?thesis using Test by simp
qed

interpretation rowset: simulation rowset_step rowset_spec_step rowset_may exact_rel
proof
  fix s a x
  assume "exact_rel s a" "rowset_may x a"
  then show "\<exists>s'. rowset_step x s = Done (fst (rowset_spec_step x a), s') \<and>
      exact_rel s' (snd (rowset_spec_step x a))"
    using rowset_step_rel [of s a x] by (auto simp: exact_rel_def plenty_def)
qed

lemma rowset_histories:
  "rowset_rel s a \<Longrightarrow> allowed rowset_may rowset_spec_step ops a \<Longrightarrow>
   \<exists>rs s'. history rowset_step ops s = Done (rs, s') \<and>
     rowset_rel s' (snd (spec_history rowset_spec_step ops a)) \<and>
     (mallocFailed (rs_db s) \<longrightarrow> mallocFailed (rs_db s')) \<and>
     list_all2 (\<lambda>r r'. r = Some True \<longrightarrow> r' = Some True) rs (fst (spec_history rowset_spec_step ops a)) \<and>
     (\<not> mallocFailed (rs_db s') \<longrightarrow> rs = fst (spec_history rowset_spec_step ops a))"
proof (induction ops arbitrary: s a)
  case Nil
  then show ?case by simp
next
  case (Cons x ops)
  obtain r s1 where s1: "rowset_step x s = Done (r, s1)" "rowset_rel s1 (snd (rowset_spec_step x a))"
      "mallocFailed (rs_db s) \<longrightarrow> mallocFailed (rs_db s1)"
      "r = Some True \<longrightarrow> fst (rowset_spec_step x a) = Some True"
      "\<not> mallocFailed (rs_db s1) \<longrightarrow> r = fst (rowset_spec_step x a)"
    using rowset_step_rel [of s a x] Cons.prems by auto
  obtain rs s2 where "history rowset_step ops s1 = Done (rs, s2)"
      "rowset_rel s2 (snd (spec_history rowset_spec_step ops (snd (rowset_spec_step x a))))"
      "mallocFailed (rs_db s1) \<longrightarrow> mallocFailed (rs_db s2)"
      "list_all2 (\<lambda>r r'. r = Some True \<longrightarrow> r' = Some True) rs
         (fst (spec_history rowset_spec_step ops (snd (rowset_spec_step x a))))"
      "\<not> mallocFailed (rs_db s2) \<longrightarrow> rs = fst (spec_history rowset_spec_step ops (snd (rowset_spec_step x a)))"
    using Cons.IH [OF s1(2)] Cons.prems by auto
  then show ?case using s1 by auto
qed

lemma Init_rel:
  assumes "sqlite3RowSetInit db N = Done s"
  shows "rowset_rel s spec_empty" "rs_db s = db"
  using assms
  by (auto simp: sqlite3RowSetInit_def rowset_rel_def rowset_inv_def spec_empty_def seen_def split: if_splits)

lemma sp_count_step [simp]:
  "sp_count (snd (rowset_spec_step x a)) \<le> Suc (sp_count a)"
  by (cases x) (auto simp: next_batch_def)

lemma allowed_short:
  "sp_count a + length ops < 2 ^ 40 \<Longrightarrow> allowed rowset_may rowset_spec_step ops a"
proof (induction ops arbitrary: a)
  case Nil
  then show ?case by simp
next
  case (Cons x ops)
  have "rowset_may x a" using Cons.prems by (cases x) auto
  moreover have "sp_count (snd (rowset_spec_step x a)) + length ops < 2 ^ 40"
    by (rule le_less_trans [OF _ Cons.prems]) (use sp_count_step [of x a] in simp)
  ultimately show ?case using Cons.IH by simp
qed

subsection \<open>Enumeration\<close>

definition next_step :: "unit \<Rightarrow> rowset \<Rightarrow> (int option \<times> rowset) exec" where
  "next_step u s = sqlite3RowSetNext s"

text \<open>Once \<^verbatim>\<open>sqlite3RowSetNext\<close> has been called, the rest of the list comes out one by one.\<close>

lemma next_tail:
  "rs_next s \<Longrightarrow> rs_entry s = es \<Longrightarrow> es \<noteq> [] \<Longrightarrow>
     history next_step (replicate (length es) ()) s = Done (map Some es, sqlite3RowSetClear s)"
proof (induction es arbitrary: s)
  case (Cons e es)
  show ?case
  proof (cases "es = []")
    case True
    then show ?thesis
      using Cons.prems by (simp add: next_step_def sqlite3RowSetNext_def sqlite3RowSetClear_def)
  next
    case False
    have "sqlite3RowSetClear (s\<lparr>rs_entry := es\<rparr>) = sqlite3RowSetClear s"
      by (simp add: sqlite3RowSetClear_def)
    then show ?thesis
      using Cons.IH [of "s\<lparr>rs_entry := es\<rparr>"] Cons.prems False
      by (simp add: next_step_def sqlite3RowSetNext_def)
  qed
qed simp

lemma spec_inserts:
  "spec_history rowset_spec_step (map Insert xs) a =
     (replicate (length xs) None,
      a\<lparr>sp_new := set xs \<union> sp_new a, sp_count := sp_count a + length xs\<rparr>)"
  by (induction xs arbitrary: a) auto

lemma enumerate:
  assumes "rowset_inv s" "length (rs_entry s) < 2 ^ 40" "rs_entry s \<noteq> []"
  defines "es \<equiv> sorted_list_of_set (set (rs_entry s))"
  shows "\<exists>s'. history next_step (replicate (length es + 1) ()) s = Done (map Some es @ [None], s') \<and>
    rs_entry s' = [] \<and> rs_chunks s' = 0"
proof -
  have es: "es \<noteq> []" using assms by (simp add: es_def)
  define s1 where "s1 = s\<lparr>rs_entry := es, rs_next := True\<rparr>"
  have toList: "rowSetToList s = Done s1"
    using assms ascending_unique [of "rs_entry s"]
    by (auto simp: rowSetToList_def rowset_inv_def s1_def es_def rowSetEntrySort_ok)
  have "sqlite3RowSetNext s = sqlite3RowSetNext s1"
    using assms(1) toList by (simp add: sqlite3RowSetNext_def rowset_inv_def s1_def)
  then have same: "history next_step (replicate (length es) ()) s = history next_step (replicate (length es) ()) s1"
    using es by (cases es) (simp_all add: next_step_def)
  have tail: "history next_step (replicate (length es) ()) s1 = Done (map Some es, sqlite3RowSetClear s1)"
    by (rule next_tail) (use es in \<open>simp_all add: s1_def\<close>)
  have "replicate (length es + 1) () = replicate (length es) () @ [()]"
    using replicate_add [of "length es" 1 "()"] by simp
  then show ?thesis
    unfolding history_append
    by (simp add: history_append same tail next_step_def sqlite3RowSetNext_def rowSetToList_def
        sqlite3RowSetClear_def)
qed

subsection \<open>Properties\<close>

text \<open>
  Property C23.  A row set is a set in batches: any history of inserts and tests on a fresh row
  set runs to its end, and a test answers whether the rowid was inserted before the last change
  of the batch number, as the two-set specification says; memory must not run out and fewer than
  \<^verbatim>\<open>2 ^ 40\<close> calls be made.
\<close>

theorem rowset_refines_batched_sets:
  assumes "sqlite3RowSetInit db N = Done s" "plenty db" "length ops < 2 ^ 40"
  shows "\<exists>s'. history rowset_step ops s = Done (fst (spec_history rowset_spec_step ops spec_empty), s')"
proof -
  have "exact_rel s spec_empty" using Init_rel [OF assms(1)] assms(2) by (simp add: exact_rel_def)
  moreover have "allowed rowset_may rowset_spec_step ops spec_empty"
    by (rule allowed_short) (simp only: spec_empty_def rowset_spec.simps add_0 assms(3))
  ultimately show ?thesis using rowset.history_simulates by blast
qed

theorem rowset_refines_batched_sets_witness:
  "\<exists>s s'. sqlite3RowSetInit \<lparr>mallocFailed = False, mallocs = []\<rparr> 64 = Done s \<and>
     history rowset_step [Insert 5, Insert 3, Test 1 5, Insert 7, Test 1 7, Test 2 7] s =
       Done ([None, None, Some True, None, Some False, Some True], s')"
proof -
  obtain s where s: "sqlite3RowSetInit \<lparr>mallocFailed = False, mallocs = []\<rparr> 64 = Done s"
    by (simp add: sqlite3RowSetInit_def)
  show ?thesis
    using rowset_refines_batched_sets [OF s, of "[Insert 5, Insert 3, Test 1 5, Insert 7, Test 1 7, Test 2 7]"] s
    by (simp add: plenty_def next_batch_def spec_empty_def del: history.simps)
qed

text \<open>
  Property C29.  Out of memory: whatever allocations fail, a history runs to its end, a positive
  answer is always true, and as long as \<^verbatim>\<open>mallocFailed\<close> is not set every answer is exact.
\<close>

theorem rowset_out_of_memory_sound:
  assumes "sqlite3RowSetInit db N = Done s" "length ops < 2 ^ 40"
  shows "\<exists>rs s'. history rowset_step ops s = Done (rs, s') \<and>
    list_all2 (\<lambda>r r'. r = Some True \<longrightarrow> r' = Some True) rs
      (fst (spec_history rowset_spec_step ops spec_empty)) \<and>
    (\<not> mallocFailed (rs_db s') \<longrightarrow> rs = fst (spec_history rowset_spec_step ops spec_empty))"
proof -
  have "allowed rowset_may rowset_spec_step ops spec_empty"
    by (rule allowed_short) (simp only: spec_empty_def rowset_spec.simps add_0 assms(2))
  from rowset_histories [OF Init_rel(1) [OF assms(1)] this] show ?thesis by blast
qed

theorem rowset_out_of_memory_sound_witness:
  "\<exists>s rs s'. sqlite3RowSetInit \<lparr>mallocFailed = False, mallocs = [False]\<rparr> 48 = Done s \<and>
     history rowset_step [Insert 5, Test 1 5, Test 1 6] s = Done (rs, s') \<and> rs ! 2 \<noteq> Some True"
proof -
  obtain s where s: "sqlite3RowSetInit \<lparr>mallocFailed = False, mallocs = [False]\<rparr> 48 = Done s"
    by (simp add: sqlite3RowSetInit_def)
  obtain rs s' where "history rowset_step [Insert 5, Test 1 5, Test 1 6] s = Done (rs, s')"
      "list_all2 (\<lambda>r r'. r = Some True \<longrightarrow> r' = Some True) rs
        (fst (spec_history rowset_spec_step [Insert 5, Test 1 5, Test 1 6] spec_empty))"
    using rowset_out_of_memory_sound [OF s, of "[Insert 5, Test 1 5, Test 1 6]"]
    by (auto simp del: history.simps)
  then show ?thesis
    using s list_all2_nthD2 [of _ rs "fst (spec_history rowset_spec_step [Insert 5, Test 1 5, Test 1 6] spec_empty)" 2]
    by (fastforce simp: next_batch_def spec_empty_def simp del: history.simps)
qed

text \<open>
  Property C30.  The invariant of the forest: after any history every tree is a search tree whose
  height is logarithmic in its size, so that no test walks a long branch.
\<close>

theorem rowset_trees_stay_balanced:
  assumes "sqlite3RowSetInit db N = Done s" "length ops < 2 ^ 40"
  shows "\<exists>rs s'. history rowset_step ops s = Done (rs, s') \<and>
    list_all (\<lambda>t. bst t \<and> (if t = Leaf then True else 2 ^ height t \<le> 2 * size t)) (rs_forest s')"
proof -
  have "allowed rowset_may rowset_spec_step ops spec_empty"
    by (rule allowed_short) (simp only: spec_empty_def rowset_spec.simps add_0 assms(2))
  from rowset_histories [OF Init_rel(1) [OF assms(1)] this] obtain rs s' where
    "history rowset_step ops s = Done (rs, s')" "forest_ok (rs_forest s')"
    by (auto simp: rowset_rel_def rowset_inv_def)
  then show ?thesis by (auto simp: forest_ok_def list_all_iff shallow_def)
qed

theorem rowset_trees_stay_balanced_witness:
  "\<exists>s rs s'. sqlite3RowSetInit \<lparr>mallocFailed = False, mallocs = []\<rparr> 32 = Done s \<and>
     history rowset_step ([Insert 3, Insert 1, Insert 2, Test 1 5]) s = Done (rs, s') \<and>
     list_all bst (rs_forest s')"
proof -
  obtain s where s: "sqlite3RowSetInit \<lparr>mallocFailed = False, mallocs = []\<rparr> 32 = Done s"
    by (simp add: sqlite3RowSetInit_def)
  have "length ([Insert 3, Insert 1, Insert 2, Test 1 5]) < 2 ^ 40" by simp
  then obtain rs s' where h: "history rowset_step [Insert 3, Insert 1, Insert 2, Test 1 5] s = Done (rs, s')"
      "list_all (\<lambda>t. bst t \<and> (if t = Leaf then True else 2 ^ height t \<le> 2 * size t)) (rs_forest s')"
    using rowset_trees_stay_balanced [OF s] by blast
  then have "list_all bst (rs_forest s')" by (simp add: list_all_iff)
  then show ?thesis using s h(1) by blast
qed

text \<open>
  Property C24.  Extraction ends and is sorted: after any inserts, \<^verbatim>\<open>sqlite3RowSetNext\<close> returns
  the distinct rowids in increasing order and then 0, and has given all memory back.
\<close>

theorem rowset_enumerates_sorted:
  assumes "sqlite3RowSetInit db N = Done s" "plenty db" "length xs < 2 ^ 40"
  shows "\<exists>s1 s2. history rowset_step (map Insert xs) s = Done (replicate (length xs) None, s1) \<and>
    history next_step (replicate (card (set xs) + 1) ()) s1 =
      Done (map Some (sorted_list_of_set (set xs)) @ [None], s2) \<and>
    rs_entry s2 = [] \<and> rs_chunks s2 = 0"
proof (cases "xs = []")
  case True
  then show ?thesis
    using assms(1) by (auto simp: sqlite3RowSetInit_def next_step_def sqlite3RowSetNext_def rowSetToList_def
      split: if_splits)
next
  case False
  have "exact_rel s spec_empty" using Init_rel [OF assms(1)] assms(2) by (simp add: exact_rel_def)
  moreover have "allowed rowset_may rowset_spec_step (map Insert xs) spec_empty"
    by (rule allowed_short) (simp only: spec_empty_def rowset_spec.simps add_0 assms(3) length_map)
  ultimately obtain s1 where s1: "history rowset_step (map Insert xs) s = Done (replicate (length xs) None, s1)"
      "exact_rel s1 (spec_empty\<lparr>sp_new := set xs, sp_count := length xs\<rparr>)"
    using rowset.history_simulates [of s spec_empty "map Insert xs"]
    by (auto simp: spec_inserts spec_empty_def)
  then have "rowset_inv s1" "set (rs_entry s1) = set xs" "length (rs_entry s1) < 2 ^ 40"
    by (auto simp: exact_rel_def rowset_rel_def plenty_def)
  moreover from this False have "rs_entry s1 \<noteq> []" by auto
  ultimately show ?thesis
    using enumerate [of s1] s1 by simp
qed

theorem rowset_enumerates_sorted_witness:
  "\<exists>s s1 s2. sqlite3RowSetInit \<lparr>mallocFailed = False, mallocs = []\<rparr> 32 = Done s \<and>
     history rowset_step (map Insert [7, 3, 7, 5]) s = Done ([None, None, None, None], s1) \<and>
     history next_step [(), (), (), ()] s1 = Done ([Some 3, Some 5, Some 7, None], s2)"
proof -
  obtain s where s: "sqlite3RowSetInit \<lparr>mallocFailed = False, mallocs = []\<rparr> 32 = Done s"
    by (simp add: sqlite3RowSetInit_def)
  have "sorted_list_of_set (set [7, 3, 7, 5]) = [3, 5, 7 :: int]" "card (set [7, 3, 7, 5 :: int]) + 1 = 4"
    by code_simp+
  moreover have "replicate 4 () = [(), (), (), ()]" "replicate 4 None = [None, None, None, None :: bool option]"
    by code_simp+
  moreover have "plenty \<lparr>mallocFailed = False, mallocs = []\<rparr>" "length [7, 3, 7, 5 :: int] = 4"
    by (simp_all add: plenty_def)
  moreover have "(4 :: nat) < 2 ^ 40" by simp
  ultimately show ?thesis
    using rowset_enumerates_sorted [OF s, of "[7, 3, 7, 5]"] s
    by (simp only: list.map append.simps) blast
qed

end
