(* ===== verification/Hash.thy ===== *)
theory Hash
  imports Ctype "HOL-Library.AList"
begin

text \<open>
  The generic hash table of \<^verbatim>\<open>hash.c\<close> (in \<^verbatim>\<open>sqlite/3.8.11/sqlite3.c\<close>), with string keys that
  are compared without regard to case.

  All elements are on one doubly linked list in memory.  The memory of the elements is an
  explicit store: an association list from addresses to elements, so that following a dangling or
  NULL pointer is \<^verbatim>\<open>Undefined\<close>.  A data pointer is a number, 0 for NULL.  The strings the keys
  point to belong to the caller, who keeps them unchanged while they are in the table.

  The allocator is a parameter: \<^verbatim>\<open>fresh\<close> picks the address of a new element from the live ones,
  and \<^verbatim>\<open>usable\<close> is the size \<^verbatim>\<open>sqlite3MallocSize\<close> reports for a request; which requests fail is
  in the state, separately for elements and for bucket arrays.
\<close>

subsection \<open>State\<close>

record HashElem =
  elem_next :: "nat option"
  elem_prev :: "nat option"
  elem_data :: nat
  elem_key :: string

type_synonym store = "(nat \<times> HashElem) list"

record HashTable =
  htsize :: nat
  hcount :: nat
  first :: "nat option"
  ht :: "(nat \<times> nat option) list option"
  store :: store
  elem_mallocs :: "bool list"
  ht_mallocs :: "bool list"

text \<open>Reading and writing through a pointer, and \<^verbatim>\<open>sqlite3_free\<close>.\<close>

definition elem_at :: "store \<Rightarrow> nat \<Rightarrow> HashElem exec" where
  "elem_at s a = (case map_of s a of None \<Rightarrow> Undefined | Some e \<Rightarrow> Done e)"

definition write_elem :: "nat \<Rightarrow> (HashElem \<Rightarrow> HashElem) \<Rightarrow> HashTable \<Rightarrow> HashTable exec" where
  "write_elem a f H = exec_bind (elem_at (store H) a)
     (\<lambda>e. Done (H\<lparr>store := AList.update a (f e) (store H)\<rparr>))"

definition free_elem :: "nat \<Rightarrow> HashTable \<Rightarrow> HashTable exec" where
  "free_elem a H = exec_bind (elem_at (store H) a) (\<lambda>e. Done (H\<lparr>store := AList.delete a (store H)\<rparr>))"

definition sqlite3HashInit :: "bool list \<Rightarrow> bool list \<Rightarrow> HashTable" where
  "sqlite3HashInit em hm = \<lparr>htsize = 0, hcount = 0, first = None, ht = None, store = [],
     elem_mallocs = em, ht_mallocs = hm\<rparr>"

subsection \<open>Clearing\<close>

function hashClearLoop :: "nat option \<Rightarrow> store \<Rightarrow> store exec" where
  "hashClearLoop None s = Done s"
| "hashClearLoop (Some a) s = (case map_of s a of
       None \<Rightarrow> Undefined
     | Some e \<Rightarrow> hashClearLoop (elem_next e) (AList.delete a s))"
  by pat_completeness auto

termination
proof (relation "measure (\<lambda>(p, s). length s)")
  fix a :: nat and s :: store and e
  assume "map_of s a = Some e"
  then have "(a, e) \<in> set s" by (rule map_of_SomeD)
  then show "((elem_next e, AList.delete a s), Some a, s) \<in> measure (\<lambda>(p, s). length s)"
    by (simp add: AList.delete_eq length_filter_less)
qed simp

definition sqlite3HashClear :: "HashTable \<Rightarrow> HashTable exec" where
  "sqlite3HashClear H = exec_bind (hashClearLoop (first H) (store H)) (\<lambda>s.
     Done (H\<lparr>first := None, ht := None, htsize := 0, store := s, hcount := 0\<rparr>))"

subsection \<open>Hashing\<close>

fun strHashLoop :: "u32 \<Rightarrow> string \<Rightarrow> u32" where
  "strHashLoop h [] = h"
| "strHashLoop h (c # z) =
     (if c = NUL then h
      else strHashLoop ((push_bit 3 h XOR h) XOR of_nat (sqlite3UpperToLower ! code c)) z)"

definition strHash :: "string \<Rightarrow> u32" where
  "strHash z = strHashLoop 0 z"

subsection \<open>The list and the buckets\<close>

text \<open>The bucket \<^verbatim>\<open>pEntry\<close> is given by its index in \<^verbatim>\<open>pH->ht\<close>, or is NULL.\<close>

definition enterBucket :: "nat option \<Rightarrow> nat \<Rightarrow> HashTable \<Rightarrow> (nat option \<times> HashTable) exec" where
  "enterBucket pEntry new H =
     (case pEntry of
        None \<Rightarrow> Done (None, H)
      | Some i \<Rightarrow> (case ht H of
          None \<Rightarrow> Undefined
        | Some bs \<Rightarrow>
            if i < length bs
            then Done (if fst (bs ! i) \<noteq> 0 then snd (bs ! i) else None,
              H\<lparr>ht := Some (bs[i := (fst (bs ! i) + 1, Some new)])\<rparr>)
            else Undefined))"

definition linkElement :: "nat option \<Rightarrow> nat \<Rightarrow> HashTable \<Rightarrow> HashTable exec" where
  "linkElement pHead new H =
     (case pHead of
        Some head \<Rightarrow>
          exec_bind (elem_at (store H) head) (\<lambda>e.
          exec_bind (write_elem new (\<lambda>n. n\<lparr>elem_next := Some head, elem_prev := elem_prev e\<rparr>) H) (\<lambda>H.
          exec_bind (case elem_prev e of
              Some p \<Rightarrow> write_elem p (\<lambda>e. e\<lparr>elem_next := Some new\<rparr>) H
            | None \<Rightarrow> Done (H\<lparr>first := Some new\<rparr>)) (\<lambda>H.
          write_elem head (\<lambda>e. e\<lparr>elem_prev := Some new\<rparr>) H)))
      | None \<Rightarrow>
          exec_bind (write_elem new (\<lambda>n. n\<lparr>elem_next := first H\<rparr>) H) (\<lambda>H.
          exec_bind (case first H of
              Some f \<Rightarrow> write_elem f (\<lambda>e. e\<lparr>elem_prev := Some new\<rparr>) H
            | None \<Rightarrow> Done H) (\<lambda>H.
          exec_bind (write_elem new (\<lambda>n. n\<lparr>elem_prev := None\<rparr>) H) (\<lambda>H.
          Done (H\<lparr>first := Some new\<rparr>)))))"

definition insertElement :: "nat option \<Rightarrow> nat \<Rightarrow> HashTable \<Rightarrow> HashTable exec" where
  "insertElement pEntry new H =
     exec_bind (enterBucket pEntry new H) (\<lambda>(pHead, H). linkElement pHead new H)"

text \<open>
  The loop of \<^verbatim>\<open>rehash\<close> follows the \<^verbatim>\<open>next\<close> pointers of the list it is taking apart; the fuel is
  the number of elements, and running out of it counts as undefined.
\<close>

fun rehashLoop :: "nat \<Rightarrow> nat option \<Rightarrow> HashTable \<Rightarrow> HashTable exec" where
  "rehashLoop k None H = Done H"
| "rehashLoop 0 (Some a) H = Undefined"
| "rehashLoop (Suc k) (Some a) H =
     exec_bind (elem_at (store H) a) (\<lambda>e.
     exec_bind (insertElement (Some (unat (strHash (elem_key e)) mod htsize H)) a H)
       (rehashLoop k (elem_next e)))"

definition SQLITE_MALLOC_SOFT_LIMIT :: nat where "SQLITE_MALLOC_SOFT_LIMIT = 1024"

text \<open>\<^verbatim>\<open>sizeof(struct _ht)\<close> is 8.\<close>

definition rehash :: "(nat \<Rightarrow> nat) \<Rightarrow> HashTable \<Rightarrow> nat \<Rightarrow> (bool \<times> HashTable) exec" where
  "rehash usable H new_size =
     (let new_size = (if new_size * 8 > SQLITE_MALLOC_SOFT_LIMIT
                      then SQLITE_MALLOC_SOFT_LIMIT div 8 else new_size)
      in if new_size = htsize H then Done (False, H)
         else (case alloc (ht_mallocs H) of (ok, ms) \<Rightarrow>
           if \<not> ok then Done (False, H\<lparr>ht_mallocs := ms\<rparr>)
           else let n = usable (new_size * 8) div 8
             in if n = 0 then Undefined
                else exec_bind (rehashLoop (length (store H)) (first H)
                    (H\<lparr>ht := Some (replicate n (0, None)), htsize := n, first := None, ht_mallocs := ms\<rparr>))
                  (\<lambda>H. Done (True, H))))"

subsection \<open>Finding\<close>

fun findLoop :: "nat \<Rightarrow> nat option \<Rightarrow> store \<Rightarrow> string \<Rightarrow> nat option exec" where
  "findLoop 0 el s pKey = Done None"
| "findLoop (Suc n) None s pKey = Undefined"
| "findLoop (Suc n) (Some a) s pKey = exec_bind (elem_at s a) (\<lambda>e.
     if sqlite3_stricmp (Some (elem_key e)) (Some pKey) = 0 then Done (Some a)
     else findLoop n (elem_next e) s pKey)"

definition findElementWithHash :: "HashTable \<Rightarrow> string \<Rightarrow> (nat option \<times> nat) exec" where
  "findElementWithHash H pKey =
     (case ht H of
        Some bs \<Rightarrow>
          (if htsize H = 0 then Undefined
           else let h = unat (strHash pKey) mod htsize H
             in if h < length bs
                then exec_bind (findLoop (fst (bs ! h)) (snd (bs ! h)) (store H) pKey) (\<lambda>r. Done (r, h))
                else Undefined)
      | None \<Rightarrow> exec_bind (findLoop (hcount H) (first H) (store H) pKey) (\<lambda>r. Done (r, 0)))"

definition sqlite3HashFind :: "HashTable \<Rightarrow> string \<Rightarrow> nat exec" where
  "sqlite3HashFind H pKey = exec_bind (findElementWithHash H pKey) (\<lambda>(r, h).
     case r of
       Some a \<Rightarrow> exec_bind (elem_at (store H) a) (\<lambda>e. Done (elem_data e))
     | None \<Rightarrow> Done 0)"

subsection \<open>Removing and inserting\<close>

definition leaveBucket :: "nat \<Rightarrow> nat option \<Rightarrow> nat \<Rightarrow> HashTable \<Rightarrow> HashTable exec" where
  "leaveBucket a nxt h H =
     (case ht H of
        None \<Rightarrow> Done H
      | Some bs \<Rightarrow>
          if h < length bs \<and> fst (bs ! h) \<noteq> 0
          then Done (H\<lparr>ht := Some (bs[h := (fst (bs ! h) - 1,
            if snd (bs ! h) = Some a then nxt else snd (bs ! h))])\<rparr>)
          else Undefined)"

definition unlinkElement :: "HashElem \<Rightarrow> HashTable \<Rightarrow> HashTable exec" where
  "unlinkElement e H =
     exec_bind (case elem_prev e of
         Some p \<Rightarrow> write_elem p (\<lambda>x. x\<lparr>elem_next := elem_next e\<rparr>) H
       | None \<Rightarrow> Done (H\<lparr>first := elem_next e\<rparr>)) (\<lambda>H.
     case elem_next e of
         Some n \<Rightarrow> write_elem n (\<lambda>x. x\<lparr>elem_prev := elem_prev e\<rparr>) H
       | None \<Rightarrow> Done H)"

definition removeElementGivenHash :: "HashTable \<Rightarrow> nat \<Rightarrow> nat \<Rightarrow> HashTable exec" where
  "removeElementGivenHash H a h =
     exec_bind (elem_at (store H) a) (\<lambda>e.
     exec_bind (unlinkElement e H) (\<lambda>H.
     exec_bind (leaveBucket a (elem_next e) h H) (\<lambda>H.
     exec_bind (free_elem a H) (\<lambda>H.
     if hcount H = 0 then Undefined
     else let H = H\<lparr>hcount := hcount H - 1\<rparr>
       in if hcount H = 0 then sqlite3HashClear H else Done H))))"

definition hashInsertNew :: "(nat \<Rightarrow> nat) \<Rightarrow> string \<Rightarrow> nat \<Rightarrow> nat \<Rightarrow> HashTable \<Rightarrow> (nat \<times> HashTable) exec" where
  "hashInsertNew usable pKey new h H =
     exec_bind (if hcount H \<ge> 10 \<and> hcount H > 2 * htsize H
       then exec_bind (rehash usable H (hcount H * 2)) (\<lambda>(done, H).
         Done (if done then unat (strHash pKey) mod htsize H else h, H))
       else Done (h, H)) (\<lambda>(h, H).
     exec_bind (insertElement (case ht H of None \<Rightarrow> None | Some _ \<Rightarrow> Some h) new H)
       (\<lambda>H. Done (0, H)))"

definition sqlite3HashInsert ::
  "(nat list \<Rightarrow> nat) \<Rightarrow> (nat \<Rightarrow> nat) \<Rightarrow> HashTable \<Rightarrow> string \<Rightarrow> nat \<Rightarrow> (nat \<times> HashTable) exec"
where
  "sqlite3HashInsert fresh usable H pKey data =
     exec_bind (findElementWithHash H pKey) (\<lambda>(r, h).
     case r of
       Some a \<Rightarrow>
         exec_bind (elem_at (store H) a) (\<lambda>e.
         if data = 0
         then exec_bind (removeElementGivenHash H a h) (\<lambda>H. Done (elem_data e, H))
         else exec_bind (write_elem a (\<lambda>e. e\<lparr>elem_data := data, elem_key := pKey\<rparr>) H)
           (\<lambda>H. Done (elem_data e, H)))
     | None \<Rightarrow>
         if data = 0 then Done (0, H)
         else (case alloc (elem_mallocs H) of (ok, ms) \<Rightarrow>
           if \<not> ok then Done (data, H\<lparr>elem_mallocs := ms\<rparr>)
           else let new = fresh (map fst (store H));
               H = H\<lparr>elem_mallocs := ms, hcount := hcount H + 1,
                 store := AList.update new \<lparr>elem_next = None, elem_prev = None, elem_data = data,
                   elem_key = pKey\<rparr> (store H)\<rparr>
             in hashInsertNew usable pKey new h H))"

subsection \<open>Doubly linked lists in the store\<close>

type_synonym cells = "nat \<Rightarrow> HashElem option"

definition front :: "nat list \<Rightarrow> nat option \<Rightarrow> nat option" where
  "front xs q = (if xs = [] then q else Some (hd xs))"

definition rear :: "nat option \<Rightarrow> nat list \<Rightarrow> nat option" where
  "rear p xs = (if xs = [] then p else Some (last xs))"

lemma front_simps [simp]: "front [] q = q" "front (x # xs) q = Some x"
  "front (xs @ ys) q = front xs (front ys q)"
  by (simp_all add: front_def)

lemma rear_simps [simp]: "rear p [] = p" "rear p (xs @ [x]) = Some x"
  by (simp_all add: rear_def)

text \<open>The elements \<^verbatim>\<open>xs\<close> are linked both ways, from \<^verbatim>\<open>p\<close> on the left to \<^verbatim>\<open>q\<close> on the right.\<close>

fun linked :: "cells \<Rightarrow> nat option \<Rightarrow> nat list \<Rightarrow> nat option \<Rightarrow> bool" where
  "linked m p [] q \<longleftrightarrow> True"
| "linked m p (x # xs) q \<longleftrightarrow>
     (\<exists>e. m x = Some e \<and> elem_prev e = p \<and> elem_next e = front xs q) \<and> linked m (Some x) xs q"

text \<open>Linked through \<^verbatim>\<open>next\<close> only.\<close>

fun nexts :: "cells \<Rightarrow> nat list \<Rightarrow> nat option \<Rightarrow> bool" where
  "nexts m [] q \<longleftrightarrow> True"
| "nexts m (x # xs) q \<longleftrightarrow> (\<exists>e. m x = Some e \<and> elem_next e = front xs q) \<and> nexts m xs q"

lemma linked_append:
  "linked m p (xs @ ys) q \<longleftrightarrow> linked m p xs (front ys q) \<and> linked m (rear p xs) ys q"
proof (induction xs arbitrary: p)
  case (Cons x xs)
  have "rear p (x # xs) = rear (Some x) xs" by (simp add: rear_def)
  then show ?case using Cons by auto
qed simp

lemma linked_nexts: "linked m p xs q \<Longrightarrow> nexts m xs q"
  by (induction m p xs q rule: linked.induct) auto

lemma nexts_append: "nexts m (xs @ ys) q \<longleftrightarrow> nexts m xs (front ys q) \<and> nexts m ys q"
  by (induction xs) auto

lemma linked_frame: "(\<And>x. x \<in> set xs \<Longrightarrow> m' x = m x) \<Longrightarrow> linked m' p xs q \<longleftrightarrow> linked m p xs q"
  by (induction m p xs q rule: linked.induct) auto

lemma nexts_frame: "(\<And>x. x \<in> set xs \<Longrightarrow> m' x = m x) \<Longrightarrow> nexts m' xs q \<longleftrightarrow> nexts m xs q"
  by (induction m xs q rule: nexts.induct) auto

lemma linked_dom: "linked m p xs q \<Longrightarrow> x \<in> set xs \<Longrightarrow> \<exists>e. m x = Some e"
  by (induction m p xs q rule: linked.induct) auto

lemma linked_update [simp]: "x \<notin> set xs \<Longrightarrow> linked (m(x \<mapsto> e)) p xs q \<longleftrightarrow> linked m p xs q"
  by (rule linked_frame) auto

lemma linked_relink_last:
  assumes "linked m p (xs @ [x]) q" "distinct (xs @ [x])" "m x = Some e"
  shows "linked (m(x \<mapsto> e\<lparr>elem_next := q'\<rparr>)) p (xs @ [x]) q'"
  using assms by (auto simp: linked_append)

lemma linked_relink_first:
  assumes "linked m p (x # xs) q" "distinct (x # xs)" "m x = Some e"
  shows "linked (m(x \<mapsto> e\<lparr>elem_prev := p'\<rparr>)) p' (x # xs) q"
  using assms by auto

text \<open>What no relinking changes: the live elements, their keys and data.\<close>

definition payload :: "cells \<Rightarrow> nat \<Rightarrow> (string \<times> nat) option" where
  "payload m a = map_option (\<lambda>e. (elem_key e, elem_data e)) (m a)"

lemma payload_update [simp]:
  "m a = Some e \<Longrightarrow> elem_key e' = elem_key e \<Longrightarrow> elem_data e' = elem_data e \<Longrightarrow>
     payload (m(a \<mapsto> e')) = payload m"
  by (auto simp: payload_def fun_eq_iff)

lemma elem_at_Some: "map_of s a = Some e \<Longrightarrow> elem_at s a = Done e"
  by (simp add: elem_at_def)

lemma write_elem_Some: "map_of (store H) a = Some e \<Longrightarrow>
    write_elem a f H = Done (H\<lparr>store := AList.update a (f e) (store H)\<rparr>)"
  by (simp add: write_elem_def elem_at_Some)

lemmas store_simps = elem_at_Some write_elem_Some AList.update_conv'

lemma linkElement_front:
  assumes "linked (map_of (store H)) None xs None" "first H = front xs None" "distinct (new # xs)"
    "map_of (store H) new = Some n"
  shows "\<exists>s. linkElement None new H = Done (H\<lparr>store := s, first := Some new\<rparr>) \<and>
    linked (map_of s) None (new # xs) None \<and> payload (map_of s) = payload (map_of (store H)) \<and>
    (\<forall>x. x \<notin> set (new # xs) \<longrightarrow> map_of s x = map_of (store H) x)"
proof (cases xs)
  case Nil
  then show ?thesis using assms by (auto simp: linkElement_def store_simps)
next
  case (Cons y ys)
  obtain e where e: "map_of (store H) y = Some e" using assms Cons by auto
  show ?thesis
    using assms Cons e by (auto simp: linkElement_def store_simps)
qed

lemma linkElement_before:
  assumes "linked (map_of (store H)) None (us @ b # ws) None" "first H = front (us @ b # ws) None"
    "distinct (new # us @ b # ws)" "map_of (store H) new = Some n"
  shows "\<exists>s. linkElement (Some b) new H =
      Done (H\<lparr>store := s, first := front (us @ new # b # ws) None\<rparr>) \<and>
    linked (map_of s) None (us @ new # b # ws) None \<and>
    payload (map_of s) = payload (map_of (store H)) \<and>
    (\<forall>x. x \<notin> set (us @ new # b # ws) \<longrightarrow> map_of s x = map_of (store H) x)"
proof (cases us rule: rev_cases)
  case Nil
  obtain e where e: "map_of (store H) b = Some e" "elem_prev e = None" using assms Nil by auto
  show ?thesis
    by (rule exI [of _ "AList.update b (e\<lparr>elem_prev := Some new\<rparr>)
        (AList.update new (n\<lparr>elem_next := Some b, elem_prev := None\<rparr>) (store H))"])
      (use assms Nil e in \<open>auto simp: linkElement_def store_simps\<close>)
next
  case (snoc vs p)
  obtain e where e: "map_of (store H) b = Some e" "elem_prev e = Some p"
    using assms snoc by (auto simp: linked_append)
  obtain ep where ep: "map_of (store H) p = Some ep"
    using assms snoc by (auto simp: linked_append)
  have "first H = front vs (Some p)" using assms snoc by simp
  then have same: "H\<lparr>store := s, first := front vs (Some p)\<rparr> = H\<lparr>store := s\<rparr>" for s
    by (cases H) simp
  show ?thesis
    by (rule exI [of _ "AList.update b (e\<lparr>elem_prev := Some new\<rparr>)
        (AList.update p (ep\<lparr>elem_next := Some new\<rparr>)
        (AList.update new (n\<lparr>elem_next := Some b, elem_prev := Some p\<rparr>) (store H)))"])
      (use assms snoc e ep in \<open>auto simp: linkElement_def store_simps linked_append same\<close>)
qed

lemma unlinkElement_ok:
  assumes "linked (map_of (store H)) None (us @ a # ws) None" "first H = front (us @ a # ws) None"
    "distinct (us @ a # ws)" "map_of (store H) a = Some e"
  shows "\<exists>s. unlinkElement e H = Done (H\<lparr>store := s, first := front (us @ ws) None\<rparr>) \<and>
    linked (map_of s) None (us @ ws) None \<and> payload (map_of s) = payload (map_of (store H)) \<and>
    map_of s a = Some e"
proof -
  define s1 where "s1 = (case elem_prev e of
      Some p \<Rightarrow> AList.update p (the (map_of (store H) p)\<lparr>elem_next := elem_next e\<rparr>) (store H)
    | None \<Rightarrow> store H)"
  have e: "elem_prev e = rear None us" "elem_next e = front ws None"
    using assms(1,4) by (auto simp: linked_append)
  have both: "(case elem_prev e of
         Some p \<Rightarrow> write_elem p (\<lambda>x. x\<lparr>elem_next := elem_next e\<rparr>) H
       | None \<Rightarrow> Done (H\<lparr>first := elem_next e\<rparr>)) = Done (H\<lparr>store := s1, first := front (us @ ws) None\<rparr>) \<and>
      linked (map_of s1) None us (front ws None) \<and> linked (map_of s1) (Some a) ws None \<and>
      payload (map_of s1) = payload (map_of (store H)) \<and> map_of s1 a = Some e"
  proof (cases us rule: rev_cases)
    case Nil
    then show ?thesis using assms e by (auto simp: s1_def)
  next
    case (snoc vs p)
    obtain ep where ep: "map_of (store H) p = Some ep"
      using assms snoc by (auto simp: linked_append)
    have "first H = front vs (Some p)" using assms snoc by simp
    then have same: "H\<lparr>store := s, first := front vs (Some p)\<rparr> = H\<lparr>store := s\<rparr>" for s
      by (cases H) simp
    show ?thesis using assms e ep snoc by (auto simp: s1_def store_simps linked_append same)
  qed
  note step1 = conjunct1 [OF both] and s1 = conjunct2 [OF both]
  show ?thesis
  proof (cases ws)
    case Nil
    then show ?thesis
      using step1 s1 e by (intro exI [of _ s1]) (simp add: unlinkElement_def)
  next
    case (Cons b ws')
    obtain eb where eb: "map_of s1 b = Some eb" using s1 Cons by auto
    have "b \<noteq> a" using assms(3) Cons by auto
    then show ?thesis
      using step1 s1 e eb Cons assms(3)
      by (intro exI [of _ "AList.update b (eb\<lparr>elem_prev := elem_prev e\<rparr>) s1"])
        (auto simp: unlinkElement_def store_simps linked_append)
  qed
qed

subsection \<open>Buckets as groups of the list\<close>

text \<open>
  With buckets, the list is a sequence of groups, each with the number of its bucket: the
  elements of a bucket are next to each other, the bucket counts them and points to the first.
\<close>

type_synonym groups = "(nat \<times> nat list) list"

definition grouped :: "(nat \<times> nat option) list \<Rightarrow> groups \<Rightarrow> bool" where
  "grouped bs gs \<longleftrightarrow> distinct (map fst gs) \<and>
     (\<forall>i g. map_of gs i = Some g \<longrightarrow> g \<noteq> [] \<and> i < length bs \<and> bs ! i = (length g, Some (hd g))) \<and>
     (\<forall>i < length bs. map_of gs i = None \<longrightarrow> fst (bs ! i) = 0)"

definition flat :: "groups \<Rightarrow> nat list" where
  "flat gs = concat (map snd gs)"

lemma flat_simps [simp]: "flat [] = []" "flat ((i, g) # gs) = g @ flat gs"
  by (simp_all add: flat_def)

lemma flat_split:
  assumes "distinct (map fst gs)" "map_of gs i = Some g"
  shows "\<exists>us ws. flat gs = us @ g @ ws \<and> (\<forall>g'. flat (AList.update i g' gs) = us @ g' @ ws) \<and>
    flat (AList.delete i gs) = us @ ws"
  using assms
proof (induction gs)
  case (Cons x gs)
  obtain j h where x: "x = (j, h)" by fastforce
  show ?case
  proof (cases "i = j")
    case True
    have "AList.delete j gs = gs"
      using Cons.prems x by (intro AList.delete_id) (auto simp: image_iff)
    then show ?thesis
      using True Cons.prems x by (intro exI [of _ "[]"] exI [of _ "flat gs"]) simp
  next
    case False
    obtain us ws where "flat gs = us @ g @ ws" "\<forall>g'. flat (AList.update i g' gs) = us @ g' @ ws"
        "flat (AList.delete i gs) = us @ ws"
      using Cons False x by auto
    then show ?thesis
      using False x by (intro exI [of _ "h @ us"] exI [of _ ws]) simp
  qed
qed simp

lemma set_flat: "distinct (map fst gs) \<Longrightarrow> a \<in> set (flat gs) \<longleftrightarrow> (\<exists>i g. map_of gs i = Some g \<and> a \<in> set g)"
  by (auto simp: flat_def map_of_eq_Some_iff) force+

definition put_in :: "nat \<Rightarrow> nat \<Rightarrow> groups \<Rightarrow> groups" where
  "put_in i a gs = (case map_of gs i of None \<Rightarrow> (i, [a]) # gs | Some g \<Rightarrow> AList.update i (a # g) gs)"

definition take_out :: "nat \<Rightarrow> nat \<Rightarrow> groups \<Rightarrow> groups" where
  "take_out i a gs = (case map_of gs i of None \<Rightarrow> gs
     | Some g \<Rightarrow> if remove1 a g = [] then AList.delete i gs else AList.update i (remove1 a g) gs)"

lemma grouped_put_in:
  assumes "grouped bs gs" "i < length bs"
  shows "grouped (bs[i := (fst (bs ! i) + 1, Some a)]) (put_in i a gs)"
proof (cases "map_of gs i")
  case None
  then have "i \<notin> fst ` set gs" by (simp add: map_of_eq_None_iff)
  then show ?thesis using assms None by (auto simp: grouped_def put_in_def nth_list_update)
next
  case (Some g)
  have d: "distinct (map fst (AList.update i (a # g) gs))"
    using assms by (simp add: grouped_def distinct_update)
  show ?thesis
    using assms Some d by (auto simp: grouped_def put_in_def nth_list_update AList.update_conv' split: if_splits)
qed

lemma grouped_take_out:
  assumes "grouped bs gs" "map_of gs i = Some g" "a \<in> set g"
    "hd g = a \<longrightarrow> nxt = front (tl g @ ws) None"
  shows "grouped (bs[i := (fst (bs ! i) - 1, if snd (bs ! i) = Some a then nxt else snd (bs ! i))])
      (take_out i a gs)"
proof (cases "remove1 a g = []")
  case True
  then have g: "g = [a]" using assms(3) by (cases g) (auto split: if_splits)
  have "map_of (AList.delete i gs) = (map_of gs)(i := None)" by (simp add: AList.delete_conv')
  then show ?thesis
    using assms g by (auto simp: grouped_def take_out_def nth_list_update AList.distinct_delete split: if_splits)
next
  case False
  have d: "distinct (map fst (AList.update i (remove1 a g) gs))"
    using assms by (simp add: grouped_def distinct_update)
  obtain b bs' where g: "g = b # bs'" using assms(3) by (cases g) auto
  have len: "length (remove1 a g) = length g - 1" using assms(3) by (simp add: length_remove1)
  have hd: "(if b = a then nxt else Some b) = Some (hd (remove1 a g))"
    using False g assms(4) by (cases bs') auto
  show ?thesis
    using assms(1,2) False d g len hd
    by (auto simp: grouped_def take_out_def nth_list_update AList.update_conv' split: if_splits)
qed

definition slot :: "cells \<Rightarrow> nat \<Rightarrow> nat \<Rightarrow> nat" where
  "slot m n a = (case payload m a of Some (k, d) \<Rightarrow> unat (strHash k) mod n | None \<Rightarrow> 0)"

lemma slot_at: "m a = Some e \<Longrightarrow> slot m n a = unat (strHash (elem_key e)) mod n"
  by (simp add: slot_def payload_def)

lemma slot_payload: "payload m' = payload m \<Longrightarrow> slot m' = slot m"
  by (simp add: slot_def fun_eq_iff)

text \<open>The list \<^verbatim>\<open>xs\<close> with its groups \<^verbatim>\<open>gs\<close>, which may lack a new element of the store.\<close>

definition listed :: "HashTable \<Rightarrow> nat list \<Rightarrow> groups \<Rightarrow> bool" where
  "listed H xs gs \<longleftrightarrow>
     linked (map_of (store H)) None xs None \<and> first H = front xs None \<and> distinct xs \<and>
     (case ht H of
        None \<Rightarrow> htsize H = 0
      | Some bs \<Rightarrow> length bs = htsize H \<and> 0 < htsize H \<and> xs = flat gs \<and> grouped bs gs \<and>
          (\<forall>i g. map_of gs i = Some g \<longrightarrow> (\<forall>a\<in>set g. slot (map_of (store H)) (htsize H) a = i)))"

lemma listed_other_fields [simp]:
  "listed (H\<lparr>ht_mallocs := ms\<rparr>) xs gs = listed H xs gs"
  "listed (H\<lparr>elem_mallocs := ms\<rparr>) xs gs = listed H xs gs"
  "listed (H\<lparr>hcount := n\<rparr>) xs gs = listed H xs gs"
  by (simp_all add: listed_def split: option.split)

definition kept :: "HashTable \<Rightarrow> HashTable \<Rightarrow> bool" where
  "kept H H' \<longleftrightarrow> htsize H' = htsize H \<and> hcount H' = hcount H \<and> elem_mallocs H' = elem_mallocs H \<and>
     ht_mallocs H' = ht_mallocs H \<and> (ht H' = None \<longleftrightarrow> ht H = None) \<and>
     payload (map_of (store H')) = payload (map_of (store H))"

lemma kept_refl [simp]: "kept H H"
  by (simp add: kept_def)

lemma kept_trans: "kept H H' \<Longrightarrow> kept H' H'' \<Longrightarrow> kept H H''"
  by (simp add: kept_def)

lemma insertElement_ok:
  assumes "listed H xs gs" "new \<notin> set xs" "map_of (store H) new = Some n"
  shows "\<exists>H' xs' gs'. insertElement (case ht H of None \<Rightarrow> None
        | Some _ \<Rightarrow> Some (slot (map_of (store H)) (htsize H) new)) new H = Done H' \<and>
      listed H' xs' gs' \<and> set xs' = insert new (set xs) \<and> kept H H' \<and>
      (\<forall>x. x \<notin> insert new (set xs) \<longrightarrow> map_of (store H') x = map_of (store H) x)"
proof -
  have link: "linked (map_of (store H)) None xs None" "first H = front xs None" "distinct xs"
    using assms by (auto simp: listed_def)
  show ?thesis
  proof (cases "ht H")
    case None
    obtain s where "linkElement None new H = Done (H\<lparr>store := s, first := Some new\<rparr>)"
        "linked (map_of s) None (new # xs) None" "payload (map_of s) = payload (map_of (store H))"
        "\<forall>x. x \<notin> set (new # xs) \<longrightarrow> map_of s x = map_of (store H) x"
      using linkElement_front [of H xs new n] link assms by auto
    then show ?thesis
      using None assms link
      by (intro exI [of _ "H\<lparr>store := s, first := Some new\<rparr>"] exI [of _ "new # xs"] exI [of _ gs])
        (simp add: insertElement_def enterBucket_def listed_def kept_def)
  next
    case (Some bs)
    define i where "i = slot (map_of (store H)) (htsize H) new"
    define H1 where "H1 = H\<lparr>ht := Some (bs[i := (fst (bs ! i) + 1, Some new)])\<rparr>"
    have bs: "length bs = htsize H" "0 < htsize H" "xs = flat gs" "grouped bs gs"
        "\<forall>i g. map_of gs i = Some g \<longrightarrow> (\<forall>a\<in>set g. slot (map_of (store H)) (htsize H) a = i)"
      using assms Some by (auto simp: listed_def)
    have i: "i < length bs" using assms bs by (simp add: i_def slot_at)
    note grouped' = grouped_put_in [OF bs(4) i, of new]
    have H1: "store H1 = store H" "first H1 = first H" by (simp_all add: H1_def)
    show ?thesis
    proof (cases "map_of gs i")
      case None
      then have "fst (bs ! i) = 0" using bs i by (auto simp: grouped_def)
      then have enter: "enterBucket (Some i) new H = Done (None, H1)"
        using Some i by (simp add: enterBucket_def H1_def)
      obtain s where s: "linkElement None new H1 = Done (H1\<lparr>store := s, first := Some new\<rparr>)"
          "linked (map_of s) None (new # xs) None" "payload (map_of s) = payload (map_of (store H))"
          "\<forall>x. x \<notin> set (new # xs) \<longrightarrow> map_of s x = map_of (store H) x"
        using linkElement_front [of H1 xs new n] link assms H1 by auto
      have "\<forall>j g. map_of (put_in i new gs) j = Some g \<longrightarrow> (\<forall>a\<in>set g. slot (map_of s) (htsize H) a = j)"
        using bs(5) None i_def by (auto simp: put_in_def slot_payload [OF s(3)])
      then have "listed (H1\<lparr>store := s, first := Some new\<rparr>) (new # xs) (put_in i new gs)"
        using s assms link bs grouped' None by (simp add: listed_def H1_def put_in_def)
      then show ?thesis
        using Some s enter i_def
        by (intro exI [of _ "H1\<lparr>store := s, first := Some new\<rparr>"] exI [of _ "new # xs"]
            exI [of _ "put_in i new gs"]) (simp add: insertElement_def kept_def H1_def)
    next
      case g: (Some g)
      then have gi: "g \<noteq> []" "bs ! i = (length g, Some (hd g))" using bs by (auto simp: grouped_def)
      then obtain b g' where b: "g = b # g'" by (cases g) auto
      have enter: "enterBucket (Some i) new H = Done (Some b, H1)"
        using Some i gi b by (simp add: enterBucket_def H1_def)
      obtain us ws where split: "flat gs = us @ g @ ws" "\<forall>h. flat (AList.update i h gs) = us @ h @ ws"
        using flat_split [OF _ g] bs(4) by (auto simp: grouped_def)
      have xs: "xs = us @ b # (g' @ ws)" using split bs b by simp
      obtain s where s: "linkElement (Some b) new H1 =
            Done (H1\<lparr>store := s, first := front (us @ new # b # g' @ ws) None\<rparr>)"
          "linked (map_of s) None (us @ new # b # g' @ ws) None" "payload (map_of s) = payload (map_of (store H))"
          "\<forall>x. x \<notin> set (us @ new # b # g' @ ws) \<longrightarrow> map_of s x = map_of (store H) x"
        using linkElement_before [of H1 us b "g' @ ws" new n] link assms H1 xs by auto
      have slots: "\<forall>j g. map_of (put_in i new gs) j = Some g \<longrightarrow> (\<forall>a\<in>set g. slot (map_of s) (htsize H) a = j)"
        using bs(5) g i_def by (auto simp: put_in_def slot_payload [OF s(3)] AList.update_conv')
      have "flat (put_in i new gs) = us @ new # b # g' @ ws" using split g b by (simp add: put_in_def)
      moreover have "distinct (us @ new # b # g' @ ws)" using link assms xs by auto
      ultimately have "listed (H1\<lparr>store := s, first := front (us @ new # b # g' @ ws) None\<rparr>)
          (us @ new # b # g' @ ws) (put_in i new gs)"
        using s bs grouped' slots by (simp add: listed_def H1_def)
      then show ?thesis
        using Some s enter i_def xs
        by (intro exI [of _ "H1\<lparr>store := s, first := front (us @ new # b # g' @ ws) None\<rparr>"]
            exI [of _ "us @ new # b # g' @ ws"] exI [of _ "put_in i new gs"])
          (auto simp: insertElement_def kept_def H1_def)
    qed
  qed
qed

subsection \<open>Finding\<close>

definition keys_ok :: "cells \<Rightarrow> bool" where
  "keys_ok m \<longleftrightarrow> (\<forall>a k d. payload m a = Some (k, d) \<longrightarrow> NUL \<notin> set k \<and> d \<noteq> 0) \<and>
     (\<forall>a b k d k' d'. payload m a = Some (k, d) \<longrightarrow> payload m b = Some (k', d') \<longrightarrow>
        folded k = folded k' \<longrightarrow> a = b)"

definition matches :: "cells \<Rightarrow> string \<Rightarrow> nat \<Rightarrow> bool" where
  "matches m k a = (case payload m a of Some (k', d) \<Rightarrow> folded k' = folded k | None \<Rightarrow> False)"

lemma strHashLoop_folded:
  "NUL \<notin> set a \<Longrightarrow> NUL \<notin> set b \<Longrightarrow> folded a = folded b \<Longrightarrow> strHashLoop h a = strHashLoop h b"
proof (induction a arbitrary: h b)
  case (Cons c a)
  then obtain d b' where "b = d # b'" "sqlite3Tolower c = sqlite3Tolower d" "folded a = folded b'"
    by (auto simp: folded_def Cons_eq_map_conv)
  then show ?case using Cons by (auto simp: sqlite3Tolower_def)
qed (simp add: folded_def)

lemma strHash_folded:
  "NUL \<notin> set a \<Longrightarrow> NUL \<notin> set b \<Longrightarrow> folded a = folded b \<Longrightarrow> strHash a = strHash b"
  unfolding strHash_def by (rule strHashLoop_folded)

lemma findLoop_ok:
  assumes "keys_ok (map_of s)" "NUL \<notin> set k" "nexts (map_of s) (g @ ws) None"
    "g = [] \<or> p = front (g @ ws) None"
  shows "findLoop (length g) p s k = Done (List.find (matches (map_of s) k) g)"
  using assms(3,4)
proof (induction g arbitrary: p)
  case Nil
  then show ?case by simp
next
  case (Cons a g)
  obtain e where e: "map_of s a = Some e" "elem_next e = front (g @ ws) None" using Cons.prems by auto
  have "NUL \<notin> set (elem_key e)" using assms(1) e by (auto simp: keys_ok_def payload_def)
  moreover have "matches (map_of s) k a \<longleftrightarrow> folded (elem_key e) = folded k"
    using e by (simp add: matches_def payload_def)
  ultimately show ?case
    using Cons.IH [of "elem_next e"] Cons.prems e assms(2) by (simp add: elem_at_Some stricmp_folded)
qed

definition bucket_of :: "HashTable \<Rightarrow> string \<Rightarrow> nat" where
  "bucket_of H k = (if ht H = None then 0 else unat (strHash k) mod htsize H)"

lemma findElementWithHash_ok:
  assumes "listed H xs gs" "keys_ok (map_of (store H))" "NUL \<notin> set k"
    "ht H = None \<longrightarrow> hcount H = length xs"
  shows "\<exists>r. findElementWithHash H k = Done (r, bucket_of H k) \<and>
    (case r of None \<Rightarrow> \<forall>a\<in>set xs. \<not> matches (map_of (store H)) k a
     | Some a \<Rightarrow> a \<in> set xs \<and> matches (map_of (store H)) k a)"
proof -
  have link: "linked (map_of (store H)) None xs None" "first H = front xs None"
    using assms by (auto simp: listed_def)
  note nx = linked_nexts [OF link(1)]
  have found: "case List.find (matches (map_of (store H)) k) g of
      None \<Rightarrow> \<forall>a\<in>set g. \<not> matches (map_of (store H)) k a
    | Some a \<Rightarrow> a \<in> set g \<and> matches (map_of (store H)) k a" for g
    by (auto split: option.split simp: find_None_iff find_Some_iff)
  show ?thesis
  proof (cases "ht H")
    case None
    then show ?thesis
      using findLoop_ok [of "store H" k xs "[]" "first H"] assms nx link found [of xs]
      by (simp add: findElementWithHash_def bucket_of_def)
  next
    case (Some bs)
    have bs: "length bs = htsize H" "0 < htsize H" "xs = flat gs" "grouped bs gs"
        "\<forall>i g. map_of gs i = Some g \<longrightarrow> (\<forall>a\<in>set g. slot (map_of (store H)) (htsize H) a = i)"
      using assms Some by (auto simp: listed_def)
    define i where "i = unat (strHash k) mod htsize H"
    have i: "i < length bs" using bs by (simp add: i_def)
    have distinct: "distinct (map fst gs)" using bs by (simp add: grouped_def)
    have elsewhere: "matches (map_of (store H)) k a \<Longrightarrow> a \<in> set xs \<Longrightarrow>
        \<exists>g. map_of gs i = Some g \<and> a \<in> set g" for a
    proof -
      assume m: "matches (map_of (store H)) k a" and a: "a \<in> set xs"
      obtain k' d where k': "payload (map_of (store H)) a = Some (k', d)" "folded k' = folded k"
        using m by (auto simp: matches_def split: option.splits)
      have "NUL \<notin> set k'" using assms(2) k' by (auto simp: keys_ok_def)
      then have "strHash k' = strHash k" using strHash_folded assms(3) k' by blast
      then have s: "slot (map_of (store H)) (htsize H) a = i" using k' by (simp add: slot_def i_def)
      obtain j g where "map_of gs j = Some g" "a \<in> set g"
        using a bs(3) set_flat [OF distinct] by blast
      then show ?thesis using bs(5) s by auto
    qed
    define g where "g = (case map_of gs i of None \<Rightarrow> [] | Some g \<Rightarrow> g)"
    have count: "fst (bs ! i) = length g"
      using bs(4) i by (cases "map_of gs i") (auto simp: grouped_def g_def)
    have sub: "set g \<subseteq> set xs"
      using set_flat [OF distinct] bs(3) by (cases "map_of gs i") (auto simp: g_def)
    have "\<exists>ws. (g = [] \<or> snd (bs ! i) = front (g @ ws) None) \<and> nexts (map_of (store H)) (g @ ws) None"
    proof (cases "map_of gs i")
      case None
      then show ?thesis by (intro exI [of _ "[]"]) (simp add: g_def)
    next
      case g': (Some g')
      then obtain us ws where "flat gs = us @ g' @ ws" using flat_split [OF distinct] by blast
      moreover have "snd (bs ! i) = Some (hd g')" "g' \<noteq> []" using g' bs by (auto simp: grouped_def)
      ultimately show ?thesis
        using nx bs(3) g' by (intro exI [of _ ws]) (auto simp: g_def nexts_append front_def)
    qed
    then have "findLoop (fst (bs ! i)) (snd (bs ! i)) (store H) k =
        Done (List.find (matches (map_of (store H)) k) g)"
      using findLoop_ok [OF assms(2,3)] count by metis
    then have "findElementWithHash H k = Done (List.find (matches (map_of (store H)) k) g, i)"
      using Some bs i by (simp add: findElementWithHash_def flip: i_def)
    moreover have "case List.find (matches (map_of (store H)) k) g of
        None \<Rightarrow> \<forall>a\<in>set xs. \<not> matches (map_of (store H)) k a
      | Some a \<Rightarrow> a \<in> set xs \<and> matches (map_of (store H)) k a"
      using found [of g] sub elsewhere by (auto split: option.splits simp: g_def)
    ultimately show ?thesis using Some by (simp add: bucket_of_def i_def)
  qed
qed

subsection \<open>Rehashing\<close>

lemma rehashLoop_ok:
  assumes "listed H xs gs" "distinct (xs @ ys)" "nexts (map_of (store H)) ys None"
    "p = front ys None" "length ys \<le> k" "ht H \<noteq> None"
  shows "\<exists>H' xs' gs'. rehashLoop k p H = Done H' \<and> listed H' xs' gs' \<and>
    set xs' = set xs \<union> set ys \<and> kept H H' \<and>
    (\<forall>x. x \<notin> set xs \<union> set ys \<longrightarrow> map_of (store H') x = map_of (store H) x)"
  using assms
proof (induction k p H arbitrary: xs gs ys rule: rehashLoop.induct)
  case (1 k H)
  then have "ys = []" by (cases ys) auto
  then show ?case using 1 by auto
next
  case (2 a H)
  then show ?case by simp
next
  case (3 k a H)
  obtain ys' where ys: "ys = a # ys'" using "3.prems"(4) by (cases ys) auto
  obtain e where e: "map_of (store H) a = Some e" "elem_next e = front ys' None"
    using "3.prems"(3) ys by auto
  have "a \<notin> set xs" using "3.prems"(2) ys by simp
  then obtain H1 xs1 gs1 where
    H1: "insertElement (case ht H of None \<Rightarrow> None
        | Some _ \<Rightarrow> Some (slot (map_of (store H)) (htsize H) a)) a H = Done H1"
      "listed H1 xs1 gs1" "set xs1 = insert a (set xs)" "kept H H1"
      "\<forall>x. x \<notin> insert a (set xs) \<longrightarrow> map_of (store H1) x = map_of (store H) x"
    using insertElement_ok [OF "3.prems"(1) _ e(1)] by metis
  have step: "insertElement (Some (unat (strHash (elem_key e)) mod htsize H)) a H = Done H1"
    using H1(1) "3.prems"(6) e by (auto simp: slot_at)
  have rest: "nexts (map_of (store H1)) ys' None"
    using "3.prems"(2,3) ys H1(5) by (subst nexts_frame [of _ _ "map_of (store H)"]) auto
  have "distinct xs1" using H1(2) by (simp add: listed_def)
  then have "distinct (xs1 @ ys')" using "3.prems"(2) ys H1(3) by auto
  moreover have "ht H1 \<noteq> None" "length ys' \<le> k" using H1(4) "3.prems"(5,6) ys by (auto simp: kept_def)
  ultimately obtain H2 xs2 gs2 where H2: "rehashLoop k (elem_next e) H1 = Done H2" "listed H2 xs2 gs2"
      "set xs2 = set xs1 \<union> set ys'" "kept H1 H2"
      "\<forall>x. x \<notin> set xs1 \<union> set ys' \<longrightarrow> map_of (store H2) x = map_of (store H1) x"
    using "3.IH" [OF H1(2) _ rest e(2)] by blast
  then show ?case
    using e step H1(3-5) ys H2 kept_trans [OF H1(4)]
    by (intro exI [of _ H2] exI [of _ xs2] exI [of _ gs2]) (auto simp: elem_at_Some)
qed

lemma rehash_ok:
  assumes "listed H xs gs" "0 < n" "\<And>n. n \<le> usable n"
  shows "\<exists>ok H' xs' gs'. rehash usable H n = Done (ok, H') \<and> listed H' xs' gs' \<and> set xs' = set xs \<and>
    (if ok then ht H' \<noteq> None else ht H' = ht H \<and> htsize H' = htsize H) \<and>
    hcount H' = hcount H \<and> elem_mallocs H' = elem_mallocs H \<and>
    payload (map_of (store H')) = payload (map_of (store H)) \<and>
    (\<forall>x. x \<notin> set xs \<longrightarrow> map_of (store H') x = map_of (store H) x)"
proof -
  define n' where "n' = (if n * 8 > SQLITE_MALLOC_SOFT_LIMIT then SQLITE_MALLOC_SOFT_LIMIT div 8 else n)"
  obtain ok ms where ms: "alloc (ht_mallocs H) = (ok, ms)" by fastforce
  have rehash: "rehash usable H n =
      (if n' = htsize H then Done (False, H)
       else if \<not> ok then Done (False, H\<lparr>ht_mallocs := ms\<rparr>)
       else if usable (n' * 8) div 8 = 0 then Undefined
       else exec_bind (rehashLoop (length (store H)) (first H)
           (H\<lparr>ht := Some (replicate (usable (n' * 8) div 8) (0, None)), htsize := usable (n' * 8) div 8,
              first := None, ht_mallocs := ms\<rparr>)) (\<lambda>H. Done (True, H)))"
    by (simp only: rehash_def Let_def ms prod.case flip: n'_def)
  show ?thesis
  proof (cases "n' = htsize H \<or> \<not> ok")
    case True
    define H' where "H' = H\<lparr>ht_mallocs := if n' = htsize H then ht_mallocs H else ms\<rparr>"
    have "rehash usable H n = Done (False, H')"
      using True unfolding rehash H'_def by auto
    moreover have "listed H' xs gs" using assms(1) by (simp add: H'_def)
    ultimately show ?thesis
      by (intro exI [of _ False] exI [of _ H'] exI [of _ xs] exI [of _ gs]) (simp add: H'_def)
  next
    case False
    define k where "k = usable (n' * 8) div 8"
    have "1 \<le> n'" using assms(2) by (simp add: n'_def SQLITE_MALLOC_SOFT_LIMIT_def)
    then have "8 \<le> usable (n' * 8)" using assms(3) [of "n' * 8"] by linarith
    then have k: "0 < k" by (simp add: k_def div_greater_zero_iff)
    define H1 where "H1 = H\<lparr>ht := Some (replicate k (0, None)), htsize := k, first := None, ht_mallocs := ms\<rparr>"
    have link: "linked (map_of (store H)) None xs None" "first H = front xs None" "distinct xs"
      using assms by (auto simp: listed_def)
    have "set xs \<subseteq> fst ` set (store H)"
      using linked_dom [OF link(1)] by (force dest: map_of_SomeD)
    then have "length xs \<le> length (store H)"
      using link(3) by (metis List.finite_set card_length card_mono distinct_card finite_imageI image_set
          le_trans length_map)
    moreover have "listed H1 [] []" using k by (simp add: listed_def H1_def grouped_def)
    moreover have "store H1 = store H" "ht H1 \<noteq> None" by (simp_all add: H1_def)
    ultimately obtain H2 xs2 gs2 where H2: "rehashLoop (length (store H)) (first H) H1 = Done H2"
        "listed H2 xs2 gs2" "set xs2 = set xs" "kept H1 H2"
        "\<forall>x. x \<notin> set xs \<longrightarrow> map_of (store H2) x = map_of (store H) x"
      using rehashLoop_ok [of H1 "[]" "[]" xs "first H" "length (store H)"] link linked_nexts [OF link(1)]
      by auto
    have "rehash usable H n = Done (True, H2)"
      using False k H2(1) unfolding rehash by (simp add: H1_def flip: k_def)
    then show ?thesis
      using H2 by (intro exI [of _ True] exI [of _ H2] exI [of _ xs2] exI [of _ gs2])
        (simp add: kept_def H1_def)
  qed
qed

subsection \<open>The table as a map\<close>

text \<open>
  The specification: a map from folded keys to data, together with the outcomes of the element
  allocations to come.
\<close>

type_synonym hash_spec = "(nat list \<Rightarrow> nat option) \<times> bool list"

datatype hash_op = Put string nat | Get string | Clear

fun hash_step :: "(nat list \<Rightarrow> nat) \<Rightarrow> (nat \<Rightarrow> nat) \<Rightarrow> hash_op \<Rightarrow> HashTable \<Rightarrow> (nat \<times> HashTable) exec" where
  "hash_step fresh usable (Put k d) H = sqlite3HashInsert fresh usable H k d"
| "hash_step fresh usable (Get k) H = exec_bind (sqlite3HashFind H k) (\<lambda>d. Done (d, H))"
| "hash_step fresh usable Clear H = exec_bind (sqlite3HashClear H) (\<lambda>H. Done (0, H))"

fun hash_spec :: "hash_op \<Rightarrow> hash_spec \<Rightarrow> nat \<times> hash_spec" where
  "hash_spec (Put k d) (m, em) =
     (case m (folded k) of
        Some old \<Rightarrow> (old, m(folded k := if d = 0 then None else Some d), em)
      | None \<Rightarrow> if d = 0 then (0, m, em)
          else if fst (alloc em) then (0, m(folded k \<mapsto> d), snd (alloc em))
          else (d, m, snd (alloc em)))"
| "hash_spec (Get k) (m, em) = (case m (folded k) of Some d \<Rightarrow> d | None \<Rightarrow> 0, m, em)"
| "hash_spec Clear (m, em) = (0, Map.empty, em)"

fun hash_may :: "hash_op \<Rightarrow> hash_spec \<Rightarrow> bool" where
  "hash_may (Put k d) a \<longleftrightarrow> NUL \<notin> set k"
| "hash_may (Get k) a \<longleftrightarrow> NUL \<notin> set k"
| "hash_may Clear a \<longleftrightarrow> True"

definition represents :: "cells \<Rightarrow> (nat list \<Rightarrow> nat option) \<Rightarrow> bool" where
  "represents m f \<longleftrightarrow> (\<forall>k d. f k = Some d \<longleftrightarrow> (\<exists>a z. payload m a = Some (z, d) \<and> folded z = k))"

definition hash_inv :: "HashTable \<Rightarrow> nat list \<Rightarrow> groups \<Rightarrow> bool" where
  "hash_inv H xs gs \<longleftrightarrow> listed H xs gs \<and> set xs = dom (map_of (store H)) \<and> hcount H = length xs \<and>
     keys_ok (map_of (store H))"

definition hash_rel :: "(nat list \<Rightarrow> nat) \<Rightarrow> (nat \<Rightarrow> nat) \<Rightarrow> HashTable \<Rightarrow> hash_spec \<Rightarrow> bool" where
  "hash_rel fresh usable H a \<longleftrightarrow> (\<forall>as. fresh as \<notin> set as) \<and> (\<forall>n. n \<le> usable n) \<and>
     (\<exists>xs gs. hash_inv H xs gs) \<and> represents (map_of (store H)) (fst a) \<and> snd a = elem_mallocs H"

lemma keys_ok_payload: "payload m' = payload m \<Longrightarrow> keys_ok m' \<longleftrightarrow> keys_ok m"
  by (simp add: keys_ok_def)

lemma represents_payload: "payload m' = payload m \<Longrightarrow> represents m' f \<longleftrightarrow> represents m f"
  by (simp add: represents_def)

lemma dom_payload: "dom m = {a. payload m a \<noteq> None}"
  by (auto simp: payload_def dom_def)

text \<open>What the lookup finds is what the map holds.\<close>

lemma find_represents:
  assumes "hash_inv H xs gs" "represents (map_of (store H)) f" "NUL \<notin> set k"
  obtains (absent) "findElementWithHash H k = Done (None, bucket_of H k)" "f (folded k) = None"
      "\<forall>a z d. payload (map_of (store H)) a = Some (z, d) \<longrightarrow> folded z \<noteq> folded k"
  | (present) a e where "findElementWithHash H k = Done (Some a, bucket_of H k)" "a \<in> set xs"
      "map_of (store H) a = Some e" "folded (elem_key e) = folded k" "f (folded k) = Some (elem_data e)"
proof -
  have inv: "listed H xs gs" "keys_ok (map_of (store H))" "hcount H = length xs"
      "set xs = dom (map_of (store H))"
    using assms(1) by (auto simp: hash_inv_def)
  obtain r where r: "findElementWithHash H k = Done (r, bucket_of H k)"
      "case r of None \<Rightarrow> \<forall>a\<in>set xs. \<not> matches (map_of (store H)) k a
       | Some a \<Rightarrow> a \<in> set xs \<and> matches (map_of (store H)) k a"
    using findElementWithHash_ok [OF inv(1,2) assms(3)] inv(3) by blast
  show ?thesis
  proof (cases r)
    case None
    have no: "folded z \<noteq> folded k" if "payload (map_of (store H)) a = Some (z, d)" for a z d
      using r(2) None that inv(4) by (auto simp: matches_def payload_def dom_def)
    then have "f (folded k) = None"
      using assms(2) unfolding represents_def by (metis not_Some_eq)
    then show ?thesis using absent r None no by blast
  next
    case (Some a)
    then obtain e where e: "map_of (store H) a = Some e" "folded (elem_key e) = folded k"
      using r(2) by (auto simp: matches_def payload_def split: option.splits)
    then have "f (folded k) = Some (elem_data e)"
      using assms(2) unfolding represents_def by (auto simp: payload_def)
    then show ?thesis using present r Some e by auto
  qed
qed

lemma hashClearLoop_ok:
  assumes "nexts (map_of s) xs None" "distinct xs" "p = front xs None"
  shows "\<exists>s'. hashClearLoop p s = Done s' \<and> map_of s' = (map_of s) |` (- set xs)"
  using assms
proof (induction xs arbitrary: p s)
  case Nil
  then show ?case by simp
next
  case (Cons a xs)
  then obtain e where e: "map_of s a = Some e" "elem_next e = front xs None" by auto
  have "nexts (map_of (AList.delete a s)) xs None"
    using Cons.prems by (subst nexts_frame [of _ _ "map_of s"]) (auto simp: AList.delete_conv')
  then obtain s' where "hashClearLoop (elem_next e) (AList.delete a s) = Done s'"
      "map_of s' = (map_of (AList.delete a s)) |` (- set xs)"
    using Cons.IH e Cons.prems by fastforce
  then show ?case
    using e Cons.prems by (auto simp: AList.delete_conv' restrict_map_def fun_eq_iff)
qed

lemma hash_inv_empty:
  "map_of (store H) = Map.empty \<Longrightarrow> first H = None \<Longrightarrow> ht H = None \<Longrightarrow> htsize H = 0 \<Longrightarrow>
     hcount H = 0 \<Longrightarrow> hash_inv H [] []"
  by (simp add: hash_inv_def listed_def keys_ok_def payload_def)

lemma sqlite3HashClear_ok:
  assumes "listed H xs gs" "set xs = dom (map_of (store H))"
  shows "\<exists>H'. sqlite3HashClear H = Done H' \<and> hash_inv H' [] [] \<and> map_of (store H') = Map.empty \<and>
    elem_mallocs H' = elem_mallocs H"
proof -
  have "linked (map_of (store H)) None xs None" "first H = front xs None" "distinct xs"
    using assms by (auto simp: listed_def)
  then obtain s where s: "hashClearLoop (first H) (store H) = Done s" "map_of s = (map_of (store H)) |` (- set xs)"
    using hashClearLoop_ok linked_nexts by blast
  have empty: "map_of s = Map.empty"
    using s(2) assms(2) by (auto simp: restrict_map_def fun_eq_iff dom_def)
  show ?thesis
    using s(1) empty by (simp add: sqlite3HashClear_def hash_inv_empty)
qed

lemma payload_remove: "payload (m(a := None)) = (payload m)(a := None)"
  by (auto simp: payload_def fun_eq_iff)

lemma slot_remove: "x \<noteq> a \<Longrightarrow> slot (m(a := None)) n x = slot m n x"
  by (simp add: slot_def payload_def)

lemma leaveBucket_ok:
  assumes "listed H xs gs" "map_of (store H) a = Some e" "a \<in> set xs"
    "h = (if ht H = None then 0 else slot (map_of (store H)) (htsize H) a)"
  obtains us ws gs' t where "xs = us @ a # ws"
    "\<And>s f. leaveBucket a (elem_next e) h (H\<lparr>store := s, first := f\<rparr>) = Done (H\<lparr>store := s, first := f, ht := t\<rparr>)"
    "case t of None \<Rightarrow> ht H = None \<and> htsize H = 0
     | Some bs \<Rightarrow> length bs = htsize H \<and> 0 < htsize H \<and> us @ ws = flat gs' \<and> grouped bs gs' \<and>
         (\<forall>i g. map_of gs' i = Some g \<longrightarrow> (\<forall>b\<in>set g. b \<noteq> a \<and> slot (map_of (store H)) (htsize H) b = i))"
proof (cases "ht H")
  case None
  obtain us ws where xs: "xs = us @ a # ws" using assms(3) by (meson split_list)
  show ?thesis
  proof (rule that [OF xs, of None gs])
    show "leaveBucket a (elem_next e) h (H\<lparr>store := s, first := f\<rparr>) = Done (H\<lparr>store := s, first := f, ht := None\<rparr>)" for s f
      using None by (simp add: leaveBucket_def)
  qed (use None assms(1) in \<open>simp add: listed_def\<close>)
next
  case (Some bs)
  have bs: "length bs = htsize H" "0 < htsize H" "xs = flat gs" "grouped bs gs" "distinct xs"
      "\<forall>i g. map_of gs i = Some g \<longrightarrow> (\<forall>a\<in>set g. slot (map_of (store H)) (htsize H) a = i)"
    using assms(1) Some by (auto simp: listed_def)
  have distinct: "distinct (map fst gs)" using bs(4) by (simp add: grouped_def)
  obtain i g where g: "map_of gs i = Some g" "a \<in> set g"
    using assms(3) bs(3) set_flat [OF distinct] by blast
  then have h: "i = h" using bs(6) assms(4) Some by auto
  obtain U W where split: "flat gs = U @ g @ W" "\<forall>g'. flat (AList.update h g' gs) = U @ g' @ W"
      "flat (AList.delete h gs) = U @ W"
    using flat_split [OF distinct g(1)] h by blast
  obtain g1 g2 where g12: "g = g1 @ a # g2" using g(2) by (meson split_list)
  have "distinct g" using bs(3,5) split(1) by simp
  then have rem: "remove1 a g = g1 @ g2" using g12 by (simp add: remove1_append)
  have xs: "xs = (U @ g1) @ a # (g2 @ W)" using bs(3) split(1) g12 by simp
  have nxt: "elem_next e = front (g2 @ W) None"
    using assms(1,2) xs by (auto simp: listed_def linked_append)
  have head: "hd g = a \<longrightarrow> elem_next e = front (tl g @ W) None"
    using nxt g12 \<open>distinct g\<close> by (cases g1) auto
  define bs' where "bs' = bs[h := (fst (bs ! h) - 1, if snd (bs ! h) = Some a then elem_next e else snd (bs ! h))]"
  have grouped': "grouped bs' (take_out h a gs)"
    unfolding bs'_def by (rule grouped_take_out [OF bs(4) _ g(2) head]) (use g(1) h in simp)
  have in_range: "h < length bs" "fst (bs ! h) \<noteq> 0"
    using bs(4) g h by (auto simp: grouped_def)
  have flat': "(U @ g1) @ (g2 @ W) = flat (take_out h a gs)"
    using split g h rem by (simp add: take_out_def)
  have notin: "a \<notin> set ((U @ g1) @ (g2 @ W))" using bs(5) xs by auto
  have distinct': "distinct (map fst (take_out h a gs))" using grouped' by (simp add: grouped_def)
  show ?thesis
  proof (rule that [OF xs, of "Some bs'" "take_out h a gs"])
    show "leaveBucket a (elem_next e) h (H\<lparr>store := s, first := f\<rparr>) = Done (H\<lparr>store := s, first := f, ht := Some bs'\<rparr>)" for s f
      using Some in_range by (simp add: leaveBucket_def bs'_def)
    have "b \<noteq> a \<and> slot (map_of (store H)) (htsize H) b = j"
      if "map_of (take_out h a gs) j = Some g'" "b \<in> set g'" for j g' b
    proof -
      have "b \<in> set (flat (take_out h a gs))" using that set_flat [OF distinct'] by blast
      then have "b \<noteq> a" using notin flat' by metis
      moreover have "\<exists>g''. map_of gs j = Some g'' \<and> b \<in> set g''"
        using that g h by (auto simp: take_out_def AList.delete_conv' AList.update_conv' split: if_splits
            dest: notin_set_remove1 set_remove1_subset [THEN subsetD])
      ultimately show ?thesis using bs(6) by auto
    qed
    then show "case Some bs' of None \<Rightarrow> ht H = None \<and> htsize H = 0
     | Some bs \<Rightarrow> length bs = htsize H \<and> 0 < htsize H \<and> (U @ g1) @ (g2 @ W) = flat (take_out h a gs) \<and>
         grouped bs (take_out h a gs) \<and>
         (\<forall>i g. map_of (take_out h a gs) i = Some g \<longrightarrow>
            (\<forall>b\<in>set g. b \<noteq> a \<and> slot (map_of (store H)) (htsize H) b = i))"
      using bs(1,2) grouped' flat' by (simp add: bs'_def)
  qed
qed

lemma removeElementGivenHash_ok:
  assumes "hash_inv H xs gs" "a \<in> set xs" "map_of (store H) a = Some e"
    "h = (if ht H = None then 0 else slot (map_of (store H)) (htsize H) a)"
  shows "\<exists>H' xs' gs'. removeElementGivenHash H a h = Done H' \<and> hash_inv H' xs' gs' \<and>
    payload (map_of (store H')) = (payload (map_of (store H)))(a := None) \<and>
    elem_mallocs H' = elem_mallocs H"
proof -
  have inv: "listed H xs gs" "set xs = dom (map_of (store H))" "hcount H = length xs"
      "keys_ok (map_of (store H))" "distinct xs"
    using assms(1) by (auto simp: hash_inv_def listed_def)
  obtain us ws gs' t where xs: "xs = us @ a # ws"
    and leave: "\<And>s f. leaveBucket a (elem_next e) h (H\<lparr>store := s, first := f\<rparr>) =
        Done (H\<lparr>store := s, first := f, ht := t\<rparr>)"
    and t: "case t of None \<Rightarrow> ht H = None \<and> htsize H = 0
     | Some bs \<Rightarrow> length bs = htsize H \<and> 0 < htsize H \<and> us @ ws = flat gs' \<and> grouped bs gs' \<and>
         (\<forall>i g. map_of gs' i = Some g \<longrightarrow> (\<forall>b\<in>set g. b \<noteq> a \<and> slot (map_of (store H)) (htsize H) b = i))"
    by (rule leaveBucket_ok [OF inv(1) assms(3,2,4)]) (rule that)
  obtain s where s: "unlinkElement e H = Done (H\<lparr>store := s, first := front (us @ ws) None\<rparr>)"
      "linked (map_of s) None (us @ ws) None" "payload (map_of s) = payload (map_of (store H))"
      "map_of s a = Some e"
    using unlinkElement_ok [of H us a ws e] inv(1) assms(3) xs by (auto simp: listed_def)
  define s' where "s' = AList.delete a s"
  have cells: "map_of s' = (map_of s)(a := None)" by (simp add: s'_def AList.delete_conv')
  have pay: "payload (map_of s') = (payload (map_of (store H)))(a := None)"
    by (simp add: cells payload_remove s(3))
  define H1 where "H1 = H\<lparr>store := s', first := front (us @ ws) None, ht := t, hcount := hcount H - 1\<rparr>"
  have free: "free_elem a (H\<lparr>store := s, first := f, ht := t\<rparr>) = Done (H\<lparr>store := s', first := f, ht := t\<rparr>)" for f
    using s(4) by (simp add: free_elem_def elem_at_Some s'_def)
  have result: "removeElementGivenHash H a h = (if hcount H1 = 0 then sqlite3HashClear H1 else Done H1)"
    using assms(3) inv(3) xs s(1) leave free
    by (simp add: removeElementGivenHash_def elem_at_Some H1_def Let_def)
  have "a \<notin> set (us @ ws)" using inv(5) xs by auto
  then have "linked (map_of s') None (us @ ws) None"
    using s(2) by (subst linked_frame [of _ _ "map_of s"]) (auto simp: cells)
  moreover have "case t of None \<Rightarrow> htsize H1 = 0
     | Some bs \<Rightarrow> length bs = htsize H1 \<and> 0 < htsize H1 \<and> us @ ws = flat gs' \<and> grouped bs gs' \<and>
         (\<forall>i g. map_of gs' i = Some g \<longrightarrow> (\<forall>b\<in>set g. slot (map_of s') (htsize H1) b = i))"
  proof (cases t)
    case (Some bs)
    then show ?thesis
      using t by (simp add: H1_def cells slot_remove slot_payload [OF s(3)])
  qed (use t in \<open>simp add: H1_def\<close>)
  ultimately have listed': "listed H1 (us @ ws) gs'"
    using inv(5) xs by (auto simp: listed_def H1_def split: option.splits)
  have "dom (map_of s') = dom (map_of (store H)) - {a}"
    unfolding dom_payload pay by auto
  also have "\<dots> = set (us @ ws)" using inv(2) xs \<open>a \<notin> set (us @ ws)\<close> by auto
  finally have dom': "set (us @ ws) = dom (map_of (store H1))" by (simp add: H1_def)
  have keys: "keys_ok (map_of (store H1))"
    using inv(4) pay unfolding keys_ok_def H1_def by (auto split: if_splits)
  have inv1: "hash_inv H1 (us @ ws) gs'"
    using listed' dom' keys inv(3) xs by (simp add: hash_inv_def H1_def)
  show ?thesis
  proof (cases "hcount H1 = 0")
    case False
    then show ?thesis using result inv1 pay
      by (intro exI [of _ H1] exI [of _ "us @ ws"] exI [of _ gs']) (simp add: H1_def)
  next
    case True
    then have "us @ ws = []" using inv(3) xs by (simp add: H1_def)
    then have "dom (map_of s') = {}" using dom' by (simp add: H1_def)
    then have "map_of s' = Map.empty" by (simp only: dom_eq_empty_conv)
    then have "payload (map_of s') = Map.empty" by (simp add: payload_def fun_eq_iff)
    moreover obtain H2 where "sqlite3HashClear H1 = Done H2" "hash_inv H2 [] []"
        "map_of (store H2) = Map.empty" "elem_mallocs H2 = elem_mallocs H1"
      using sqlite3HashClear_ok [OF listed' dom'] by blast
    moreover from this have "payload (map_of (store H2)) = Map.empty" by (simp add: payload_def fun_eq_iff)
    ultimately show ?thesis using result True pay
      by (intro exI [of _ H2] exI [of _ "[]"]) (simp add: H1_def)
  qed
qed

lemma link_iff: "(\<exists>e. m x = Some e \<and> elem_prev e = p \<and> elem_next e = n) \<longleftrightarrow>
    map_option (\<lambda>e. (elem_prev e, elem_next e)) (m x) = Some (p, n)"
  by (cases "m x") auto

lemma linked_same_links:
  "(\<And>x. x \<in> set xs \<Longrightarrow> map_option (\<lambda>e. (elem_prev e, elem_next e)) (m' x) =
      map_option (\<lambda>e. (elem_prev e, elem_next e)) (m x)) \<Longrightarrow> linked m' p xs q \<longleftrightarrow> linked m p xs q"
  by (induction m p xs q rule: linked.induct) (simp_all only: linked.simps link_iff list.set insert_iff simp_thms)

lemma overwrite_ok:
  assumes "hash_inv H xs gs" "a \<in> set xs" "map_of (store H) a = Some e" "NUL \<notin> set k"
    "folded (elem_key e) = folded k" "d \<noteq> 0"
  shows "\<exists>H'. write_elem a (\<lambda>e. e\<lparr>elem_data := d, elem_key := k\<rparr>) H = Done H' \<and> hash_inv H' xs gs \<and>
    payload (map_of (store H')) = (payload (map_of (store H)))(a \<mapsto> (k, d)) \<and>
    elem_mallocs H' = elem_mallocs H"
proof -
  define H' where "H' = H\<lparr>store := AList.update a (e\<lparr>elem_data := d, elem_key := k\<rparr>) (store H)\<rparr>"
  have inv: "listed H xs gs" "set xs = dom (map_of (store H))" "hcount H = length xs" "keys_ok (map_of (store H))"
    using assms(1) by (auto simp: hash_inv_def)
  have cells: "map_of (store H') = (map_of (store H))(a \<mapsto> e\<lparr>elem_data := d, elem_key := k\<rparr>)"
    by (simp add: H'_def AList.update_conv')
  have pay: "payload (map_of (store H')) = (payload (map_of (store H)))(a \<mapsto> (k, d))"
    by (auto simp: cells payload_def fun_eq_iff)
  have old: "payload (map_of (store H)) a = Some (elem_key e, elem_data e)" "NUL \<notin> set (elem_key e)"
    using assms(3) inv(4) by (auto simp: payload_def keys_ok_def)
  have "strHash k = strHash (elem_key e)" using strHash_folded assms(4,5) old by metis
  then have slot: "slot (map_of (store H')) n = slot (map_of (store H)) n" for n
    using old by (auto simp: slot_def pay fun_eq_iff)
  have "linked (map_of (store H')) None xs None = linked (map_of (store H)) None xs None"
    using assms(3) by (intro linked_same_links) (simp add: cells)
  moreover have "first H' = first H" "ht H' = ht H" "htsize H' = htsize H" by (simp_all add: H'_def)
  ultimately have "listed H' xs gs" using inv(1) by (cases "ht H") (auto simp: listed_def slot)
  moreover have "keys_ok (map_of (store H'))"
    using inv(4) assms(4-6) old unfolding keys_ok_def pay by (auto split: if_splits; metis)
  moreover have "dom (map_of (store H')) = dom (map_of (store H))" using assms(3) by (auto simp: cells)
  ultimately have "hash_inv H' xs gs" using inv by (simp add: hash_inv_def) (simp add: H'_def)
  then show ?thesis
    using assms(3) pay by (intro exI [of _ H']) (simp add: write_elem_Some H'_def)
qed

lemma listed_new_cell:
  assumes "listed H xs gs" "new \<notin> set xs" "payload (map_of s) = (payload (map_of (store H)))(new \<mapsto> v)"
    "\<And>x. x \<noteq> new \<Longrightarrow> map_of s x = map_of (store H) x"
  shows "listed (H\<lparr>store := s\<rparr>) xs gs"
proof -
  have links: "linked (map_of s) None xs None = linked (map_of (store H)) None xs None"
    by (rule linked_frame, rule assms(4)) (use assms(2) in auto)
  show ?thesis
  proof (cases "ht H")
    case None
    then show ?thesis using assms(1) links by (simp add: listed_def)
  next
    case (Some bs)
    then have bs: "xs = flat gs" "grouped bs gs"
      "\<forall>i g. map_of gs i = Some g \<longrightarrow> (\<forall>a\<in>set g. slot (map_of (store H)) (htsize H) a = i)"
      using assms(1) by (simp_all add: listed_def)
    have "slot (map_of s) (htsize H) a = i" if "map_of gs i = Some g" "a \<in> set g" for i g a
    proof -
      have "a \<in> set xs" using that bs(1,2) set_flat [of gs a] by (auto simp: grouped_def)
      then have "a \<noteq> new" using assms(2) by auto
      then have "slot (map_of s) (htsize H) a = slot (map_of (store H)) (htsize H) a"
        by (simp add: slot_def assms(3))
      then show ?thesis using bs(3) that by simp
    qed
    then show ?thesis using assms(1) links Some by (auto simp: listed_def)
  qed
qed

lemma keys_ok_new:
  "keys_ok m \<Longrightarrow> payload m' = (payload m)(new \<mapsto> (k, d)) \<Longrightarrow> NUL \<notin> set k \<Longrightarrow> d \<noteq> 0 \<Longrightarrow>
     (\<forall>a z d. payload m a = Some (z, d) \<longrightarrow> folded z \<noteq> folded k) \<Longrightarrow> keys_ok m'"
  unfolding keys_ok_def by (auto split: if_splits) metis+

lemma insert_new_ok:
  assumes "hash_inv H xs gs" "NUL \<notin> set k" "d \<noteq> 0" "new \<notin> fst ` set (store H)"
    "\<And>n. n \<le> usable n" "\<forall>a z d. payload (map_of (store H)) a = Some (z, d) \<longrightarrow> folded z \<noteq> folded k"
    "s = AList.update new \<lparr>elem_next = None, elem_prev = None, elem_data = d, elem_key = k\<rparr> (store H)"
    "H1 = H\<lparr>elem_mallocs := ms, hcount := hcount H + 1, store := s\<rparr>"
  shows "\<exists>H' xs' gs'. hashInsertNew usable k new (bucket_of H1 k) H1 = Done (0, H') \<and>
    hash_inv H' xs' gs' \<and> payload (map_of (store H')) = (payload (map_of (store H)))(new \<mapsto> (k, d)) \<and>
    elem_mallocs H' = ms"
proof -
  have inv: "listed H xs gs" "set xs = dom (map_of (store H))" "hcount H = length xs" "keys_ok (map_of (store H))"
    using assms(1) by (auto simp: hash_inv_def)
  have new: "new \<notin> set xs" using inv(2) assms(4) by (auto dest: map_of_SomeD simp: rev_image_eqI)
  have cells: "map_of s = (map_of (store H))
      (new \<mapsto> \<lparr>elem_next = None, elem_prev = None, elem_data = d, elem_key = k\<rparr>)"
    by (simp add: assms(7) AList.update_conv')
  have pay: "payload (map_of s) = (payload (map_of (store H)))(new \<mapsto> (k, d))"
    by (auto simp: cells payload_def fun_eq_iff)
  have H1: "store H1 = s" "hcount H1 = hcount H + 1" "elem_mallocs H1 = ms" by (simp_all add: assms(8))
  have "listed (H\<lparr>store := s\<rparr>) xs gs"
    by (rule listed_new_cell [OF inv(1) new pay]) (simp add: cells)
  moreover have "H1 = H\<lparr>store := s\<rparr>\<lparr>elem_mallocs := ms\<rparr>\<lparr>hcount := hcount H + 1\<rparr>" by (simp add: assms(8))
  ultimately have listed1: "listed H1 xs gs" by (simp only: listed_other_fields)
  have "\<exists>h H2 xs2 gs2. (if hcount H1 \<ge> 10 \<and> hcount H1 > 2 * htsize H1
       then exec_bind (rehash usable H1 (hcount H1 * 2)) (\<lambda>(done, H).
         Done (if done then unat (strHash k) mod htsize H else bucket_of H1 k, H))
       else Done (bucket_of H1 k, H1)) = Done (h, H2) \<and> listed H2 xs2 gs2 \<and> set xs2 = set xs \<and>
      (ht H2 \<noteq> None \<longrightarrow> h = unat (strHash k) mod htsize H2) \<and> hcount H2 = hcount H1 \<and>
      elem_mallocs H2 = ms \<and> payload (map_of (store H2)) = payload (map_of s) \<and>
      map_of (store H2) new = map_of s new"
  proof (cases "hcount H1 \<ge> 10 \<and> hcount H1 > 2 * htsize H1")
    case False
    then show ?thesis
      using listed1 H1 by (intro exI [of _ "bucket_of H1 k"] exI [of _ H1] exI [of _ xs] exI [of _ gs])
        (auto simp: bucket_of_def)
  next
    case True
    then have "0 < hcount H1 * 2" by simp
    obtain ok H2 xs2 gs2 where r: "rehash usable H1 (hcount H1 * 2) = Done (ok, H2)" "listed H2 xs2 gs2"
        "set xs2 = set xs" "if ok then ht H2 \<noteq> None else ht H2 = ht H1 \<and> htsize H2 = htsize H1"
        "hcount H2 = hcount H1" "elem_mallocs H2 = elem_mallocs H1"
        "payload (map_of (store H2)) = payload (map_of (store H1))"
        "\<forall>x. x \<notin> set xs \<longrightarrow> map_of (store H2) x = map_of (store H1) x"
      using rehash_ok [OF listed1 \<open>0 < hcount H1 * 2\<close> assms(5)] by metis
    show ?thesis
      using True r H1 new
      by (intro exI [of _ "if ok then unat (strHash k) mod htsize H2 else bucket_of H1 k"]
          exI [of _ H2] exI [of _ xs2] exI [of _ gs2]) (auto simp: bucket_of_def)
  qed
  then obtain h H2 xs2 gs2 where step: "(if hcount H1 \<ge> 10 \<and> hcount H1 > 2 * htsize H1
       then exec_bind (rehash usable H1 (hcount H1 * 2)) (\<lambda>(done, H).
         Done (if done then unat (strHash k) mod htsize H else bucket_of H1 k, H))
       else Done (bucket_of H1 k, H1)) = Done (h, H2)"
    and H2: "listed H2 xs2 gs2" "set xs2 = set xs" "ht H2 \<noteq> None \<longrightarrow> h = unat (strHash k) mod htsize H2"
      "hcount H2 = hcount H1" "elem_mallocs H2 = ms" "payload (map_of (store H2)) = payload (map_of s)"
      "map_of (store H2) new = map_of s new"
    by blast
  obtain n where n: "map_of (store H2) new = Some n" "elem_key n = k" using H2(7) by (auto simp: cells)
  have bucket: "(case ht H2 of None \<Rightarrow> None | Some _ \<Rightarrow> Some h) =
      (case ht H2 of None \<Rightarrow> None | Some _ \<Rightarrow> Some (slot (map_of (store H2)) (htsize H2) new))"
    using H2(3) n by (auto simp: slot_at split: option.split)
  obtain H3 xs3 gs3 where H3: "insertElement (case ht H2 of None \<Rightarrow> None | Some _ \<Rightarrow> Some h) new H2 = Done H3"
      "listed H3 xs3 gs3" "set xs3 = insert new (set xs)" "kept H2 H3"
    using insertElement_ok [OF H2(1) _ n(1)] new H2(2) bucket by auto
  have pay3: "payload (map_of (store H3)) = (payload (map_of (store H)))(new \<mapsto> (k, d))"
    using H3(4) H2(6) pay by (simp add: kept_def)
  have "dom (map_of (store H3)) = insert new (dom (map_of (store H)))"
    unfolding dom_payload pay3 by auto
  moreover have "length xs3 = Suc (length xs)"
  proof -
    have "distinct xs3" "distinct xs" using H3(2) inv(1) by (auto simp: listed_def)
    then show ?thesis using H3(3) new by (metis List.finite_set card_insert_disjoint distinct_card)
  qed
  moreover have "keys_ok (map_of (store H3))" by (rule keys_ok_new [OF inv(4) pay3 assms(2,3,6)])
  ultimately have "hash_inv H3 xs3 gs3"
    using H3 H2 H1 inv by (simp add: hash_inv_def kept_def)
  then show ?thesis
    using step H3(1,4) H2(5) pay3
    by (intro exI [of _ H3] exI [of _ xs3] exI [of _ gs3]) (simp add: kept_def hashInsertNew_def)
qed

lemma represents_put:
  assumes "represents m f" "payload m' = (payload m)(a \<mapsto> (k, d))"
    "\<And>b z d. payload m b = Some (z, d) \<Longrightarrow> folded z = folded k \<longleftrightarrow> b = a"
  shows "represents m' (f(folded k \<mapsto> d))"
  unfolding represents_def
proof (intro allI)
  fix k' d'
  show "(f(folded k \<mapsto> d)) k' = Some d' \<longleftrightarrow> (\<exists>a z. payload m' a = Some (z, d') \<and> folded z = k')"
  proof (cases "k' = folded k")
    case True
    then show ?thesis using assms(2,3) by auto
  next
    case False
    have "(\<exists>b z. payload m' b = Some (z, d') \<and> folded z = k') \<longleftrightarrow>
        (\<exists>b z. payload m b = Some (z, d') \<and> folded z = k')"
      using False assms(2,3) by auto
    then show ?thesis using False assms(1) by (simp add: represents_def)
  qed
qed

lemma represents_remove:
  assumes "represents m f" "payload m' = (payload m)(a := None)"
    "\<And>b z d. payload m b = Some (z, d) \<Longrightarrow> folded z = k \<longleftrightarrow> b = a"
  shows "represents m' (f(k := None))"
  using assms(1) unfolding represents_def assms(2) using assms(3) by (auto split: if_splits)

lemma hash_rel_step:
  assumes rel: "hash_rel fresh usable H (f, em)" and may: "hash_may x (f, em)"
  shows "\<exists>H'. hash_step fresh usable x H = Done (fst (hash_spec x (f, em)), H') \<and>
    hash_rel fresh usable H' (snd (hash_spec x (f, em)))"
proof -
  obtain xs gs where inv: "hash_inv H xs gs"
    and laws: "\<And>as. fresh as \<notin> set as" "\<And>n. n \<le> usable n"
    and rep: "represents (map_of (store H)) f" and em: "em = elem_mallocs H"
    using rel by (auto simp: hash_rel_def)
  note relI = hash_rel_def [THEN iffD2]
  show ?thesis
  proof (cases x)
    case Clear
    have "listed H xs gs" "set xs = dom (map_of (store H))" using inv by (simp_all add: hash_inv_def)
    from sqlite3HashClear_ok [OF this] obtain H' where "sqlite3HashClear H = Done H'" "hash_inv H' [] []"
        "map_of (store H') = Map.empty" "elem_mallocs H' = elem_mallocs H"
      by blast
    then show ?thesis
      using Clear laws em by (auto simp: hash_rel_def represents_def payload_def)
  next
    case (Get k)
    then have k: "NUL \<notin> set k" using may by simp
    from inv rep k show ?thesis
    proof (cases rule: find_represents)
      case absent
      then show ?thesis using Get rel by (simp add: sqlite3HashFind_def)
    next
      case (present a e)
      then show ?thesis using Get rel by (simp add: sqlite3HashFind_def elem_at_Some)
    qed
  next
    case (Put k d)
    then have k: "NUL \<notin> set k" using may by simp
    from inv rep k show ?thesis
    proof (cases rule: find_represents)
      case (present a e)
      have unique: "folded z = folded k \<longleftrightarrow> b = a" if "payload (map_of (store H)) b = Some (z, d')" for b z d'
        using inv present that by (auto simp: hash_inv_def keys_ok_def payload_def)
      show ?thesis
      proof (cases "d = 0")
        case True
        have slot: "bucket_of H k = (if ht H = None then 0 else slot (map_of (store H)) (htsize H) a)"
        proof -
          have "payload (map_of (store H)) a = Some (elem_key e, elem_data e)"
            using present by (simp add: payload_def)
          then have "NUL \<notin> set (elem_key e)" using inv unfolding hash_inv_def keys_ok_def by blast
          then have "strHash (elem_key e) = strHash k" using strHash_folded k present by blast
          then show ?thesis using present by (simp add: bucket_of_def slot_at)
        qed
        obtain H' xs' gs' where H': "removeElementGivenHash H a (bucket_of H k) = Done H'"
            "hash_inv H' xs' gs'" "payload (map_of (store H')) = (payload (map_of (store H)))(a := None)"
            "elem_mallocs H' = elem_mallocs H"
          using removeElementGivenHash_ok [OF inv present(2,3) slot] by blast
        have "hash_step fresh usable x H = Done (elem_data e, H')"
          using Put True present H' by (simp add: sqlite3HashInsert_def elem_at_Some)
        moreover have "represents (map_of (store H')) (f(folded k := None))"
          by (rule represents_remove [OF rep H'(3)]) (rule unique)
        ultimately show ?thesis
          using Put True present H' laws em by (auto simp: hash_rel_def)
      next
        case False
        obtain H' where H': "write_elem a (\<lambda>e. e\<lparr>elem_data := d, elem_key := k\<rparr>) H = Done H'"
            "hash_inv H' xs gs" "payload (map_of (store H')) = (payload (map_of (store H)))(a \<mapsto> (k, d))"
            "elem_mallocs H' = elem_mallocs H"
          using overwrite_ok [OF inv present(2,3) k present(4) False] by blast
        have "hash_step fresh usable x H = Done (elem_data e, H')"
          using Put False present H' by (simp add: sqlite3HashInsert_def elem_at_Some)
        moreover have "represents (map_of (store H')) (f(folded k \<mapsto> d))"
          by (rule represents_put [OF rep H'(3)]) (rule unique)
        ultimately show ?thesis
          using Put False present H' laws em by (auto simp: hash_rel_def)
      qed
    next
      case absent
      obtain ok ms where ms: "alloc (elem_mallocs H) = (ok, ms)" by fastforce
      consider "d = 0" | "d \<noteq> 0" "\<not> ok" | "d \<noteq> 0" ok by blast
      then show ?thesis
      proof cases
        case 1
        then show ?thesis using Put absent rel by (simp add: sqlite3HashInsert_def)
      next
        case 2
        then have "hash_step fresh usable x H = Done (d, H\<lparr>elem_mallocs := ms\<rparr>)"
          using Put absent ms by (simp add: sqlite3HashInsert_def)
        moreover have "hash_inv (H\<lparr>elem_mallocs := ms\<rparr>) xs gs" using inv by (simp add: hash_inv_def)
        ultimately show ?thesis
          using Put 2 absent ms em laws rep by (auto simp: hash_rel_def)
      next
        case 3
        define new where "new = fresh (map fst (store H))"
        define s where "s = AList.update new \<lparr>elem_next = None, elem_prev = None, elem_data = d, elem_key = k\<rparr> (store H)"
        define H1 where "H1 = H\<lparr>elem_mallocs := ms, hcount := hcount H + 1, store := s\<rparr>"
        have fresh: "new \<notin> fst ` set (store H)" using laws(1) [of "map fst (store H)"] by (simp add: new_def)
        have same: "bucket_of H1 k = bucket_of H k" by (simp add: bucket_of_def H1_def)
        obtain H' xs' gs' where H': "hashInsertNew usable k new (bucket_of H1 k) H1 = Done (0, H')"
            "hash_inv H' xs' gs'"
            "payload (map_of (store H')) = (payload (map_of (store H)))(new \<mapsto> (k, d))"
            "elem_mallocs H' = ms"
          using insert_new_ok [OF inv k 3(1) fresh laws(2) absent(3) s_def H1_def] by blast
        have "hash_step fresh usable x H = Done (0, H')"
          using Put 3 absent(1) ms H'(1) [unfolded same]
          by (simp add: sqlite3HashInsert_def Let_def new_def s_def H1_def)
        moreover have "represents (map_of (store H')) (f(folded k \<mapsto> d))"
          by (rule represents_put [OF rep H'(3)])
            (use absent(3) fresh in \<open>auto simp: payload_def simp flip: map_of_eq_None_iff\<close>)
        ultimately show ?thesis
          using Put 3 absent H' ms em laws by (auto simp: hash_rel_def)
      qed
    qed
  qed
qed

interpretation hash: simulation "hash_step fresh usable" hash_spec hash_may "hash_rel fresh usable"
  for fresh usable
proof
  fix H a x
  assume "hash_rel fresh usable H a" "hash_may x a"
  then show "\<exists>H'. hash_step fresh usable x H = Done (fst (hash_spec x a), H') \<and>
      hash_rel fresh usable H' (snd (hash_spec x a))"
    using hash_rel_step [of fresh usable H "fst a" "snd a" x] by simp
qed

lemma Init_hash_rel:
  "(\<And>as. fresh as \<notin> set as) \<Longrightarrow> (\<And>n. n \<le> usable n) \<Longrightarrow>
     hash_rel fresh usable (sqlite3HashInit em hm) (Map.empty, em)"
  using hash_inv_empty [of "sqlite3HashInit em hm"]
  by (auto simp: hash_rel_def sqlite3HashInit_def represents_def payload_def)

lemma hash_allowed: "list_all (\<lambda>x. case x of Put k d \<Rightarrow> NUL \<notin> set k | Get k \<Rightarrow> NUL \<notin> set k | Clear \<Rightarrow> True) ops \<Longrightarrow>
    allowed hash_may hash_spec ops a"
  by (induction ops arbitrary: a) (auto split: hash_op.splits)

subsection \<open>Properties\<close>

text \<open>
  Property C7.  The hash table is a map from case-folded keys: any history of inserts,
  replacements, removals, lookups and clears runs to its end without touching a NULL or freed
  element, whatever bucket arrays fail to be allocated, and answers as the map does; an insert
  whose element cannot be allocated returns its own data and changes nothing.  Clearing the table
  afterwards frees every element.
\<close>

theorem hash_table_is_a_map:
  assumes "\<And>as. fresh as \<notin> set as" "\<And>n. n \<le> usable n"
    "list_all (\<lambda>x. case x of Put k d \<Rightarrow> NUL \<notin> set k | Get k \<Rightarrow> NUL \<notin> set k | Clear \<Rightarrow> True) ops"
  shows "\<exists>H'. history (hash_step fresh usable) ops (sqlite3HashInit em hm) =
      Done (fst (spec_history hash_spec ops (Map.empty, em)), H') \<and>
    (\<exists>H''. sqlite3HashClear H' = Done H'' \<and> store H'' = [] \<and> ht H'' = None)"
proof -
  obtain H' where H': "history (hash_step fresh usable) ops (sqlite3HashInit em hm) =
        Done (fst (spec_history hash_spec ops (Map.empty, em)), H')"
      "hash_rel fresh usable H' (snd (spec_history hash_spec ops (Map.empty, em)))"
    using hash.history_simulates [OF Init_hash_rel hash_allowed, of fresh usable ops em hm] assms by blast
  then obtain xs gs where "listed H' xs gs" "set xs = dom (map_of (store H'))"
    by (auto simp: hash_rel_def hash_inv_def)
  from sqlite3HashClear_ok [OF this] obtain H'' where H'': "sqlite3HashClear H' = Done H''"
      "map_of (store H'') = Map.empty"
    by blast
  then have "ht H'' = None" by (auto simp: sqlite3HashClear_def)
  moreover have "store H'' = []" using H''(2) by simp
  ultimately show ?thesis using H'(1) H''(1) by blast
qed

theorem hash_table_is_a_map_witness:
  "\<exists>H'. history (hash_step (\<lambda>as. Suc (sum_list as)) (\<lambda>n. n + 4))
      [Put ''Users'' 7, Put ''orders'' 9, Get ''USERS'', Put ''users'' 8, Put ''ORDERS'' 0, Get ''orders'']
      (sqlite3HashInit [] [False]) = Done ([0, 0, 7, 7, 9, 0], H')"
proof -
  define ops where "ops = [Put ''Users'' 7, Put ''orders'' 9, Get ''USERS'', Put ''users'' 8,
    Put ''ORDERS'' 0, Get ''orders'']"
  have "Suc (sum_list as) \<notin> set as" for as :: "nat list"
    using member_le_sum_list [of "Suc (sum_list as)" as] by auto
  moreover have "list_all (\<lambda>x. case x of Put k d \<Rightarrow> NUL \<notin> set k | Get k \<Rightarrow> NUL \<notin> set k | Clear \<Rightarrow> True) ops"
    by (simp add: ops_def NUL_def)
  moreover have "fst (spec_history hash_spec ops (Map.empty, [])) = [0, 0, 7, 7, 9, 0]"
  proof -
    have fold: "folded ''Users'' = folded ''users''" "folded ''USERS'' = folded ''users''"
      "folded ''ORDERS'' = folded ''orders''" "folded ''orders'' \<noteq> folded ''users''"
      by (simp_all add: folded_def tolower_code)
    show ?thesis by (simp add: ops_def fold fold(4) [symmetric])
  qed
  ultimately show ?thesis
    using hash_table_is_a_map [of "\<lambda>as. Suc (sum_list as)" "\<lambda>n. n + 4" ops "[]" "[False]"]
    unfolding ops_def by (auto simp del: history.simps)
qed

end
