(* ===== verification/MemJournal.thy ===== *)
theory MemJournal
  imports CBase
begin

text \<open>
  The in-memory rollback journal of \<^verbatim>\<open>memjournal.c\<close> (in \<^verbatim>\<open>sqlite/3.8.11/sqlite3.c\<close>): a file kept
  in a linked list of chunks, written only at its end, read anywhere.

  The chunk list is a list of byte lists; a pointer to a chunk is its number, NULL is \<^verbatim>\<open>None\<close>, and
  \<^verbatim>\<open>pNext\<close> of a chunk is the next number.  A fresh chunk holds \<^verbatim>\<open>junk\<close>, the bytes \<^verbatim>\<open>sqlite3_malloc\<close>
  left there.
\<close>

subsection \<open>State\<close>

text \<open>\<^verbatim>\<open>1024 - sizeof(FileChunk*)\<close> with four-byte pointers.\<close>

definition JOURNAL_CHUNKSIZE :: nat where "JOURNAL_CHUNKSIZE = 1024 - 4"

record FilePoint =
  iOffset :: nat
  pChunk :: "nat option"

record MemJournal =
  pFirst :: "u8 list list"
  endpoint :: FilePoint
  readpoint :: FilePoint
  jmallocs :: "bool list"

definition nextChunk :: "u8 list list \<Rightarrow> nat \<Rightarrow> nat option" where
  "nextChunk cs i = (if i + 1 < length cs then Some (i + 1) else None)"

definition sqlite3MemJournalOpen :: "bool list \<Rightarrow> MemJournal" where
  "sqlite3MemJournalOpen ms = \<lparr>pFirst = [], endpoint = \<lparr>iOffset = 0, pChunk = None\<rparr>,
     readpoint = \<lparr>iOffset = 0, pChunk = None\<rparr>, jmallocs = ms\<rparr>"

subsection \<open>Reading\<close>

text \<open>The search for the chunk of an offset from \<^verbatim>\<open>pFirst\<close> on; it stops at the end of the list.\<close>

function memjrnlSeek :: "u8 list list \<Rightarrow> nat \<Rightarrow> nat \<Rightarrow> nat \<Rightarrow> nat option" where
  "memjrnlSeek cs i iOff iOfst =
     (if i < length cs
      then if iOff + JOURNAL_CHUNKSIZE \<le> iOfst then memjrnlSeek cs (i + 1) (iOff + JOURNAL_CHUNKSIZE) iOfst
           else Some i
      else None)"
  by pat_completeness auto

termination
  by (relation "measure (\<lambda>(cs, i, iOff, iOfst). length cs - i)") auto

function memjrnlReadLoop ::
  "u8 list list \<Rightarrow> nat option \<Rightarrow> nat \<Rightarrow> int \<Rightarrow> u8 list \<Rightarrow> (u8 list \<times> nat option) exec"
where
  "memjrnlReadLoop cs None iChunkOffset nRead zOut = (if nRead = 0 then Done (zOut, None) else Undefined)"
| "memjrnlReadLoop cs (Some i) iChunkOffset nRead zOut =
     (if i < length cs
      then let iSpace = JOURNAL_CHUNKSIZE - iChunkOffset;
          nCopy = min (nat nRead) (JOURNAL_CHUNKSIZE - iChunkOffset);
          zOut' = zOut @ take nCopy (drop iChunkOffset (cs ! i));
          nRead' = nRead - int iSpace
        in if 0 \<le> nRead'
           then (case nextChunk cs i of
               None \<Rightarrow> Done (zOut', None)
             | Some n \<Rightarrow> if 0 < nRead' then memjrnlReadLoop cs (Some n) 0 nRead' zOut'
                         else Done (zOut', Some n))
           else Done (zOut', Some i)
      else Undefined)"
  by pat_completeness auto

termination
  by (relation "measures [\<lambda>(cs, i, off, n, z). nat n, \<lambda>(cs, i, off, n, z). off]")
    (auto simp: JOURNAL_CHUNKSIZE_def)

text \<open>A read of no bytes from a NULL chunk copies nothing and leaves the chunk NULL.\<close>

definition memjrnlRead :: "MemJournal \<Rightarrow> nat \<Rightarrow> nat \<Rightarrow> (int \<times> u8 list \<times> MemJournal) exec" where
  "memjrnlRead p iAmt iOfst =
     (let pChunk = (if iOffset (readpoint p) \<noteq> iOfst \<or> iOfst = 0
                    then memjrnlSeek (pFirst p) 0 0 iOfst else pChunk (readpoint p))
      in exec_bind (memjrnlReadLoop (pFirst p) pChunk (iOfst mod JOURNAL_CHUNKSIZE) (int iAmt) [])
        (\<lambda>(zBuf, pChunk). Done (SQLITE_OK, zBuf,
           p\<lparr>readpoint := \<lparr>iOffset = iOfst + iAmt, pChunk = pChunk\<rparr>\<rparr>)))"

subsection \<open>Writing\<close>

text \<open>
  A new chunk is linked behind \<^verbatim>\<open>endpoint.pChunk\<close>, or becomes the first one; what was linked there
  before would be lost.
\<close>

definition addChunk :: "u8 list \<Rightarrow> MemJournal \<Rightarrow> MemJournal" where
  "addChunk junk p =
     (case pChunk (endpoint p) of
        Some i \<Rightarrow> p\<lparr>pFirst := take (i + 1) (pFirst p) @ [junk], endpoint := (endpoint p)\<lparr>pChunk := Some (i + 1)\<rparr>\<rparr>
      | None \<Rightarrow> p\<lparr>pFirst := [junk], endpoint := (endpoint p)\<lparr>pChunk := Some 0\<rparr>\<rparr>)"

definition copyToChunk :: "MemJournal \<Rightarrow> nat \<Rightarrow> u8 list \<Rightarrow> MemJournal exec" where
  "copyToChunk p off bs =
     (case pChunk (endpoint p) of
        None \<Rightarrow> Undefined
      | Some i \<Rightarrow>
          if i < length (pFirst p)
          then Done (p\<lparr>pFirst := (pFirst p)[i := take off (pFirst p ! i) @ bs @ drop (off + length bs) (pFirst p ! i)],
            endpoint := (endpoint p)\<lparr>iOffset := iOffset (endpoint p) + length bs\<rparr>\<rparr>)
          else Undefined)"

function memjrnlWriteLoop :: "u8 list \<Rightarrow> u8 list \<Rightarrow> MemJournal \<Rightarrow> (int \<times> MemJournal) exec" where
  "memjrnlWriteLoop junk zWrite p =
     (if zWrite = [] then Done (SQLITE_OK, p)
      else
        let iChunkOffset = iOffset (endpoint p) mod JOURNAL_CHUNKSIZE;
          iSpace = min (length zWrite) (JOURNAL_CHUNKSIZE - iChunkOffset);
          (ok, ms) = (if iChunkOffset = 0 then alloc (jmallocs p) else (True, jmallocs p));
          p = p\<lparr>jmallocs := ms\<rparr>
        in if \<not> ok then Done (SQLITE_IOERR_NOMEM, p)
           else exec_bind (copyToChunk (if iChunkOffset = 0 then addChunk junk p else p) iChunkOffset (take iSpace zWrite))
             (memjrnlWriteLoop junk (drop iSpace zWrite)))"
  by pat_completeness auto

termination
  by (relation "measure (\<lambda>(junk, z, p). length z)") (auto simp: JOURNAL_CHUNKSIZE_def)

text \<open>The offset is not used: the journal is only ever appended to.\<close>

definition memjrnlWrite :: "u8 list \<Rightarrow> MemJournal \<Rightarrow> u8 list \<Rightarrow> nat \<Rightarrow> (int \<times> MemJournal) exec" where
  "memjrnlWrite junk p zBuf iOfst = memjrnlWriteLoop junk zBuf p"

subsection \<open>The other methods\<close>

definition memjrnlTruncate :: "MemJournal \<Rightarrow> nat \<Rightarrow> (int \<times> MemJournal)" where
  "memjrnlTruncate p nBytes = (SQLITE_OK, sqlite3MemJournalOpen (jmallocs p))"

definition memjrnlClose :: "MemJournal \<Rightarrow> (int \<times> MemJournal)" where
  "memjrnlClose p = (SQLITE_OK, snd (memjrnlTruncate p 0))"

definition memjrnlSync :: "MemJournal \<Rightarrow> int" where
  "memjrnlSync p = SQLITE_OK"

definition memjrnlFileSize :: "MemJournal \<Rightarrow> int \<times> nat" where
  "memjrnlFileSize p = (SQLITE_OK, iOffset (endpoint p))"

declare memjrnlSeek.simps [simp del]
declare memjrnlWriteLoop.simps [simp del]

subsection \<open>Chunks\<close>

abbreviation K :: nat where "K \<equiv> JOURNAL_CHUNKSIZE"

lemma K_pos [simp]: "0 < K"
  by (simp add: JOURNAL_CHUNKSIZE_def)

definition chunked :: "u8 list list \<Rightarrow> bool" where
  "chunked cs \<longleftrightarrow> list_all (\<lambda>c. length c = K) cs"

lemma chunked_simps [simp]: "chunked []" "chunked (c # cs) \<longleftrightarrow> length c = K \<and> chunked cs"
  "chunked (cs @ ds) \<longleftrightarrow> chunked cs \<and> chunked ds"
  by (simp_all add: chunked_def)

lemma length_concat_chunked: "chunked cs \<Longrightarrow> length (concat cs) = K * length cs"
  by (induction cs) (simp_all add: algebra_simps)

lemma drop_concat_chunked: "chunked cs \<Longrightarrow> drop (K * i) (concat cs) = concat (drop i cs)"
proof (induction cs arbitrary: i)
  case (Cons c cs)
  then show ?case by (cases i) (simp_all add: algebra_simps)
qed simp

lemma drop_in_chunk:
  assumes "chunked cs" "i < length cs" "off \<le> K"
  shows "drop (K * i + off) (concat cs) = drop off (cs ! i) @ concat (drop (i + 1) cs)"
proof -
  have "drop (K * i + off) (concat cs) = drop off (drop (K * i) (concat cs))" by (simp add: add.commute)
  also have "\<dots> = drop off (cs ! i @ concat (drop (i + 1) cs))"
    using assms by (simp add: drop_concat_chunked Cons_nth_drop_Suc [symmetric] del: drop_drop)
  finally show ?thesis using assms by (simp add: chunked_def list_all_length)
qed

lemma memjrnlSeek_ok:
  "iOff = K * i \<Longrightarrow> iOff \<le> n \<Longrightarrow> n < K * length cs \<Longrightarrow> memjrnlSeek cs i iOff n = Some (n div K)"
proof (induction cs i iOff n rule: memjrnlSeek.induct)
  case (1 cs i iOff n)
  have i: "i < length cs"
    using 1 by (metis le_less_trans nat_mult_less_cancel_disj)
  show ?case
  proof (cases "iOff + K \<le> n")
    case True
    then show ?thesis using 1 i by (subst memjrnlSeek.simps) (simp add: algebra_simps)
  next
    case False
    then have "n div K = i" using "1.prems" by (intro div_nat_eqI) (auto simp: algebra_simps)
    then show ?thesis using False i by (subst memjrnlSeek.simps) simp
  qed
qed

lemma memjrnlSeek_end: "iOff = K * i \<Longrightarrow> i \<le> length cs \<Longrightarrow> memjrnlSeek cs i iOff (K * length cs) = None"
proof (induction cs i iOff "K * length cs" rule: memjrnlSeek.induct)
  case (1 cs i iOff)
  show ?case
  proof (cases "i < length cs")
    case True
    then have "K * (i + 1) \<le> K * length cs" by (intro mult_le_mono) auto
    then have "iOff + K \<le> K * length cs" using "1.prems"(1) by simp
    then show ?thesis using 1 True by (subst memjrnlSeek.simps) (simp add: algebra_simps)
  qed (subst memjrnlSeek.simps, simp)
qed

lemma memjrnlReadLoop_ok:
  assumes "chunked cs" "i < length cs" "off < K" "K * i + off + n \<le> K * length cs"
  shows "memjrnlReadLoop cs (Some i) off (int n) z =
    Done (z @ take n (drop (K * i + off) (concat cs)),
      if (K * i + off + n) div K < length cs then Some ((K * i + off + n) div K) else None)"
  using assms
proof (induction "length cs - i" arbitrary: i off n z)
  case 0
  then show ?case by simp
next
  case (Suc k)
  have len: "length (cs ! i) = K" using Suc.prems by (simp add: chunked_def list_all_length)
  have data: "drop (K * i + off) (concat cs) = drop off (cs ! i) @ concat (drop (i + 1) cs)"
    using Suc.prems drop_in_chunk by simp
  define e where "e = K * i + off + n"
  consider "n < K - off" | "n = K - off" | "K - off < n" by linarith
  then show ?case
  proof cases
    case 1
    have e: "e div K = i" using 1 Suc.prems by (intro div_nat_eqI) (auto simp: e_def algebra_simps)
    have "min n (K - off) = n" "\<not> 0 \<le> int n - int (K - off)" using 1 Suc.prems by auto
    then show ?thesis using 1 Suc.prems data len e by (simp add: e_def)
  next
    case 2
    have e: "e div K = i + 1" using 2 Suc.prems by (simp add: e_def)
    have "min n (K - off) = n" "int n - int (K - off) = 0" using 2 by auto
    then show ?thesis using 2 Suc.prems data len e by (simp add: e_def nextChunk_def)
  next
    case 3
    define n' where "n' = n - (K - off)"
    have n: "n = (K - off) + n'" "0 < n'" using 3 by (auto simp: n'_def)
    have e': "e = K * (i + 1) + 0 + n'" using n Suc.prems by (simp add: e_def)
    then have "K * (i + 1) < K * length cs" using Suc.prems(4) n(2) by (simp add: e_def)
    then have more: "i + 1 < length cs" by (simp only: nat_mult_less_cancel_disj)
    have IH: "memjrnlReadLoop cs (Some (i + 1)) 0 (int n') (z @ drop off (cs ! i)) =
        Done ((z @ drop off (cs ! i)) @ take n' (drop (K * (i + 1) + 0) (concat cs)),
          if (K * (i + 1) + 0 + n') div K < length cs then Some ((K * (i + 1) + 0 + n') div K) else None)"
      using Suc more e' by (intro Suc.hyps(1)) (auto simp: e_def)
    have "drop (K * (i + 1)) (concat cs) = concat (drop (i + 1) cs)"
      using Suc.prems drop_concat_chunked by blast
    moreover have "take (K - off) (drop off (cs ! i)) = drop off (cs ! i)" using len by simp
    moreover have "int n - int (K - off) = int n'" "min n (K - off) = K - off" using n by auto
    moreover have "take n (drop off (cs ! i) @ concat (drop (i + 1) cs)) =
        drop off (cs ! i) @ take n' (concat (drop (i + 1) cs))"
      using n len by simp
    ultimately show ?thesis
      using Suc.prems(2) data IH e' more n(2) by (simp add: nextChunk_def flip: e_def)
  qed
qed

subsection \<open>The invariant\<close>

definition content :: "MemJournal \<Rightarrow> u8 list" where
  "content p = take (iOffset (endpoint p)) (concat (pFirst p))"

text \<open>
  Just as many chunks as the offset needs, \<^verbatim>\<open>endpoint.pChunk\<close> is the last one, and the
  \<^verbatim>\<open>readpoint\<close> is in the chunk of its offset, unless it is \<^verbatim>\<open>stale\<close>: a read ended exactly at the
  end of the last chunk and left a NULL there.
\<close>

definition journal_inv :: "MemJournal \<Rightarrow> nat option \<Rightarrow> bool" where
  "journal_inv p stale \<longleftrightarrow> chunked (pFirst p) \<and>
     iOffset (endpoint p) \<le> K * length (pFirst p) \<and> K * length (pFirst p) < iOffset (endpoint p) + K \<and>
     pChunk (endpoint p) = (if pFirst p = [] then None else Some (length (pFirst p) - 1)) \<and>
     (case stale of
        Some n \<Rightarrow> iOffset (readpoint p) = n \<and> pChunk (readpoint p) = None
      | None \<Rightarrow> iOffset (readpoint p) = 0 \<or>
          pChunk (readpoint p) = Some (iOffset (readpoint p) div K) \<and>
          iOffset (readpoint p) div K < length (pFirst p))"

lemma length_content: "journal_inv p st \<Longrightarrow> length (content p) = iOffset (endpoint p)"
  by (simp add: content_def journal_inv_def length_concat_chunked)

lemma mod_sub: "K * n < off + K \<Longrightarrow> off \<le> K * n \<Longrightarrow> off mod K \<noteq> 0 \<Longrightarrow>
    0 < n \<and> off = K * (n - 1) + off mod K"
proof -
  assume a: "K * n < off + K" "off \<le> K * n" "off mod K \<noteq> 0"
  have off: "off = K * (off div K) + off mod K" by simp
  have "K * (off div K + 2) = K * (off div K) + 2 * K" by (simp add: algebra_simps)
  then have "K * n < K * (off div K + 2)" using a(1) off mod_less_divisor [OF K_pos, of off] by linarith
  then have "n < off div K + 2" by (simp only: nat_mult_less_cancel_disj)
  then have "n \<le> off div K + 1" by simp
  moreover have "K * (off div K) < K * n" using a off by linarith
  then have "off div K < n" by simp
  ultimately have "off div K = n - 1" "0 < n" by auto
  then show ?thesis using off by metis
qed

text \<open>One round of the write loop puts the next piece behind the content.\<close>

lemma write_round:
  assumes inv: "journal_inv p st" and junk: "length junk = K" and z: "z \<noteq> []"
  defines "off \<equiv> iOffset (endpoint p) mod K"
  defines "n \<equiv> min (length z) (K - off)"
  shows "\<exists>p'. copyToChunk (if off = 0 then addChunk junk (p\<lparr>jmallocs := ms\<rparr>) else p\<lparr>jmallocs := ms\<rparr>) off (take n z) =
      Done p' \<and> journal_inv p' st \<and> content p' = content p @ take n z \<and> readpoint p' = readpoint p \<and>
      jmallocs p' = ms \<and> length (pFirst p) \<le> length (pFirst p')"
proof -
  define e where "e = iOffset (endpoint p)"
  have facts: "chunked (pFirst p)" "e \<le> K * length (pFirst p)" "K * length (pFirst p) < e + K"
      "pChunk (endpoint p) = (if pFirst p = [] then None else Some (length (pFirst p) - 1))"
    using inv by (auto simp: journal_inv_def e_def)
  define cs where "cs = (if off = 0 then pFirst p @ [junk] else pFirst p)"
  have cs: "cs \<noteq> []" "chunked cs" "e = K * (length cs - 1) + off" "length (pFirst p) \<le> length cs"
    "\<exists>zs. concat cs = concat (pFirst p) @ zs"
  proof -
    show "chunked cs" "length (pFirst p) \<le> length cs" "\<exists>zs. concat cs = concat (pFirst p) @ zs"
      using facts junk by (auto simp: cs_def)
    show "cs \<noteq> []" "e = K * (length cs - 1) + off"
    proof (atomize (full), cases "off = 0")
      case True
      then have "e = K * (e div K)" using mult_div_mod_eq [of K e] by (simp add: off_def e_def)
      moreover from this have "K * (e div K) \<le> K * length (pFirst p)" "K * length (pFirst p) < K * (e div K + 1)"
        using facts by (simp_all add: algebra_simps)
      then have "e div K \<le> length (pFirst p)" "length (pFirst p) < e div K + 1"
        by (simp, simp only: nat_mult_less_cancel_disj)
      then have "e div K = length (pFirst p)" by simp
      ultimately show "cs \<noteq> [] \<and> e = K * (length cs - 1) + off" using True by (simp add: cs_def)
    next
      case False
      then show "cs \<noteq> [] \<and> e = K * (length cs - 1) + off"
        using mod_sub [of "length (pFirst p)" e] facts by (auto simp: cs_def off_def e_def)
    qed
  qed
  define i where "i = length cs - 1"
  obtain ds c where dc: "cs = ds @ [c]" using cs(1) by (metis append_butlast_last_id)
  have i: "i < length cs" "cs ! i = c" "length ds = i" using dc by (auto simp: i_def)
  have c: "length c = K" "chunked ds" using cs(2) dc by auto
  have "off < K" by (simp add: off_def)
  then have n: "0 < n" "off + n \<le> K" "n \<le> length z"
    using z \<open>off < K\<close> by (auto simp: n_def)
  define c' where "c' = take off c @ take n z @ drop (off + n) c"
  define p' where "p' = p\<lparr>jmallocs := ms, pFirst := ds @ [c'], endpoint := \<lparr>iOffset = e + n, pChunk = Some i\<rparr>\<rparr>"
  have len': "length c' = K" using c n by (simp add: c'_def)
  have start: "(if off = 0 then addChunk junk (p\<lparr>jmallocs := ms\<rparr>) else p\<lparr>jmallocs := ms\<rparr>) =
      p\<lparr>jmallocs := ms, pFirst := cs, endpoint := \<lparr>iOffset = e, pChunk = Some i\<rparr>\<rparr>"
  proof (cases "off = 0")
    case True
    then show ?thesis using facts(4) by (cases "pFirst p = []") (simp_all add: addChunk_def cs_def i_def e_def)
  next
    case False
    then have "pFirst p \<noteq> []" using cs(1) by (simp add: cs_def)
    then have "endpoint p = \<lparr>iOffset = e, pChunk = Some i\<rparr>"
      using facts(4) False by (simp add: i_def cs_def e_def)
    then show ?thesis using False by (simp add: cs_def)
  qed
  have copy: "copyToChunk (p\<lparr>jmallocs := ms, pFirst := cs, endpoint := \<lparr>iOffset = e, pChunk = Some i\<rparr>\<rparr>) off (take n z) = Done p'"
    using i n dc by (simp add: copyToChunk_def p'_def c'_def list_update_append min_def)
  have len_ds: "length (concat ds) = K * i" using length_concat_chunked c(2) i(3) by simp
  have "e = K * i + off" using cs(3) by (simp add: i_def)
  moreover have "content p = take e (concat cs)"
    using cs(5) facts(1,2) by (auto simp: content_def e_def length_concat_chunked)
  ultimately have "content p = concat ds @ take off c" using dc len_ds by simp
  moreover have "content p' = concat ds @ take off c @ take n z"
    using \<open>e = K * i + off\<close> len_ds c n by (simp add: content_def p'_def c'_def)
  ultimately have "content p' = content p @ take n z" by simp
  moreover have "journal_inv p' st"
    using inv c len' i n \<open>e = K * i + off\<close> cs(4) dc
    by (auto simp: journal_inv_def p'_def split: option.splits)
  ultimately show ?thesis
    using start copy cs(4) dc by (intro exI [of _ p']) (simp add: p'_def)
qed

text \<open>
  What a write does, byte by byte: a byte that starts a chunk needs an allocation, and when that
  fails the bytes before it stay written.
\<close>

fun append_bytes :: "u8 list \<Rightarrow> u8 list \<Rightarrow> bool list \<Rightarrow> int \<times> u8 list \<times> bool list" where
  "append_bytes c [] ms = (SQLITE_OK, c, ms)"
| "append_bytes c (b # bs) ms =
     (case (if length c mod JOURNAL_CHUNKSIZE = 0 then alloc ms else (True, ms)) of
        (ok, ms) \<Rightarrow> if ok then append_bytes (c @ [b]) bs ms else (SQLITE_IOERR_NOMEM, c, ms))"

lemma append_inside:
  "length c mod K \<noteq> 0 \<Longrightarrow> n \<le> K - length c mod K \<Longrightarrow>
     append_bytes c z ms = append_bytes (c @ take n z) (drop n z) ms"
proof (induction z arbitrary: c n)
  case (Cons b z)
  show ?case
  proof (cases n)
    case (Suc m)
    show ?thesis
    proof (cases "length (c @ [b]) mod K = 0")
      case True
      then have "length c mod K + 1 = K" by (metis length_append_singleton mod_Suc Suc_eq_plus1 nat.distinct(1))
      then have "m = 0" using Cons.prems(2) Suc by simp
      then show ?thesis using Cons.prems(1) Suc by simp
    next
      case False
      then have "length (c @ [b]) mod K = length c mod K + 1" by (simp add: mod_Suc split: if_splits)
      then have "m \<le> K - length (c @ [b]) mod K" using Cons.prems(2) Suc by simp
      then show ?thesis using Cons.IH [OF False] Cons.prems(1) Suc by simp
    qed
  qed simp
qed simp

lemma append_chunk:
  assumes "z \<noteq> []" "n = min (length z) (K - length c mod K)"
    "(if length c mod K = 0 then alloc ms else (True, ms)) = (ok, ms')"
  shows "append_bytes c z ms = (if ok then append_bytes (c @ take n z) (drop n z) ms' else (SQLITE_IOERR_NOMEM, c, ms'))"
proof (cases "length c mod K = 0")
  case False
  have le: "n \<le> K - length c mod K" using assms(2) by simp
  have "ok" "ms' = ms" using False assms(3) by auto
  then show ?thesis using append_inside [OF False le, of z ms] by simp
next
  case True
  obtain b z' where z: "z = b # z'" using assms(1) by (cases z) auto
  obtain m where n: "n = Suc m" "m \<le> K - 1" using assms(2) True z by (cases n) (auto simp: JOURNAL_CHUNKSIZE_def)
  have one: "length (c @ [b]) mod K = 1" using True by (simp add: mod_Suc JOURNAL_CHUNKSIZE_def)
  show ?thesis
    using append_inside [of "c @ [b]" m z' ms'] one n True assms(3) z by simp
qed

lemma append_plenty:
  "False \<notin> set ms \<Longrightarrow> \<exists>ms'. append_bytes c z ms = (SQLITE_OK, c @ z, ms') \<and> False \<notin> set ms'"
proof (induction z arbitrary: c ms)
  case (Cons b z)
  then show ?case using Cons.IH [of ms "c @ [b]"] Cons.IH [of "snd (alloc ms)" "c @ [b]"] alloc_plenty [of ms]
    by (auto split: prod.split)
qed simp

lemma memjrnlWriteLoop_ok:
  assumes "journal_inv p st" "length junk = K"
  shows "\<exists>rc p'. memjrnlWriteLoop junk z p = Done (rc, p') \<and> journal_inv p' st \<and>
    append_bytes (content p) z (jmallocs p) = (rc, content p', jmallocs p')"
  using assms
proof (induction z arbitrary: p rule: length_induct)
  case (1 z)
  show ?case
  proof (cases "z = []")
    case True
    then show ?thesis using 1 by (simp add: memjrnlWriteLoop.simps)
  next
    case False
    define off where "off = iOffset (endpoint p) mod K"
    define n where "n = min (length z) (K - off)"
    have n: "0 < n" "n \<le> length z" using False by (auto simp: n_def off_def)
    have len: "length (content p) mod K = off" using length_content [OF "1.prems"(1)] by (simp add: off_def)
    obtain ok ms where ms: "(if off = 0 then alloc (jmallocs p) else (True, jmallocs p)) = (ok, ms)"
      by fastforce
    have unfold: "memjrnlWriteLoop junk z p =
        (if \<not> ok then Done (SQLITE_IOERR_NOMEM, p\<lparr>jmallocs := ms\<rparr>)
         else exec_bind (copyToChunk (if off = 0 then addChunk junk (p\<lparr>jmallocs := ms\<rparr>) else p\<lparr>jmallocs := ms\<rparr>) off (take n z))
           (memjrnlWriteLoop junk (drop n z)))"
      using False ms by (subst memjrnlWriteLoop.simps) (simp add: Let_def flip: off_def n_def)
    have spec: "append_bytes (content p) z (jmallocs p) =
        (if ok then append_bytes (content p @ take n z) (drop n z) ms else (SQLITE_IOERR_NOMEM, content p, ms))"
      using append_chunk [OF False, of n "content p"] ms len by (simp add: n_def)
    show ?thesis
    proof (cases ok)
      case False
      have "journal_inv (p\<lparr>jmallocs := ms\<rparr>) st" "content (p\<lparr>jmallocs := ms\<rparr>) = content p"
        using "1.prems" by (simp_all add: journal_inv_def content_def split: option.splits)
      then show ?thesis using False unfold spec by simp
    next
      case True
      obtain p1 where p1: "copyToChunk (if off = 0 then addChunk junk (p\<lparr>jmallocs := ms\<rparr>) else p\<lparr>jmallocs := ms\<rparr>) off (take n z) = Done p1"
          "journal_inv p1 st" "content p1 = content p @ take n z" "jmallocs p1 = ms"
        using write_round [OF "1.prems" False, of ms] unfolding off_def n_def by blast
      have "length (drop n z) < length z" using n by simp
      then obtain rc p' where p': "memjrnlWriteLoop junk (drop n z) p1 = Done (rc, p')" "journal_inv p' st"
          "append_bytes (content p1) (drop n z) (jmallocs p1) = (rc, content p', jmallocs p')"
        using "1.IH" p1(2) "1.prems"(2) by metis
      then show ?thesis using True unfold p1 spec by simp
    qed
  qed
qed

lemma memjrnlRead_ok:
  assumes inv: "journal_inv p st" and range: "off + n \<le> length (content p)" "0 < n"
    and fresh: "st \<noteq> Some off \<or> off = 0"
  shows "\<exists>p'. memjrnlRead p n off = Done (SQLITE_OK, take n (drop off (content p)), p') \<and>
    content p' = content p \<and> jmallocs p' = jmallocs p \<and>
    journal_inv p' (if off + n = length (content p) \<and> (off + n) mod K = 0 then Some (off + n) else None)"
proof -
  define cs where "cs = pFirst p"
  have facts: "chunked cs" "iOffset (endpoint p) \<le> K * length cs" "K * length cs < iOffset (endpoint p) + K"
    "length (content p) = iOffset (endpoint p)"
    using inv length_content [OF inv] by (auto simp: journal_inv_def cs_def)
  have lt: "off < K * length cs" using facts range by linarith
  have i: "off div K < length cs" using lt by (simp add: less_mult_imp_div_less mult.commute)
  have chunk: "(if iOffset (readpoint p) \<noteq> off \<or> off = 0 then memjrnlSeek cs 0 0 off else pChunk (readpoint p)) =
      Some (off div K)"
  proof (cases "iOffset (readpoint p) \<noteq> off \<or> off = 0")
    case True
    then show ?thesis using memjrnlSeek_ok [of 0 0 off cs] lt by auto
  next
    case False
    then show ?thesis using inv fresh by (auto simp: journal_inv_def split: option.splits)
  qed
  have split: "K * (off div K) + off mod K = off" by simp
  define e where "e = off + n"
  define q where "q = (if e div K < length cs then Some (e div K) else None)"
  have "off mod K < K" by simp
  moreover have "K * (off div K) + off mod K + n \<le> K * length cs"
    using split facts range by linarith
  ultimately have loop: "memjrnlReadLoop cs (Some (off div K)) (off mod K) (int n) [] =
      Done ([] @ take n (drop (K * (off div K) + off mod K) (concat cs)),
        if (K * (off div K) + off mod K + n) div K < length cs then Some ((K * (off div K) + off mod K + n) div K) else None)"
    by (rule memjrnlReadLoop_ok [OF facts(1) i])
  have data: "take n (drop off (concat cs)) = take n (drop off (content p))"
    using range facts by (simp add: content_def cs_def drop_take min_def)
  define p' where "p' = p\<lparr>readpoint := \<lparr>iOffset = e, pChunk = q\<rparr>\<rparr>"
  have read: "memjrnlRead p n off = Done (SQLITE_OK, take n (drop off (content p)), p')"
    unfolding memjrnlRead_def Let_def cs_def [symmetric] chunk loop
    using data by (simp add: p'_def q_def e_def)
  have same: "content p' = content p" "jmallocs p' = jmallocs p" by (simp_all add: p'_def content_def)
  have "journal_inv p' (if e = length (content p) \<and> e mod K = 0 then Some e else None)"
  proof (cases "e div K < length cs")
    case True
    have "\<not> (e = length (content p) \<and> e mod K = 0)"
    proof
      assume e: "e = length (content p) \<and> e mod K = 0"
      have "e = K * (e div K)" using mult_div_mod_eq [of K e] conjunct2 [OF e] by linarith
      moreover have "K * length cs < e + K" using facts e by simp
      ultimately have "K * length cs < K * (e div K + 1)" by simp
      then have "length cs < e div K + 1" by (simp only: nat_mult_less_cancel_disj)
      then show False using True by simp
    qed
    moreover have "q = Some (e div K)" using True by (simp add: q_def)
    ultimately show ?thesis using inv True by (auto simp: journal_inv_def p'_def cs_def)
  next
    case False
    have "e \<le> K * length cs" using range facts by (simp add: e_def)
    moreover have "K * length cs \<le> e" using False by (metis div_mult_mod_eq le_add1 le_trans linorder_not_less mult.commute mult_le_mono2)
    ultimately have "e = K * length cs" by simp
    then have "e mod K = 0" by simp
    moreover have "e = length (content p)" using facts range \<open>e = K * length cs\<close> by (simp add: e_def)
    moreover have "q = None" using False by (simp add: q_def)
    ultimately show ?thesis using inv by (simp add: journal_inv_def p'_def)
  qed
  then show ?thesis using read same unfolding e_def by blast
qed

text \<open>
  A read of bytes from a stale readpoint dereferences NULL; one of no bytes leaves everything as it
  was, and makes the readpoint stale at the end of a journal of whole chunks.
\<close>

lemma memjrnlRead_stale:
  assumes "journal_inv p (Some off)" "0 < off"
  shows "0 < n \<Longrightarrow> memjrnlRead p n off = Undefined" "memjrnlRead p 0 off = Done (SQLITE_OK, [], p)"
proof -
  have p: "iOffset (readpoint p) = off" "pChunk (readpoint p) = None" using assms(1) by (simp_all add: journal_inv_def)
  then show "0 < n \<Longrightarrow> memjrnlRead p n off = Undefined" using assms(2) by (simp add: memjrnlRead_def)
  have "p\<lparr>readpoint := \<lparr>iOffset = off, pChunk = None\<rparr>\<rparr> = p" using p by simp
  then show "memjrnlRead p 0 off = Done (SQLITE_OK, [], p)" using p assms(2) by (simp add: memjrnlRead_def)
qed

lemma memjrnlRead_nothing:
  assumes inv: "journal_inv p st" and range: "off \<le> length (content p)" and fresh: "st \<noteq> Some off \<or> off = 0"
  shows "\<exists>p'. memjrnlRead p 0 off = Done (SQLITE_OK, [], p') \<and> content p' = content p \<and> jmallocs p' = jmallocs p \<and>
    journal_inv p' (if off = length (content p) \<and> off mod K = 0 then Some off else None)"
proof -
  define cs where "cs = pFirst p"
  have facts: "chunked cs" "iOffset (endpoint p) \<le> K * length cs" "K * length cs < iOffset (endpoint p) + K"
    "length (content p) = iOffset (endpoint p)"
    using inv length_content [OF inv] by (auto simp: journal_inv_def cs_def)
  define q where "q = (if iOffset (readpoint p) \<noteq> off \<or> off = 0 then memjrnlSeek cs 0 0 off else pChunk (readpoint p))"
  have q: "q = (if off < K * length cs then Some (off div K) else None)"
  proof (cases "off < K * length cs")
    case True
    then show ?thesis
      using memjrnlSeek_ok [of 0 0 off cs] inv fresh by (auto simp: q_def journal_inv_def split: option.splits)
  next
    case False
    then have off: "off = K * length cs" using range facts by simp
    then have "\<not> off div K < length cs" by simp
    then have "q = memjrnlSeek cs 0 0 off"
      using inv fresh by (auto simp: q_def journal_inv_def cs_def split: option.splits)
    then show ?thesis using memjrnlSeek_end [of 0 0 cs] off by simp
  qed
  define p' where "p' = p\<lparr>readpoint := \<lparr>iOffset = off, pChunk = q\<rparr>\<rparr>"
  have "memjrnlReadLoop cs q (off mod K) 0 [] = Done ([], q)"
    using mod_less_divisor [OF K_pos, of off]
    by (cases "off < K * length cs") (simp_all add: q less_mult_imp_div_less mult.commute not_le del: mod_less_divisor)
  then have "memjrnlRead p 0 off = Done (SQLITE_OK, [], p')"
    unfolding memjrnlRead_def Let_def cs_def [symmetric] q_def [symmetric] by (simp add: p'_def)
  moreover have "content p' = content p" "jmallocs p' = jmallocs p" by (simp_all add: p'_def content_def)
  moreover have "journal_inv p' (if off = length (content p) \<and> off mod K = 0 then Some off else None)"
  proof (cases "off < K * length cs")
    case True
    have "\<not> (off = length (content p) \<and> off mod K = 0)"
    proof
      assume e: "off = length (content p) \<and> off mod K = 0"
      have "off = K * (off div K)" using mult_div_mod_eq [of K off] conjunct2 [OF e] by linarith
      moreover have "K * length cs < off + K" using facts e by simp
      ultimately have "K * length cs < K * (off div K + 1)" by simp
      then have "length cs < off div K + 1" by (simp only: nat_mult_less_cancel_disj)
      moreover have "off div K < length cs" using True by (simp add: less_mult_imp_div_less mult.commute)
      ultimately show False by simp
    qed
    moreover have "off div K < length cs" using True by (simp add: less_mult_imp_div_less mult.commute)
    ultimately show ?thesis using inv True q by (auto simp: journal_inv_def p'_def cs_def)
  next
    case False
    then have "off = K * length cs" "off = length (content p)" using range facts by simp_all
    then show ?thesis using inv False q by (simp add: journal_inv_def p'_def)
  qed
  ultimately show ?thesis by blast
qed

subsection \<open>The contract of a journal file\<close>

text \<open>
  The specification is the byte sequence written so far, the offset at which the readpoint is stale
  (the last read ended there, at the end of the file and of a chunk), and the outcomes of the coming
  allocations.  A client reads inside the file, as the assertion of \<^verbatim>\<open>memjrnlRead\<close> demands; a read of
  bytes from the stale offset is undefined.  The answers are the result code, the bytes read and the
  size.
\<close>

datatype journal_op = JWrite "u8 list" | JRead nat nat | JTruncate | JSize

fun journal_step ::
  "u8 list \<Rightarrow> journal_op \<Rightarrow> MemJournal \<Rightarrow> ((int \<times> u8 list \<times> nat) \<times> MemJournal) exec"
where
  "journal_step junk (JWrite bs) p =
     exec_bind (memjrnlWrite junk p bs (iOffset (endpoint p))) (\<lambda>(rc, p). Done ((rc, [], 0), p))"
| "journal_step junk (JRead off n) p =
     exec_bind (memjrnlRead p n off) (\<lambda>(rc, bs, p). Done ((rc, bs, 0), p))"
| "journal_step junk JTruncate p = (case memjrnlTruncate p 0 of (rc, p) \<Rightarrow> Done ((rc, [], 0), p))"
| "journal_step junk JSize p = (case memjrnlFileSize p of (rc, n) \<Rightarrow> Done ((rc, [], n), p))"

fun journal_spec ::
  "journal_op \<Rightarrow> u8 list \<times> nat option \<times> bool list \<Rightarrow> ((int \<times> u8 list \<times> nat) \<times> (u8 list \<times> nat option \<times> bool list)) exec"
where
  "journal_spec (JWrite bs) (c, stale, ms) =
     (case append_bytes c bs ms of (rc, c, ms) \<Rightarrow> Done ((rc, [], 0), (c, stale, ms)))"
| "journal_spec (JRead off n) (c, stale, ms) =
     (if stale = Some off \<and> 0 < off
      then if n = 0 then Done ((SQLITE_OK, [], 0), (c, stale, ms)) else Undefined
      else Done ((SQLITE_OK, take n (drop off c), 0),
        (c, if off + n = length c \<and> (off + n) mod JOURNAL_CHUNKSIZE = 0 then Some (off + n) else None, ms)))"
| "journal_spec JTruncate (c, stale, ms) = Done ((SQLITE_OK, [], 0), ([], None, ms))"
| "journal_spec JSize (c, stale, ms) = Done ((SQLITE_OK, [], length c), (c, stale, ms))"

fun inside_file :: "journal_op \<Rightarrow> u8 list \<times> nat option \<times> bool list \<Rightarrow> bool" where
  "inside_file (JRead off n) (c, stale, ms) \<longleftrightarrow> off + n \<le> length c"
| "inside_file _ _ \<longleftrightarrow> True"

definition journal_rel :: "u8 list \<Rightarrow> MemJournal \<Rightarrow> u8 list \<times> nat option \<times> bool list \<Rightarrow> bool" where
  "journal_rel junk p = (\<lambda>(c, stale, ms). length junk = K \<and> journal_inv p stale \<and> content p = c \<and> jmallocs p = ms)"

lemma open_rel: "length junk = K \<Longrightarrow> journal_rel junk (sqlite3MemJournalOpen ms) ([], None, ms)"
  by (simp add: journal_rel_def journal_inv_def content_def sqlite3MemJournalOpen_def)

interpretation journal: outcome_simulation "journal_step junk" journal_spec inside_file "journal_rel junk"
  for junk
proof
  fix p a x
  assume rel: "journal_rel junk p a" and may: "inside_file x a"
  obtain c st ms where a: "a = (c, st, ms)" by (metis prod_cases3)
  have inv: "length junk = K" "journal_inv p st" "content p = c" "jmallocs p = ms"
    using rel a by (simp_all add: journal_rel_def)
  show "same_outcome (journal_rel junk) (journal_step junk x p) (journal_spec x a)"
  proof (cases x)
    case (JWrite bs)
    then show ?thesis
      using memjrnlWriteLoop_ok [OF inv(2,1), of bs] inv a
      by (auto simp: memjrnlWrite_def journal_rel_def)
  next
    case (JRead off n)
    consider "st = Some off" "0 < off" | "st \<noteq> Some off \<or> off = 0" "n = 0" | "st \<noteq> Some off \<or> off = 0" "0 < n" by auto
    then show ?thesis
    proof cases
      case 1
      then show ?thesis using memjrnlRead_stale [of p off] JRead inv a rel by (cases "n = 0") auto
    next
      case 2
      obtain p' where "memjrnlRead p 0 off = Done (SQLITE_OK, [], p')" "content p' = content p" "jmallocs p' = jmallocs p"
          "journal_inv p' (if off = length (content p) \<and> off mod K = 0 then Some off else None)"
        using memjrnlRead_nothing [OF inv(2) _ 2(1)] may JRead a inv(3) by auto
      then show ?thesis using 2 JRead inv a by (auto simp: journal_rel_def cong: if_cong split del: if_split)
    next
      case 3
      obtain p' where "memjrnlRead p n off = Done (SQLITE_OK, take n (drop off (content p)), p')"
          "content p' = content p" "jmallocs p' = jmallocs p"
          "journal_inv p' (if off + n = length (content p) \<and> (off + n) mod K = 0 then Some (off + n) else None)"
        using memjrnlRead_ok [OF inv(2) _ 3(2,1)] inv(3) a may JRead by auto
      then show ?thesis using 3 JRead inv a by (auto simp: journal_rel_def simp del: if_split_asm split del: if_split)
    qed
  next
    case JTruncate
    then show ?thesis using open_rel [of junk "jmallocs p"] inv a by (simp add: memjrnlTruncate_def)
  next
    case JSize
    then show ?thesis
      using length_content [OF inv(2)] inv a rel by (simp add: memjrnlFileSize_def)
  qed
qed

subsection \<open>Properties\<close>

text \<open>
  Property C8.  The in-memory journal is a file.  For any history of appends, truncations, size
  queries and reads inside the file (what the assertion in \<^verbatim>\<open>memjrnlRead\<close> demands), and any outcomes
  of the allocations, the codes, bytes and sizes are those of the byte sequence written so far,
  across chunk borders and with the cached read position.  An append that runs out of memory keeps
  the bytes up to the chunk that could not be allocated and reports \<^verbatim>\<open>SQLITE_IOERR_NOMEM\<close>.  The history is
  undefined exactly when a read of at least one byte resumes where the last read ended at the end of
  the file and of a chunk: the cached NULL is then dereferenced.
\<close>

theorem mem_journal_is_a_file:
  assumes "length junk = JOURNAL_CHUNKSIZE" "exec_allowed inside_file journal_spec ops ([], None, ms)"
  shows "case history journal_spec ops ([], None, ms) of
      Done (answers, c, stale, ms') \<Rightarrow>
        \<exists>p. history (journal_step junk) ops (sqlite3MemJournalOpen ms) = Done (answers, p) \<and> content p = c
    | Undefined \<Rightarrow> history (journal_step junk) ops (sqlite3MemJournalOpen ms) = Undefined"
  using journal.history_outcome [OF open_rel [OF assms(1)] assms(2)]
  by (cases "history journal_spec ops ([], None, ms)") (auto simp: journal_rel_def)

lemma append_1500: "append_bytes [] (replicate 1500 7) [True, False] = (SQLITE_IOERR_NOMEM, replicate 1020 7, [])"
proof -
  have "append_bytes [] (replicate 1500 7) [True, False] = append_bytes (replicate 1020 7) (replicate 480 7) [False]"
    using append_chunk [of "replicate 1500 7" 1020 "[]" "[True, False]" True "[False]"]
    by (simp add: JOURNAL_CHUNKSIZE_def)
  also have "\<dots> = (SQLITE_IOERR_NOMEM, replicate 1020 7, [])"
    using append_chunk [of "replicate 480 7" 480 "replicate 1020 7" "[False]" False "[]"]
    by (simp add: JOURNAL_CHUNKSIZE_def)
  finally show ?thesis .
qed

theorem mem_journal_is_a_file_witness:
  "(\<exists>p. history (journal_step (replicate 1020 0xaa)) [JWrite (replicate 1500 7), JSize, JRead 1018 2, JWrite [1, 2, 3],
        JRead 1020 0, JRead 1019 3] (sqlite3MemJournalOpen [True, False]) =
      Done ([(SQLITE_IOERR_NOMEM, [], 0), (SQLITE_OK, [], 1020), (SQLITE_OK, [7, 7], 0), (SQLITE_OK, [], 0),
        (SQLITE_OK, [], 0), (SQLITE_OK, [7, 1, 2], 0)], p) \<and> content p = replicate 1020 7 @ [1, 2, 3]) \<and>
   history (journal_step (replicate 1020 0xaa)) [JWrite (replicate 1500 7), JSize, JRead 1018 2, JWrite [1, 2, 3],
     JRead 1020 1] (sqlite3MemJournalOpen [True, False]) = Undefined"
proof -
  have "length (replicate 1020 (0xaa :: u8)) = JOURNAL_CHUNKSIZE" by (simp add: JOURNAL_CHUNKSIZE_def)
  note journal_of = mem_journal_is_a_file [OF this]
  have 1: "append_bytes (replicate 1020 7) [1, 2, 3] [] = (SQLITE_OK, replicate 1020 7 @ [1, 2, 3], [])"
    by (simp add: JOURNAL_CHUNKSIZE_def)
  have "replicate 2 7 = [7, 7 :: u8]" by (simp add: eval_nat_numeral)
  moreover have "take 3 [7, 1, 2, 3] = [7, 1, 2 :: u8]" by (simp add: eval_nat_numeral)
  ultimately have 2: "drop 1018 (replicate 1020 7) = [7, 7 :: u8]" "replicate 2 7 = [7, 7 :: u8]"
    "take 3 (drop 1019 (replicate 1020 7 @ [1, 2, 3])) = [7, 1, 2 :: u8]"
    by simp_all
  let ?ops = "[JWrite (replicate 1500 7), JSize, JRead 1018 2, JWrite [1, 2, 3]]"
  have spec: "history journal_spec (?ops @ [JRead 1020 0, JRead 1019 3]) ([], None, [True, False]) =
      Done ([(SQLITE_IOERR_NOMEM, [], 0), (SQLITE_OK, [], 1020), (SQLITE_OK, [7, 7], 0), (SQLITE_OK, [], 0),
        (SQLITE_OK, [], 0), (SQLITE_OK, [7, 1, 2], 0)], (replicate 1020 7 @ [1, 2, 3], None, []))"
    "history journal_spec (?ops @ [JRead 1020 1]) ([], None, [True, False]) = Undefined"
    by (simp_all add: append_1500 1 2 JOURNAL_CHUNKSIZE_def)
  have may: "exec_allowed inside_file journal_spec (?ops @ [JRead 1020 0, JRead 1019 3]) ([], None, [True, False])"
    "exec_allowed inside_file journal_spec (?ops @ [JRead 1020 1]) ([], None, [True, False])"
    by (simp_all add: append_1500 1 2 JOURNAL_CHUNKSIZE_def)
  show ?thesis
    using journal_of [OF may(1)] journal_of [OF may(2)] unfolding spec by (simp del: history.simps)
qed

text \<open>
  Property C37.  The cached read position can go stale: when a read ended at the end of a
  journal of whole chunks, and more bytes are then appended, reading on from that position
  dereferences the NULL the first read left in \<^verbatim>\<open>readpoint.pChunk\<close>.
\<close>

theorem mem_journal_stale_readpoint:
  assumes "length junk = JOURNAL_CHUNKSIZE" "False \<notin> set ms"
    "length z = JOURNAL_CHUNKSIZE * Suc m" "0 < n" "n \<le> length z" "0 < k"
  shows "history (journal_step junk) [JWrite z, JRead (length z - n) n, JWrite extra, JRead (length z) k]
    (sqlite3MemJournalOpen ms) = Undefined"
proof -
  have pos: "0 < length z" "length z mod JOURNAL_CHUNKSIZE = 0" using assms(3) by (simp_all add: JOURNAL_CHUNKSIZE_def)
  obtain ms1 where 1: "append_bytes [] z ms = (SQLITE_OK, z, ms1)" "False \<notin> set ms1"
    using append_plenty [OF assms(2), of "[]" z] by auto
  obtain ms2 where 2: "append_bytes z extra ms1 = (SQLITE_OK, z @ extra, ms2)"
    using append_plenty [OF 1(2), of z extra] by auto
  let ?ops = "[JWrite z, JRead (length z - n) n, JWrite extra]"
  have "exec_allowed inside_file journal_spec ?ops ([], None, ms)"
    "history journal_spec ?ops ([], None, ms) = Done ([(SQLITE_OK, [], 0), (SQLITE_OK, drop (length z - n) z, 0), (SQLITE_OK, [], 0)],
      (z @ extra, Some (length z), ms2))"
    using assms(4,5) pos by (simp_all add: 1(1) 2)
  then obtain p where p: "history (journal_step junk) ?ops (sqlite3MemJournalOpen ms) =
      Done ([(SQLITE_OK, [], 0), (SQLITE_OK, drop (length z - n) z, 0), (SQLITE_OK, [], 0)], p)"
    "journal_inv p (Some (length z))"
    using journal.history_outcome [OF open_rel [OF assms(1), of ms], of ?ops] by (auto simp: journal_rel_def)
  have last: "history (journal_step junk) [JRead (length z) k] p = Undefined"
    using memjrnlRead_stale(1) [OF p(2) pos(1) assms(6)] by simp
  have "[JWrite z, JRead (length z - n) n, JWrite extra, JRead (length z) k] = ?ops @ [JRead (length z) k]" by simp
  then show ?thesis unfolding history_append by (simp only: p(1) last history_append exec_bind.simps prod.case)
qed

theorem mem_journal_stale_readpoint_witness:
  "history (journal_step (replicate 1020 0)) [JWrite (replicate 1020 7), JRead 0 1020, JWrite [1, 2, 3, 4], JRead 1020 4]
    (sqlite3MemJournalOpen []) = Undefined"
  using mem_journal_stale_readpoint [of "replicate 1020 0" "[]" "replicate 1020 7" 0 1020 4 "[1, 2, 3, 4]"]
  by (simp add: JOURNAL_CHUNKSIZE_def del: history.simps)

end
