(* ===== verification/Keywords.thy ===== *)
theory Keywords
  imports Ctype
begin

text \<open>
  The token codes of \<^verbatim>\<open>parse.h\<close> and the keyword recognizer of \<^verbatim>\<open>keywordhash.h\<close> (both in
  \<^verbatim>\<open>sqlite/3.8.11/sqlite3.c\<close>): a perfect-hash style table over one overlapping text of all keywords.

  The codes have the source's names and values; they are in the collection \<open>token_codes\<close>.
\<close>

subsection \<open>Token codes\<close>

named_theorems token_codes \<open>values of the token codes\<close>

definition TK_SEMI :: nat where [token_codes]: "TK_SEMI = 1"
definition TK_EXPLAIN :: nat where [token_codes]: "TK_EXPLAIN = 2"
definition TK_QUERY :: nat where [token_codes]: "TK_QUERY = 3"
definition TK_PLAN :: nat where [token_codes]: "TK_PLAN = 4"
definition TK_BEGIN :: nat where [token_codes]: "TK_BEGIN = 5"
definition TK_TRANSACTION :: nat where [token_codes]: "TK_TRANSACTION = 6"
definition TK_DEFERRED :: nat where [token_codes]: "TK_DEFERRED = 7"
definition TK_IMMEDIATE :: nat where [token_codes]: "TK_IMMEDIATE = 8"
definition TK_EXCLUSIVE :: nat where [token_codes]: "TK_EXCLUSIVE = 9"
definition TK_COMMIT :: nat where [token_codes]: "TK_COMMIT = 10"
definition TK_END :: nat where [token_codes]: "TK_END = 11"
definition TK_ROLLBACK :: nat where [token_codes]: "TK_ROLLBACK = 12"
definition TK_SAVEPOINT :: nat where [token_codes]: "TK_SAVEPOINT = 13"
definition TK_RELEASE :: nat where [token_codes]: "TK_RELEASE = 14"
definition TK_TO :: nat where [token_codes]: "TK_TO = 15"
definition TK_TABLE :: nat where [token_codes]: "TK_TABLE = 16"
definition TK_CREATE :: nat where [token_codes]: "TK_CREATE = 17"
definition TK_IF :: nat where [token_codes]: "TK_IF = 18"
definition TK_NOT :: nat where [token_codes]: "TK_NOT = 19"
definition TK_EXISTS :: nat where [token_codes]: "TK_EXISTS = 20"
definition TK_TEMP :: nat where [token_codes]: "TK_TEMP = 21"
definition TK_LP :: nat where [token_codes]: "TK_LP = 22"
definition TK_RP :: nat where [token_codes]: "TK_RP = 23"
definition TK_AS :: nat where [token_codes]: "TK_AS = 24"
definition TK_WITHOUT :: nat where [token_codes]: "TK_WITHOUT = 25"
definition TK_COMMA :: nat where [token_codes]: "TK_COMMA = 26"
definition TK_ID :: nat where [token_codes]: "TK_ID = 27"
definition TK_INDEXED :: nat where [token_codes]: "TK_INDEXED = 28"
definition TK_ABORT :: nat where [token_codes]: "TK_ABORT = 29"
definition TK_ACTION :: nat where [token_codes]: "TK_ACTION = 30"
definition TK_AFTER :: nat where [token_codes]: "TK_AFTER = 31"
definition TK_ANALYZE :: nat where [token_codes]: "TK_ANALYZE = 32"
definition TK_ASC :: nat where [token_codes]: "TK_ASC = 33"
definition TK_ATTACH :: nat where [token_codes]: "TK_ATTACH = 34"
definition TK_BEFORE :: nat where [token_codes]: "TK_BEFORE = 35"
definition TK_BY :: nat where [token_codes]: "TK_BY = 36"
definition TK_CASCADE :: nat where [token_codes]: "TK_CASCADE = 37"
definition TK_CAST :: nat where [token_codes]: "TK_CAST = 38"
definition TK_COLUMNKW :: nat where [token_codes]: "TK_COLUMNKW = 39"
definition TK_CONFLICT :: nat where [token_codes]: "TK_CONFLICT = 40"
definition TK_DATABASE :: nat where [token_codes]: "TK_DATABASE = 41"
definition TK_DESC :: nat where [token_codes]: "TK_DESC = 42"
definition TK_DETACH :: nat where [token_codes]: "TK_DETACH = 43"
definition TK_EACH :: nat where [token_codes]: "TK_EACH = 44"
definition TK_FAIL :: nat where [token_codes]: "TK_FAIL = 45"
definition TK_FOR :: nat where [token_codes]: "TK_FOR = 46"
definition TK_IGNORE :: nat where [token_codes]: "TK_IGNORE = 47"
definition TK_INITIALLY :: nat where [token_codes]: "TK_INITIALLY = 48"
definition TK_INSTEAD :: nat where [token_codes]: "TK_INSTEAD = 49"
definition TK_LIKE_KW :: nat where [token_codes]: "TK_LIKE_KW = 50"
definition TK_MATCH :: nat where [token_codes]: "TK_MATCH = 51"
definition TK_NO :: nat where [token_codes]: "TK_NO = 52"
definition TK_KEY :: nat where [token_codes]: "TK_KEY = 53"
definition TK_OF :: nat where [token_codes]: "TK_OF = 54"
definition TK_OFFSET :: nat where [token_codes]: "TK_OFFSET = 55"
definition TK_PRAGMA :: nat where [token_codes]: "TK_PRAGMA = 56"
definition TK_RAISE :: nat where [token_codes]: "TK_RAISE = 57"
definition TK_RECURSIVE :: nat where [token_codes]: "TK_RECURSIVE = 58"
definition TK_REPLACE :: nat where [token_codes]: "TK_REPLACE = 59"
definition TK_RESTRICT :: nat where [token_codes]: "TK_RESTRICT = 60"
definition TK_ROW :: nat where [token_codes]: "TK_ROW = 61"
definition TK_TRIGGER :: nat where [token_codes]: "TK_TRIGGER = 62"
definition TK_VACUUM :: nat where [token_codes]: "TK_VACUUM = 63"
definition TK_VIEW :: nat where [token_codes]: "TK_VIEW = 64"
definition TK_VIRTUAL :: nat where [token_codes]: "TK_VIRTUAL = 65"
definition TK_WITH :: nat where [token_codes]: "TK_WITH = 66"
definition TK_REINDEX :: nat where [token_codes]: "TK_REINDEX = 67"
definition TK_RENAME :: nat where [token_codes]: "TK_RENAME = 68"
definition TK_CTIME_KW :: nat where [token_codes]: "TK_CTIME_KW = 69"
definition TK_ANY :: nat where [token_codes]: "TK_ANY = 70"
definition TK_OR :: nat where [token_codes]: "TK_OR = 71"
definition TK_AND :: nat where [token_codes]: "TK_AND = 72"
definition TK_IS :: nat where [token_codes]: "TK_IS = 73"
definition TK_BETWEEN :: nat where [token_codes]: "TK_BETWEEN = 74"
definition TK_IN :: nat where [token_codes]: "TK_IN = 75"
definition TK_ISNULL :: nat where [token_codes]: "TK_ISNULL = 76"
definition TK_NOTNULL :: nat where [token_codes]: "TK_NOTNULL = 77"
definition TK_NE :: nat where [token_codes]: "TK_NE = 78"
definition TK_EQ :: nat where [token_codes]: "TK_EQ = 79"
definition TK_GT :: nat where [token_codes]: "TK_GT = 80"
definition TK_LE :: nat where [token_codes]: "TK_LE = 81"
definition TK_LT :: nat where [token_codes]: "TK_LT = 82"
definition TK_GE :: nat where [token_codes]: "TK_GE = 83"
definition TK_ESCAPE :: nat where [token_codes]: "TK_ESCAPE = 84"
definition TK_BITAND :: nat where [token_codes]: "TK_BITAND = 85"
definition TK_BITOR :: nat where [token_codes]: "TK_BITOR = 86"
definition TK_LSHIFT :: nat where [token_codes]: "TK_LSHIFT = 87"
definition TK_RSHIFT :: nat where [token_codes]: "TK_RSHIFT = 88"
definition TK_PLUS :: nat where [token_codes]: "TK_PLUS = 89"
definition TK_MINUS :: nat where [token_codes]: "TK_MINUS = 90"
definition TK_STAR :: nat where [token_codes]: "TK_STAR = 91"
definition TK_SLASH :: nat where [token_codes]: "TK_SLASH = 92"
definition TK_REM :: nat where [token_codes]: "TK_REM = 93"
definition TK_CONCAT :: nat where [token_codes]: "TK_CONCAT = 94"
definition TK_COLLATE :: nat where [token_codes]: "TK_COLLATE = 95"
definition TK_BITNOT :: nat where [token_codes]: "TK_BITNOT = 96"
definition TK_STRING :: nat where [token_codes]: "TK_STRING = 97"
definition TK_JOIN_KW :: nat where [token_codes]: "TK_JOIN_KW = 98"
definition TK_CONSTRAINT :: nat where [token_codes]: "TK_CONSTRAINT = 99"
definition TK_DEFAULT :: nat where [token_codes]: "TK_DEFAULT = 100"
definition TK_NULL :: nat where [token_codes]: "TK_NULL = 101"
definition TK_PRIMARY :: nat where [token_codes]: "TK_PRIMARY = 102"
definition TK_UNIQUE :: nat where [token_codes]: "TK_UNIQUE = 103"
definition TK_CHECK :: nat where [token_codes]: "TK_CHECK = 104"
definition TK_REFERENCES :: nat where [token_codes]: "TK_REFERENCES = 105"
definition TK_AUTOINCR :: nat where [token_codes]: "TK_AUTOINCR = 106"
definition TK_ON :: nat where [token_codes]: "TK_ON = 107"
definition TK_INSERT :: nat where [token_codes]: "TK_INSERT = 108"
definition TK_DELETE :: nat where [token_codes]: "TK_DELETE = 109"
definition TK_UPDATE :: nat where [token_codes]: "TK_UPDATE = 110"
definition TK_SET :: nat where [token_codes]: "TK_SET = 111"
definition TK_DEFERRABLE :: nat where [token_codes]: "TK_DEFERRABLE = 112"
definition TK_FOREIGN :: nat where [token_codes]: "TK_FOREIGN = 113"
definition TK_DROP :: nat where [token_codes]: "TK_DROP = 114"
definition TK_UNION :: nat where [token_codes]: "TK_UNION = 115"
definition TK_ALL :: nat where [token_codes]: "TK_ALL = 116"
definition TK_EXCEPT :: nat where [token_codes]: "TK_EXCEPT = 117"
definition TK_INTERSECT :: nat where [token_codes]: "TK_INTERSECT = 118"
definition TK_SELECT :: nat where [token_codes]: "TK_SELECT = 119"
definition TK_VALUES :: nat where [token_codes]: "TK_VALUES = 120"
definition TK_DISTINCT :: nat where [token_codes]: "TK_DISTINCT = 121"
definition TK_DOT :: nat where [token_codes]: "TK_DOT = 122"
definition TK_FROM :: nat where [token_codes]: "TK_FROM = 123"
definition TK_JOIN :: nat where [token_codes]: "TK_JOIN = 124"
definition TK_USING :: nat where [token_codes]: "TK_USING = 125"
definition TK_ORDER :: nat where [token_codes]: "TK_ORDER = 126"
definition TK_GROUP :: nat where [token_codes]: "TK_GROUP = 127"
definition TK_HAVING :: nat where [token_codes]: "TK_HAVING = 128"
definition TK_LIMIT :: nat where [token_codes]: "TK_LIMIT = 129"
definition TK_WHERE :: nat where [token_codes]: "TK_WHERE = 130"
definition TK_INTO :: nat where [token_codes]: "TK_INTO = 131"
definition TK_INTEGER :: nat where [token_codes]: "TK_INTEGER = 132"
definition TK_FLOAT :: nat where [token_codes]: "TK_FLOAT = 133"
definition TK_BLOB :: nat where [token_codes]: "TK_BLOB = 134"
definition TK_VARIABLE :: nat where [token_codes]: "TK_VARIABLE = 135"
definition TK_CASE :: nat where [token_codes]: "TK_CASE = 136"
definition TK_WHEN :: nat where [token_codes]: "TK_WHEN = 137"
definition TK_THEN :: nat where [token_codes]: "TK_THEN = 138"
definition TK_ELSE :: nat where [token_codes]: "TK_ELSE = 139"
definition TK_INDEX :: nat where [token_codes]: "TK_INDEX = 140"
definition TK_ALTER :: nat where [token_codes]: "TK_ALTER = 141"
definition TK_ADD :: nat where [token_codes]: "TK_ADD = 142"
definition TK_TO_TEXT :: nat where [token_codes]: "TK_TO_TEXT = 143"
definition TK_TO_BLOB :: nat where [token_codes]: "TK_TO_BLOB = 144"
definition TK_TO_NUMERIC :: nat where [token_codes]: "TK_TO_NUMERIC = 145"
definition TK_TO_INT :: nat where [token_codes]: "TK_TO_INT = 146"
definition TK_TO_REAL :: nat where [token_codes]: "TK_TO_REAL = 147"
definition TK_ISNOT :: nat where [token_codes]: "TK_ISNOT = 148"
definition TK_END_OF_FILE :: nat where [token_codes]: "TK_END_OF_FILE = 149"
definition TK_ILLEGAL :: nat where [token_codes]: "TK_ILLEGAL = 150"
definition TK_SPACE :: nat where [token_codes]: "TK_SPACE = 151"
definition TK_UNCLOSED_STRING :: nat where [token_codes]: "TK_UNCLOSED_STRING = 152"
definition TK_FUNCTION :: nat where [token_codes]: "TK_FUNCTION = 153"
definition TK_COLUMN :: nat where [token_codes]: "TK_COLUMN = 154"
definition TK_AGG_FUNCTION :: nat where [token_codes]: "TK_AGG_FUNCTION = 155"
definition TK_AGG_COLUMN :: nat where [token_codes]: "TK_AGG_COLUMN = 156"
definition TK_UMINUS :: nat where [token_codes]: "TK_UMINUS = 157"
definition TK_UPLUS :: nat where [token_codes]: "TK_UPLUS = 158"
definition TK_REGISTER :: nat where [token_codes]: "TK_REGISTER = 159"

subsection \<open>The tables\<close>

definition zText :: string where
  "zText =
    ''REINDEXEDESCAPEACHECKEYBEFOREIGNOREGEXPLAINSTEADDATABASELECT'' @
    ''ABLEFTHENDEFERRABLELSEXCEPTRANSACTIONATURALTERAISEXCLUSIVEXI'' @
    ''STSAVEPOINTERSECTRIGGEREFERENCESCONSTRAINTOFFSETEMPORARYUNIQ'' @
    ''UERYWITHOUTERELEASEATTACHAVINGROUPDATEBEGINNERECURSIVEBETWEE'' @
    ''NOTNULLIKECASCADELETECASECOLLATECREATECURRENT_DATEDETACHIMME'' @
    ''DIATEJOINSERTMATCHPLANALYZEPRAGMABORTVALUESVIRTUALIMITWHENWH'' @
    ''ERENAMEAFTEREPLACEANDEFAULTAUTOINCREMENTCASTCOLUMNCOMMITCONF'' @
    ''LICTCROSSCURRENT_TIMESTAMPRIMARYDEFERREDISTINCTDROPFAILFROMF'' @
    ''ULLGLOBYIFISNULLORDERESTRICTRIGHTROLLBACKROWUNIONUSINGVACUUM'' @
    ''VIEWINITIALLY''"

definition aHash :: "nat list" where
  "aHash = [
   76, 105, 117, 74, 0, 45, 0, 0, 82, 0, 77, 0, 0, 42, 12, 78, 15, 0, 116, 85, 54, 112, 0, 19,
   0, 0, 121, 0, 119, 115, 0, 22, 93, 0, 9, 0, 0, 70, 71, 0, 69, 6, 0, 48, 90, 102, 0, 118,
   101, 0, 0, 44, 0, 103, 24, 0, 17, 0, 122, 53, 23, 0, 5, 110, 25, 96, 0, 0, 124, 106, 60,
   123, 57, 28, 55, 0, 91, 0, 100, 26, 0, 99, 0, 0, 0, 95, 92, 97, 88, 109, 14, 39, 108, 0, 81,
   0, 18, 89, 111, 32, 0, 120, 80, 113, 62, 46, 84, 0, 0, 94, 40, 59, 114, 0, 36, 0, 0, 29, 0,
   86, 63, 64, 0, 20, 61, 0, 56]"

definition aNext :: "nat list" where
  "aNext = [
   0, 0, 0, 0, 4, 0, 0, 0, 0, 0, 0, 0, 0, 0, 2, 0, 0, 0, 0, 0, 0, 13, 0, 0, 0, 0, 0, 7, 0, 0,
   0, 0, 0, 0, 0, 0, 0, 0, 0, 0, 0, 0, 0, 33, 0, 21, 0, 0, 0, 0, 0, 50, 0, 43, 3, 47, 0, 0, 0,
   0, 30, 0, 58, 0, 38, 0, 0, 0, 1, 66, 0, 0, 67, 0, 41, 0, 0, 0, 0, 0, 0, 49, 65, 0, 0, 0, 0,
   31, 52, 16, 34, 10, 0, 0, 0, 0, 0, 0, 0, 11, 72, 79, 0, 8, 0, 104, 98, 0, 107, 0, 87, 0, 75,
   51, 0, 27, 37, 73, 83, 0, 35, 68, 0, 0]"

definition aLen :: "nat list" where
  "aLen = [
   7, 7, 5, 4, 6, 4, 5, 3, 6, 7, 3, 6, 6, 7, 7, 3, 8, 2, 6, 5, 4, 4, 3, 10, 4, 6, 11, 6, 2, 7,
   5, 5, 9, 6, 9, 9, 7, 10, 10, 4, 6, 2, 3, 9, 4, 2, 6, 5, 7, 4, 5, 7, 6, 6, 5, 6, 5, 5, 9, 7,
   7, 3, 2, 4, 4, 7, 3, 6, 4, 7, 6, 12, 6, 9, 4, 6, 5, 4, 7, 6, 5, 6, 7, 5, 4, 5, 6, 5, 7, 3,
   7, 13, 2, 2, 4, 6, 6, 8, 5, 17, 12, 7, 8, 8, 2, 4, 4, 4, 4, 4, 2, 2, 6, 5, 8, 5, 8, 3, 5, 5,
   6, 4, 9, 3]"

definition aOffset :: "nat list" where
  "aOffset = [
   0, 2, 2, 8, 9, 14, 16, 20, 23, 25, 25, 29, 33, 36, 41, 46, 48, 53, 54, 59, 62, 65, 67, 69,
   78, 81, 86, 91, 95, 96, 101, 105, 109, 117, 122, 128, 136, 142, 152, 159, 162, 162, 165,
   167, 167, 171, 176, 179, 184, 184, 188, 192, 199, 204, 209, 212, 218, 221, 225, 234, 240,
   240, 240, 243, 246, 250, 251, 255, 261, 265, 272, 278, 290, 296, 305, 307, 313, 318, 320,
   327, 332, 337, 343, 349, 354, 358, 361, 367, 371, 378, 380, 387, 389, 391, 400, 404, 410,
   416, 424, 429, 429, 445, 452, 459, 460, 467, 471, 475, 479, 483, 486, 488, 490, 496, 500,
   508, 513, 521, 524, 529, 534, 540, 544, 549]"

definition aCode :: "nat list" where
  "aCode = [
   TK_REINDEX, TK_INDEXED, TK_INDEX, TK_DESC, TK_ESCAPE, TK_EACH, TK_CHECK, TK_KEY, TK_BEFORE,
   TK_FOREIGN, TK_FOR, TK_IGNORE, TK_LIKE_KW, TK_EXPLAIN, TK_INSTEAD, TK_ADD, TK_DATABASE,
   TK_AS, TK_SELECT, TK_TABLE, TK_JOIN_KW, TK_THEN, TK_END, TK_DEFERRABLE, TK_ELSE, TK_EXCEPT,
   TK_TRANSACTION, TK_ACTION, TK_ON, TK_JOIN_KW, TK_ALTER, TK_RAISE, TK_EXCLUSIVE, TK_EXISTS,
   TK_SAVEPOINT, TK_INTERSECT, TK_TRIGGER, TK_REFERENCES, TK_CONSTRAINT, TK_INTO, TK_OFFSET,
   TK_OF, TK_SET, TK_TEMP, TK_TEMP, TK_OR, TK_UNIQUE, TK_QUERY, TK_WITHOUT, TK_WITH,
   TK_JOIN_KW, TK_RELEASE, TK_ATTACH, TK_HAVING, TK_GROUP, TK_UPDATE, TK_BEGIN, TK_JOIN_KW,
   TK_RECURSIVE, TK_BETWEEN, TK_NOTNULL, TK_NOT, TK_NO, TK_NULL, TK_LIKE_KW, TK_CASCADE,
   TK_ASC, TK_DELETE, TK_CASE, TK_COLLATE, TK_CREATE, TK_CTIME_KW, TK_DETACH, TK_IMMEDIATE,
   TK_JOIN, TK_INSERT, TK_MATCH, TK_PLAN, TK_ANALYZE, TK_PRAGMA, TK_ABORT, TK_VALUES,
   TK_VIRTUAL, TK_LIMIT, TK_WHEN, TK_WHERE, TK_RENAME, TK_AFTER, TK_REPLACE, TK_AND,
   TK_DEFAULT, TK_AUTOINCR, TK_TO, TK_IN, TK_CAST, TK_COLUMNKW, TK_COMMIT, TK_CONFLICT,
   TK_JOIN_KW, TK_CTIME_KW, TK_CTIME_KW, TK_PRIMARY, TK_DEFERRED, TK_DISTINCT, TK_IS, TK_DROP,
   TK_FAIL, TK_FROM, TK_JOIN_KW, TK_LIKE_KW, TK_BY, TK_IF, TK_ISNULL, TK_ORDER, TK_RESTRICT,
   TK_JOIN_KW, TK_ROLLBACK, TK_ROW, TK_UNION, TK_USING, TK_VACUUM, TK_VIEW, TK_INITIALLY, TK_ALL]"
subsection \<open>The recognizer\<close>

text \<open>
  \<^verbatim>\<open>z\<close> is the text from the identifier on and \<^verbatim>\<open>n\<close> the length of the identifier.  The loop index is
  the table entry, that is \<^verbatim>\<open>i + 1\<close>, so 0 ends it; an entry behind the tables would be undefined.
\<close>

function keywordLoop :: "string \<Rightarrow> nat \<Rightarrow> nat \<Rightarrow> nat exec" where
  "keywordLoop z n 0 = Done TK_ID"
| "keywordLoop z n (Suc i) =
     (if length aNext \<le> i \<or> i < aNext ! i then Undefined
      else if aLen ! i = n \<and> sqlite3_strnicmp (Some (drop (aOffset ! i) zText)) (Some z) (int n) = 0
      then Done (aCode ! i)
      else keywordLoop z n (aNext ! i))"
  by pat_completeness auto

termination
  by (relation "measure (\<lambda>(z, n, i). i)") auto

definition charMap :: "char \<Rightarrow> nat" where
  "charMap c = sqlite3UpperToLower ! code c"

definition keywordHash :: "string \<Rightarrow> nat \<Rightarrow> nat" where
  "keywordHash z n = (((charMap (z ! 0) * 4) XOR (charMap (z ! (n - 1)) * 3)) XOR n) mod 127"

definition keywordCode :: "string \<Rightarrow> nat \<Rightarrow> nat exec" where
  "keywordCode z n = (if n < 2 then Done TK_ID else keywordLoop z n (aHash ! keywordHash z n))"

definition sql_keywords :: "(string \<times> nat) list" where
  "sql_keywords = [
   (''REINDEX'', TK_REINDEX), (''INDEXED'', TK_INDEXED), (''INDEX'', TK_INDEX),
   (''DESC'', TK_DESC), (''ESCAPE'', TK_ESCAPE), (''EACH'', TK_EACH), (''CHECK'', TK_CHECK),
   (''KEY'', TK_KEY), (''BEFORE'', TK_BEFORE), (''FOREIGN'', TK_FOREIGN), (''FOR'', TK_FOR),
   (''IGNORE'', TK_IGNORE), (''REGEXP'', TK_LIKE_KW), (''EXPLAIN'', TK_EXPLAIN),
   (''INSTEAD'', TK_INSTEAD), (''ADD'', TK_ADD), (''DATABASE'', TK_DATABASE), (''AS'', TK_AS),
   (''SELECT'', TK_SELECT), (''TABLE'', TK_TABLE), (''LEFT'', TK_JOIN_KW), (''THEN'', TK_THEN),
   (''END'', TK_END), (''DEFERRABLE'', TK_DEFERRABLE), (''ELSE'', TK_ELSE),
   (''EXCEPT'', TK_EXCEPT), (''TRANSACTION'', TK_TRANSACTION), (''ACTION'', TK_ACTION),
   (''ON'', TK_ON), (''NATURAL'', TK_JOIN_KW), (''ALTER'', TK_ALTER), (''RAISE'', TK_RAISE),
   (''EXCLUSIVE'', TK_EXCLUSIVE), (''EXISTS'', TK_EXISTS), (''SAVEPOINT'', TK_SAVEPOINT),
   (''INTERSECT'', TK_INTERSECT), (''TRIGGER'', TK_TRIGGER), (''REFERENCES'', TK_REFERENCES),
   (''CONSTRAINT'', TK_CONSTRAINT), (''INTO'', TK_INTO), (''OFFSET'', TK_OFFSET),
   (''OF'', TK_OF), (''SET'', TK_SET), (''TEMPORARY'', TK_TEMP), (''TEMP'', TK_TEMP),
   (''OR'', TK_OR), (''UNIQUE'', TK_UNIQUE), (''QUERY'', TK_QUERY), (''WITHOUT'', TK_WITHOUT),
   (''WITH'', TK_WITH), (''OUTER'', TK_JOIN_KW), (''RELEASE'', TK_RELEASE),
   (''ATTACH'', TK_ATTACH), (''HAVING'', TK_HAVING), (''GROUP'', TK_GROUP),
   (''UPDATE'', TK_UPDATE), (''BEGIN'', TK_BEGIN), (''INNER'', TK_JOIN_KW),
   (''RECURSIVE'', TK_RECURSIVE), (''BETWEEN'', TK_BETWEEN), (''NOTNULL'', TK_NOTNULL),
   (''NOT'', TK_NOT), (''NO'', TK_NO), (''NULL'', TK_NULL), (''LIKE'', TK_LIKE_KW),
   (''CASCADE'', TK_CASCADE), (''ASC'', TK_ASC), (''DELETE'', TK_DELETE), (''CASE'', TK_CASE),
   (''COLLATE'', TK_COLLATE), (''CREATE'', TK_CREATE), (''CURRENT_DATE'', TK_CTIME_KW),
   (''DETACH'', TK_DETACH), (''IMMEDIATE'', TK_IMMEDIATE), (''JOIN'', TK_JOIN),
   (''INSERT'', TK_INSERT), (''MATCH'', TK_MATCH), (''PLAN'', TK_PLAN),
   (''ANALYZE'', TK_ANALYZE), (''PRAGMA'', TK_PRAGMA), (''ABORT'', TK_ABORT),
   (''VALUES'', TK_VALUES), (''VIRTUAL'', TK_VIRTUAL), (''LIMIT'', TK_LIMIT),
   (''WHEN'', TK_WHEN), (''WHERE'', TK_WHERE), (''RENAME'', TK_RENAME), (''AFTER'', TK_AFTER),
   (''REPLACE'', TK_REPLACE), (''AND'', TK_AND), (''DEFAULT'', TK_DEFAULT),
   (''AUTOINCREMENT'', TK_AUTOINCR), (''TO'', TK_TO), (''IN'', TK_IN), (''CAST'', TK_CAST),
   (''COLUMN'', TK_COLUMNKW), (''COMMIT'', TK_COMMIT), (''CONFLICT'', TK_CONFLICT),
   (''CROSS'', TK_JOIN_KW), (''CURRENT_TIMESTAMP'', TK_CTIME_KW),
   (''CURRENT_TIME'', TK_CTIME_KW), (''PRIMARY'', TK_PRIMARY), (''DEFERRED'', TK_DEFERRED),
   (''DISTINCT'', TK_DISTINCT), (''IS'', TK_IS), (''DROP'', TK_DROP), (''FAIL'', TK_FAIL),
   (''FROM'', TK_FROM), (''FULL'', TK_JOIN_KW), (''GLOB'', TK_LIKE_KW), (''BY'', TK_BY),
   (''IF'', TK_IF), (''ISNULL'', TK_ISNULL), (''ORDER'', TK_ORDER),
   (''RESTRICT'', TK_RESTRICT), (''RIGHT'', TK_JOIN_KW), (''ROLLBACK'', TK_ROLLBACK),
   (''ROW'', TK_ROW), (''UNION'', TK_UNION), (''USING'', TK_USING), (''VACUUM'', TK_VACUUM),
   (''VIEW'', TK_VIEW), (''INITIALLY'', TK_INITIALLY), (''ALL'', TK_ALL)]"

subsection \<open>The tables are right\<close>

lemma charMap_tolower: "charMap c = sqlite3Tolower c"
  by (simp add: charMap_def sqlite3Tolower_def)

lemma charMap_code: "charMap c = (if 65 \<le> code c \<and> code c \<le> 90 then code c + 32 else code c)"
  by (simp add: charMap_tolower tolower_code)

definition keyword_text :: "nat \<Rightarrow> string" where
  "keyword_text i = take (aLen ! i) (drop (aOffset ! i) zText)"

text \<open>The text is cut from left to right, each piece starting not before the last one.\<close>

fun slices :: "nat \<Rightarrow> string \<Rightarrow> nat list \<Rightarrow> nat list \<Rightarrow> string list" where
  "slices p t (b # bs) (n # ns) = take n (drop (b - p) t) # slices b (drop (b - p) t) bs ns"
| "slices p t _ _ = []"

lemma slices_nth:
  "sorted (p # bs) \<Longrightarrow> i < length bs \<Longrightarrow> i < length ns \<Longrightarrow>
     slices p (drop p t) bs ns ! i = take (ns ! i) (drop (bs ! i) t)"
proof (induction bs arbitrary: p ns i)
  case (Cons b bs)
  obtain n ns' where ns: "ns = n # ns'" using Cons.prems by (cases ns) auto
  have drop: "drop (b - p) (drop p t) = drop b t" using Cons.prems by simp
  show ?case
  proof (cases i)
    case 0
    then show ?thesis using ns drop by simp
  next
    case (Suc j)
    then show ?thesis using Cons ns drop by simp
  qed
qed simp

lemma table_lengths_keywords:
  "length aHash = 127" "length aNext = 124" "length aLen = 124" "length aOffset = 124" "length aCode = 124"
  "length sql_keywords = 124" "length zText = 553"
  by (simp_all add: aHash_def aNext_def aLen_def aOffset_def aCode_def sql_keywords_def zText_def)

lemma keyword_slices: "slices 0 zText aOffset aLen = map fst sql_keywords"
  by (simp add: zText_def sql_keywords_def aOffset_def aLen_def)

lemma aOffset_sorted: "sorted aOffset"
  by (simp only: aOffset_def sorted2_simps) simp

lemma keyword_text_eq: "i < 124 \<Longrightarrow> keyword_text i = fst (sql_keywords ! i)"
  using slices_nth [of 0 aOffset i aLen zText] aOffset_sorted keyword_slices
  by (simp add: keyword_text_def table_lengths_keywords)

lemma aCode_eq: "aCode = map snd sql_keywords"
  by (simp add: aCode_def sql_keywords_def)

lemma keyword_lengths: "map (length \<circ> fst) sql_keywords = aLen"
  by (simp add: aLen_def sql_keywords_def)

lemma keyword_shape:
  "list_all (\<lambda>(k, c). 2 \<le> length k \<and> NUL \<notin> set k) sql_keywords"
  by (simp add: sql_keywords_def NUL_def)

lemma folded_code: "folded z = map (\<lambda>c. if 65 \<le> code c \<and> code c \<le> 90 then code c + 32 else code c) z"
  by (simp add: folded_def tolower_code)

lemma zText_no_NUL: "NUL \<notin> set zText"
  by (simp add: zText_def NUL_def)

text \<open>
  The keyword with entry \<^verbatim>\<open>k\<close> is the first of its chain that matches: checked for every keyword.
\<close>

function first_on_chain :: "nat \<Rightarrow> string \<Rightarrow> nat \<Rightarrow> nat \<Rightarrow> bool" where
  "first_on_chain k z n s = (if s = 0 then False else if k = s then True
     else if aLen ! (s - 1) = n \<and> folded (fst (sql_keywords ! (s - 1))) = folded z then False
     else if aNext ! (s - 1) < s then first_on_chain k z n (aNext ! (s - 1)) else False)"
  by pat_completeness auto

termination
  by (relation "measure (\<lambda>(k, z, n, s). s)") auto

declare first_on_chain.simps [simp del]

fun keywords_chained :: "nat \<Rightarrow> string list \<Rightarrow> nat list \<Rightarrow> bool" where
  "keywords_chained k (z # zs) (n # ns) \<longleftrightarrow>
     first_on_chain k z n (aHash ! keywordHash z n) \<and> keywords_chained (k + 1) zs ns"
| "keywords_chained k _ _ \<longleftrightarrow> True"

lemma keywords_chained_all: "keywords_chained 1 (map fst sql_keywords) aLen"
  by (simp add: keywordHash_def charMap_code aHash_def first_on_chain.simps aNext_def sql_keywords_def
      aLen_def folded_code)

lemma keywords_chained_nth:
  "keywords_chained k zs ns \<Longrightarrow> i < length zs \<Longrightarrow> i < length ns \<Longrightarrow>
     first_on_chain (k + i) (zs ! i) (ns ! i) (aHash ! keywordHash (zs ! i) (ns ! i))"
proof (induction k zs ns arbitrary: i rule: keywords_chained.induct)
  case (1 k z zs n ns)
  then show ?case by (cases i) auto
qed auto

lemma aNext_le: "i < 124 \<Longrightarrow> aNext ! i \<le> i"
  using table_check_nth [of "\<lambda>i a. a \<le> i" 0 aNext i] by (simp add: aNext_def)

lemma aHash_le: "h < 127 \<Longrightarrow> aHash ! h \<le> 124"
  using table_check_nth [of "\<lambda>i a. a \<le> 124" 0 aHash h] by (simp add: aHash_def)

subsection \<open>The loop against the list of keywords\<close>

lemma keyword_facts:
  assumes "i < 124"
  shows "length (keyword_text i) = aLen ! i" "2 \<le> aLen ! i" "aCode ! i = snd (sql_keywords ! i)"
proof -
  have len: "(map (length \<circ> fst) sql_keywords) ! i = length (keyword_text i)"
    using assms by (simp add: keyword_text_eq table_lengths_keywords)
  then show l: "length (keyword_text i) = aLen ! i" by (simp add: keyword_lengths)
  have "(\<lambda>(k, c). 2 \<le> length k \<and> NUL \<notin> set k) (sql_keywords ! i)"
    using keyword_shape assms by (simp add: list_all_length table_lengths_keywords)
  then show "2 \<le> aLen ! i" using l assms by (simp add: keyword_text_eq split_beta)
  show "aCode ! i = snd (sql_keywords ! i)" using assms by (simp add: aCode_eq table_lengths_keywords)
qed

lemma keyword_match:
  assumes "i < 124" "aLen ! i = n" "NUL \<notin> set z"
  shows "sqlite3_strnicmp (Some (drop (aOffset ! i) zText)) (Some z) (int n) = 0 \<longleftrightarrow>
    folded (fst (sql_keywords ! i)) = folded (take n z)"
proof -
  have no: "NUL \<notin> set (drop (aOffset ! i) zText)" using zText_no_NUL by (meson in_set_dropD)
  have "sqlite3_strnicmp (Some (drop (aOffset ! i) zText)) (Some z) (int n) =
      stricmpLoop (keyword_text i) (take n z)"
    using strnicmpLoop_take [OF _ no assms(3), of "int n"] assms(2)
    by (simp add: sqlite3_strnicmp_def keyword_text_def)
  moreover have "NUL \<notin> set (keyword_text i)" "NUL \<notin> set (take n z)"
    using no assms(3) unfolding keyword_text_def by (meson in_set_takeD)+
  ultimately show ?thesis
    using stricmp_folded [of "keyword_text i" "take n z"] assms(1)
    by (simp add: sqlite3_stricmp_def keyword_text_eq)
qed

definition keyword_at :: "nat \<Rightarrow> string \<Rightarrow> nat \<Rightarrow> bool" where
  "keyword_at i z n \<longleftrightarrow> aLen ! i = n \<and> folded (fst (sql_keywords ! i)) = folded (take n z)"

lemma keywordLoop_Suc:
  "i < 124 \<Longrightarrow> NUL \<notin> set z \<Longrightarrow> keywordLoop z n (Suc i) =
     (if keyword_at i z n then Done (aCode ! i) else keywordLoop z n (aNext ! i))"
  using aNext_le [of i] keyword_match [of i n z] by (auto simp: keyword_at_def table_lengths_keywords)

declare keywordLoop.simps(2) [simp del]

lemma keywordLoop_cases:
  assumes "s \<le> 124" "NUL \<notin> set z"
  shows "(\<exists>i < 124. keyword_at i z n \<and> keywordLoop z n s = Done (aCode ! i)) \<or>
    keywordLoop z n s = Done TK_ID"
  using assms
proof (induction s rule: less_induct)
  case (less s)
  show ?case
  proof (cases s)
    case (Suc i)
    then have i: "i < 124" "aNext ! i < s" using less.prems(1) aNext_le [of i] by auto
    have step: "keywordLoop z n s = (if keyword_at i z n then Done (aCode ! i) else keywordLoop z n (aNext ! i))"
      using less.prems(2) Suc i(1) keywordLoop_Suc by blast
    show ?thesis
    proof (cases "keyword_at i z n")
      case True
      then show ?thesis using step i(1) by auto
    next
      case False
      then show ?thesis using step less.IH [OF i(2)] less.prems i by simp
    qed
  qed simp
qed

lemma keywordLoop_finds:
  assumes "first_on_chain (Suc i) (fst (sql_keywords ! i)) (aLen ! i) s" "s \<le> 124"
    "keyword_at i z (aLen ! i)" "NUL \<notin> set z" "i < 124"
  shows "keywordLoop z (aLen ! i) s = Done (aCode ! i)"
  using assms
proof (induction s rule: less_induct)
  case (less s)
  then obtain j where j: "s = Suc j" by (cases s) (auto simp: first_on_chain.simps)
  show ?case
  proof (cases "j = i")
    case True
    then show ?thesis using less.prems j by (simp add: keywordLoop_Suc)
  next
    case False
    then have "\<not> (aLen ! j = aLen ! i \<and> folded (fst (sql_keywords ! j)) = folded (fst (sql_keywords ! i)))"
        "aNext ! j < s" "first_on_chain (Suc i) (fst (sql_keywords ! i)) (aLen ! i) (aNext ! j)"
      using less.prems(1) j by (subst (asm) first_on_chain.simps, simp split: if_splits)+
    then have "keywordLoop z (aLen ! i) (aNext ! j) = Done (aCode ! i)" "\<not> keyword_at j z (aLen ! i)"
      using less.IH [of "aNext ! j"] less.prems j by (auto simp: keyword_at_def)
    then show ?thesis using less.prems(2,4) j by (simp add: keywordLoop_Suc)
  qed
qed

lemma keywordHash_folded:
  assumes "folded a = folded (take n z)" "length a = n" "2 \<le> n" "n \<le> length z"
  shows "keywordHash z n = keywordHash a n"
proof -
  have at: "charMap (a ! k) = charMap (z ! k)" if "k < n" for k
    using arg_cong [OF assms(1), of "\<lambda>xs. xs ! k"] that assms(2-4)
    by (simp add: folded_def charMap_tolower)
  show ?thesis using at [of 0] at [of "n - 1"] assms(3) by (simp add: keywordHash_def)
qed

lemma keywordHash_less: "keywordHash z n < 127"
  by (simp add: keywordHash_def)

lemma keywordCode_finds:
  assumes "keyword_at i z n" "i < 124" "NUL \<notin> set z" "n \<le> length z"
  shows "keywordCode z n = Done (aCode ! i)"
proof -
  have n: "aLen ! i = n" "folded (fst (sql_keywords ! i)) = folded (take n z)" "2 \<le> n"
    "length (fst (sql_keywords ! i)) = n"
    using assms(1,2) keyword_facts [of i] by (auto simp: keyword_at_def keyword_text_eq)
  have "first_on_chain (1 + i) (map fst sql_keywords ! i) (aLen ! i)
      (aHash ! keywordHash (map fst sql_keywords ! i) (aLen ! i))"
    using keywords_chained_nth [OF keywords_chained_all] assms(2) by (simp add: table_lengths_keywords)
  then have "first_on_chain (Suc i) (fst (sql_keywords ! i)) (aLen ! i) (aHash ! keywordHash z n)"
    using keywordHash_folded [OF n(2,4,3) assms(4)] assms(2) n(1) by (simp add: table_lengths_keywords)
  from keywordLoop_finds [OF this aHash_le [OF keywordHash_less]] show ?thesis
    using assms n by (simp add: keywordCode_def)
qed

subsection \<open>Property\<close>

text \<open>The reference: a search of the plain list of keywords, without regard to case.\<close>

definition keyword_lookup :: "string \<Rightarrow> nat" where
  "keyword_lookup w = (case map_of (map (\<lambda>(k, c). (folded k, c)) sql_keywords) (folded w) of
     Some c \<Rightarrow> c | None \<Rightarrow> TK_ID)"

lemma keywordCode_lookup:
  assumes "NUL \<notin> set z" "n \<le> length z"
  shows "keywordCode z n = Done (keyword_lookup (take n z))"
proof (cases "map_of (map (\<lambda>(k, c). (folded k, c)) sql_keywords) (folded (take n z))")
  case (Some c)
  then obtain i where i: "i < 124" "folded (fst (sql_keywords ! i)) = folded (take n z)" "c = snd (sql_keywords ! i)"
    by (auto dest!: map_of_SomeD simp: in_set_conv_nth table_lengths_keywords split_beta)
  have "length (folded (fst (sql_keywords ! i))) = length (folded (take n z))" using i(2) by simp
  then have "aLen ! i = n" using keyword_facts(1) [OF i(1)] i(1) assms(2) by (simp add: folded_def keyword_text_eq)
  then show ?thesis
    using keywordCode_finds [of i z n] i assms Some keyword_facts(3) [OF i(1)]
    by (simp add: keyword_at_def keyword_lookup_def)
next
  case None
  have "\<not> keyword_at i z n" if "i < 124" for i
  proof
    assume "keyword_at i z n"
    then have "folded (take n z) \<in> fst ` set (map (\<lambda>(k, c). (folded k, c)) sql_keywords)"
      using that by (auto simp: keyword_at_def table_lengths_keywords image_image split_beta
        intro!: image_eqI [of _ _ "sql_keywords ! i"] nth_mem)
    then show False using None unfolding map_of_eq_None_iff by blast
  qed
  then have "keywordLoop z n (aHash ! keywordHash z n) = Done TK_ID"
    using keywordLoop_cases [OF aHash_le [OF keywordHash_less] assms(1)] by blast
  then show ?thesis using None by (simp add: keywordCode_def keyword_lookup_def)
qed

text \<open>
  Property C20.  The keyword recognizer with its hash chains and overlapping text is a search in
  the list of the 124 keywords without regard to case: it gives the code of the keyword, and
  \<^verbatim>\<open>TK_ID\<close> for every other word, and never leaves its tables.
\<close>

theorem keyword_code_is_lookup:
  assumes "NUL \<notin> set z" "n \<le> length z"
  shows "keywordCode z n = Done (keyword_lookup (take n z))"
  by (rule keywordCode_lookup [OF assms])

theorem keyword_code_is_lookup_witness:
  "keywordCode ''Select * FROM t'' 6 = Done TK_SELECT"
proof -
  have "folded ''Select'' = folded ''SELECT''" by (simp add: folded_code)
  moreover have "map_of (map (\<lambda>(k, c). (folded k, c)) sql_keywords) (folded ''SELECT'') = Some TK_SELECT"
    by (simp add: sql_keywords_def folded_code)
  ultimately show ?thesis
    using keyword_code_is_lookup [of "''Select * FROM t''" 6] by (simp add: NUL_def keyword_lookup_def)
qed

end
