(* ===== verification/Tokenize.thy ===== *)
theory Tokenize
  imports Keywords
begin

text \<open>
  The SQL tokenizer of \<^verbatim>\<open>tokenize.c\<close> (in \<^verbatim>\<open>sqlite/3.8.11/sqlite3.c\<close>): \<^verbatim>\<open>sqlite3GetToken\<close> and the
  loop of \<^verbatim>\<open>sqlite3RunParser\<close> that feeds the tokens to the parser.

  A text is a string without NUL; \<^verbatim>\<open>z[i]\<close> is the character at \<^verbatim>\<open>i\<close> or the terminator.  The
  switches of the build are set: \<^verbatim>\<open>SQLITE_OMIT_TCL_VARIABLE\<close> is defined, so \<^verbatim>\<open>$\<close> starts an identifier.
\<close>

subsection \<open>Scanning loops\<close>

definition char_at :: "string \<Rightarrow> nat \<Rightarrow> char" where
  "char_at z i = (if i < length z then z ! i else NUL)"

lemma char_at_NUL [simp]: "length z \<le> i \<Longrightarrow> char_at z i = NUL"
  by (simp add: char_at_def)

lemma char_at_first: "char_at (c # z) 0 = c"
  by (simp add: char_at_def)

lemma char_at_less: "char_at z i \<noteq> NUL \<Longrightarrow> i < length z"
  by (rule ccontr) simp

text \<open>\<^verbatim>\<open>while( P(z[i]) ){ i++; }\<close> for a class without NUL.\<close>

function scan :: "(char \<Rightarrow> bool) \<Rightarrow> string \<Rightarrow> nat \<Rightarrow> nat" where
  "scan P z i = (if char_at z i \<noteq> NUL \<and> P (char_at z i) then scan P z (i + 1) else i)"
  by pat_completeness auto
termination
  by (relation "measure (\<lambda>(P, z, i). length z - i)") (auto dest: char_at_less)

declare scan.simps [simp del]

text \<open>The body of a C comment; the result is the index and the last character read.\<close>

function commentLoop :: "string \<Rightarrow> nat \<Rightarrow> char \<Rightarrow> nat \<times> char" where
  "commentLoop z i c =
     (if c \<noteq> CHR ''*'' \<or> char_at z i \<noteq> CHR ''/''
      then (if char_at z i \<noteq> NUL then commentLoop z (i + 1) (char_at z i) else (i, NUL))
      else (i, c))"
  by pat_completeness auto
termination
  by (relation "measure (\<lambda>(z, i, c). length z - i)") (auto dest: char_at_less)

declare commentLoop.simps [simp del]

text \<open>A quoted text; a doubled delimiter stands for one.\<close>

function quoteLoop :: "char \<Rightarrow> string \<Rightarrow> nat \<Rightarrow> nat \<times> char" where
  "quoteLoop delim z i =
     (if char_at z i = NUL then (i, NUL)
      else if char_at z i = delim
      then (if char_at z (i + 1) = delim then quoteLoop delim z (i + 2) else (i, char_at z i))
      else quoteLoop delim z (i + 1))"
  by pat_completeness auto
termination
  by (relation "measure (\<lambda>(delim, z, i). length z - i)") (auto dest: char_at_less)

declare quoteLoop.simps [simp del]

function bracketLoop :: "string \<Rightarrow> nat \<Rightarrow> char \<Rightarrow> nat \<times> char" where
  "bracketLoop z i c =
     (if c \<noteq> CHR '']''
      then (if char_at z i \<noteq> NUL then bracketLoop z (i + 1) (char_at z i) else (i, NUL))
      else (i, c))"
  by pat_completeness auto
termination
  by (relation "measure (\<lambda>(z, i, c). length z - i)") (auto dest: char_at_less)

declare bracketLoop.simps [simp del]

subsection \<open>Tokens\<close>

text \<open>Each branch of the switch gives the length of the token and its code.\<close>

definition quoteToken :: "string \<Rightarrow> nat \<times> nat" where
  "quoteToken z = (case quoteLoop (char_at z 0) z 1 of (i, c) \<Rightarrow>
     if c = CHR 0x27 then (i + 1, TK_STRING)
     else if c \<noteq> NUL then (i + 1, TK_ID)
     else (i, TK_ILLEGAL))"

definition fractionPart :: "string \<Rightarrow> nat \<times> nat \<Rightarrow> nat \<times> nat" where
  "fractionPart z = (\<lambda>(i, t).
     if char_at z i = CHR ''.'' then (scan sqlite3Isdigit z (i + 1), TK_FLOAT) else (i, t))"

definition exponentPart :: "string \<Rightarrow> nat \<times> nat \<Rightarrow> nat \<times> nat" where
  "exponentPart z = (\<lambda>(i, t).
     if (char_at z i = CHR ''e'' \<or> char_at z i = CHR ''E'') \<and>
        (sqlite3Isdigit (char_at z (i + 1)) \<or>
         (char_at z (i + 1) = CHR ''+'' \<or> char_at z (i + 1) = CHR ''-'') \<and> sqlite3Isdigit (char_at z (i + 2)))
     then (scan sqlite3Isdigit z (i + 2), TK_FLOAT) else (i, t))"

definition trailingId :: "string \<Rightarrow> nat \<times> nat \<Rightarrow> nat \<times> nat" where
  "trailingId z = (\<lambda>(i, t). (scan IdChar z i, if IdChar (char_at z i) then TK_ILLEGAL else t))"

definition numberToken :: "string \<Rightarrow> nat \<times> nat" where
  "numberToken z =
     (if char_at z 0 = CHR ''0'' \<and> (char_at z 1 = CHR ''x'' \<or> char_at z 1 = CHR ''X'') \<and>
         sqlite3Isxdigit (char_at z 2)
      then (scan sqlite3Isxdigit z 3, TK_INTEGER)
      else trailingId z (exponentPart z (fractionPart z (scan sqlite3Isdigit z 0, TK_INTEGER))))"

definition bracketToken :: "string \<Rightarrow> nat \<times> nat" where
  "bracketToken z = (case bracketLoop z 1 (char_at z 0) of (i, c) \<Rightarrow>
     (i, if c = CHR '']'' then TK_ID else TK_ILLEGAL))"

definition variableToken :: "string \<Rightarrow> nat \<times> nat" where
  "variableToken z = (let i = scan IdChar z 1 in (i, if i - 1 = 0 then TK_ILLEGAL else TK_VARIABLE))"

definition blobToken :: "string \<Rightarrow> nat \<times> nat" where
  "blobToken z =
     (let i = scan sqlite3Isxdigit z 2;
        bad = (char_at z i \<noteq> CHR 0x27 \<or> i mod 2 \<noteq> 0);
        i = (if bad then scan (\<lambda>c. c \<noteq> CHR 0x27) z i else i)
      in (if char_at z i \<noteq> NUL then i + 1 else i, if bad then TK_ILLEGAL else TK_BLOB))"

definition operatorToken :: "string \<Rightarrow> (nat \<times> nat) option" where
  "operatorToken z =
     (let c = char_at z 0; d = char_at z 1
      in if c = CHR ''-'' then
           (if d = CHR ''-'' then Some (scan (\<lambda>c. c \<noteq> CHR 0x0A) z 2, TK_SPACE) else Some (1, TK_MINUS))
         else if c = CHR ''('' then Some (1, TK_LP)
         else if c = CHR '')'' then Some (1, TK_RP)
         else if c = CHR '';'' then Some (1, TK_SEMI)
         else if c = CHR ''+'' then Some (1, TK_PLUS)
         else if c = CHR ''*'' then Some (1, TK_STAR)
         else if c = CHR ''/'' then
           (if d \<noteq> CHR ''*'' \<or> char_at z 2 = NUL then Some (1, TK_SLASH)
            else (case commentLoop z 3 (char_at z 2) of (i, c) \<Rightarrow>
              Some (if c \<noteq> NUL then i + 1 else i, TK_SPACE)))
         else if c = CHR ''%'' then Some (1, TK_REM)
         else if c = CHR ''='' then Some (if d = CHR ''='' then 2 else 1, TK_EQ)
         else if c = CHR ''<'' then
           (if d = CHR ''='' then Some (2, TK_LE) else if d = CHR ''>'' then Some (2, TK_NE)
            else if d = CHR ''<'' then Some (2, TK_LSHIFT) else Some (1, TK_LT))
         else if c = CHR ''>'' then
           (if d = CHR ''='' then Some (2, TK_GE) else if d = CHR ''>'' then Some (2, TK_RSHIFT)
            else Some (1, TK_GT))
         else if c = CHR ''!'' then Some (2, if d \<noteq> CHR ''='' then TK_ILLEGAL else TK_NE)
         else if c = CHR ''|'' then (if d \<noteq> CHR ''|'' then Some (1, TK_BITOR) else Some (2, TK_CONCAT))
         else if c = CHR '','' then Some (1, TK_COMMA)
         else if c = CHR ''&'' then Some (1, TK_BITAND)
         else if c = CHR ''~'' then Some (1, TK_BITNOT)
         else None)"

definition wordToken :: "string \<Rightarrow> (nat \<times> nat) exec" where
  "wordToken z =
     (if \<not> IdChar (char_at z 0) then Done (1, TK_ILLEGAL)
      else let i = scan IdChar z 1 in exec_bind (keywordCode z i) (\<lambda>t. Done (i, t)))"

definition sqlite3GetToken :: "string \<Rightarrow> (nat \<times> nat) exec" where
  "sqlite3GetToken z =
     (let c = char_at z 0
      in if c = CHR '' '' \<or> c = CHR 0x09 \<or> c = CHR 0x0A \<or> c = CHR 0x0C \<or> c = CHR 0x0D
         then Done (scan sqlite3Isspace z 1, TK_SPACE)
         else (case operatorToken z of
             Some r \<Rightarrow> Done r
           | None \<Rightarrow>
             if c = CHR 0x60 \<or> c = CHR 0x27 \<or> c = CHR 0x22 then Done (quoteToken z)
             else if c = CHR ''.'' then
               (if \<not> sqlite3Isdigit (char_at z 1) then Done (1, TK_DOT) else Done (numberToken z))
             else if sqlite3Isdigit c then Done (numberToken z)
             else if c = CHR ''['' then Done (bracketToken z)
             else if c = CHR ''?'' then Done (scan sqlite3Isdigit z 1, TK_VARIABLE)
             else if c = CHR ''@'' \<or> c = CHR ''#'' \<or> c = CHR '':'' then Done (variableToken z)
             else if (c = CHR ''x'' \<or> c = CHR ''X'') \<and> char_at z 1 = CHR 0x27 then Done (blobToken z)
             else wordToken z))"

subsection \<open>Progress\<close>

lemma scan_ge: "i \<le> scan P z i"
proof (induction P z i rule: scan.induct)
  case (1 P z i)
  then show ?case by (subst scan.simps) auto
qed

lemma scan_le: "i \<le> length z \<Longrightarrow> scan P z i \<le> length z"
proof (induction P z i rule: scan.induct)
  case (1 P z i)
  then show ?case using char_at_less [of z i] by (subst scan.simps) auto
qed

lemma commentLoop_bounds:
  "i \<le> length z \<Longrightarrow> commentLoop z i c = (j, d) \<Longrightarrow> i \<le> j \<and> j \<le> length z \<and> (d \<noteq> NUL \<longrightarrow> j < length z)"
proof (induction z i c arbitrary: j d rule: commentLoop.induct)
  case (1 z i c)
  have "CHR ''/'' \<noteq> NUL" by (simp add: NUL_def)
  then show ?case
    using "1.IH" "1.prems"(1) "1.prems"(2) [unfolded commentLoop.simps [of z i c]] char_at_less [of z i]
    by (fastforce split: if_splits)
qed

lemma quoteLoop_bounds:
  "i \<le> length z \<Longrightarrow> delim \<noteq> NUL \<Longrightarrow> quoteLoop delim z i = (j, d) \<Longrightarrow>
     i \<le> j \<and> j \<le> length z \<and> (d \<noteq> NUL \<longrightarrow> j < length z)"
proof (induction delim z i arbitrary: j d rule: quoteLoop.induct)
  case (1 delim z i)
  note step = "1.prems"(3) [unfolded quoteLoop.simps [of delim z i]]
  consider "char_at z i = NUL" | "char_at z i \<noteq> NUL" "char_at z i = delim" "char_at z (i + 1) = delim"
    | "char_at z i \<noteq> NUL" "char_at z i = delim" "char_at z (i + 1) \<noteq> delim"
    | "char_at z i \<noteq> NUL" "char_at z i \<noteq> delim" by blast
  then show ?case
  proof cases
    case 1
    then show ?thesis using step "1.prems" by simp
  next
    case 2
    then have "i + 1 < length z" using char_at_less [of z "i + 1"] "1.prems"(2) by simp
    then have "i + 2 \<le> j \<and> j \<le> length z \<and> (d \<noteq> NUL \<longrightarrow> j < length z)"
      using 2 step "1.prems"(2) by (intro "1.IH"(1)) auto
    then show ?thesis by simp
  next
    case 3
    then show ?thesis using step char_at_less [of z i] by auto
  next
    case 4
    then have "i < length z" using char_at_less by blast
    then have "i + 1 \<le> j \<and> j \<le> length z \<and> (d \<noteq> NUL \<longrightarrow> j < length z)"
      using 4 step "1.prems"(2) by (intro "1.IH"(2)) auto
    then show ?thesis by simp
  qed
qed

lemma bracketLoop_bounds:
  "i \<le> length z \<Longrightarrow> bracketLoop z i c = (j, d) \<Longrightarrow> i \<le> j \<and> j \<le> length z"
proof (induction z i c arbitrary: j d rule: bracketLoop.induct)
  case (1 z i c)
  show ?case
    using "1.IH" "1.prems"(1) "1.prems"(2) [unfolded bracketLoop.simps [of z i c]] char_at_less [of z i]
    by (fastforce split: if_splits)
qed

text \<open>The bounds of a token: at least one character, and within the text.\<close>

definition fits :: "string \<Rightarrow> nat \<times> nat \<Rightarrow> bool" where
  "fits z r \<longleftrightarrow> 1 \<le> fst r \<and> fst r \<le> length z"

lemma scan_fits: "1 \<le> i \<Longrightarrow> i \<le> length z \<Longrightarrow> fits z (scan P z i, t)"
  using scan_ge [of i P z] scan_le [of i z P] by (simp add: fits_def)

lemma length_pos: "z \<noteq> [] \<Longrightarrow> 1 \<le> length z"
  by (cases z) auto

lemma char_at_2: "char_at z 1 = c \<Longrightarrow> c \<noteq> NUL \<Longrightarrow> 2 \<le> length z"
  using char_at_less [of z 1] by auto

lemma quoteToken_fits:
  assumes "z \<noteq> []" "char_at z 0 \<noteq> NUL"
  shows "fits z (quoteToken z)"
proof -
  obtain j d where j: "quoteLoop (char_at z 0) z 1 = (j, d)" by fastforce
  have b: "1 \<le> j" "j \<le> length z" "d \<noteq> NUL \<longrightarrow> j < length z"
    using quoteLoop_bounds [OF length_pos [OF assms(1)] assms(2) j] by auto
  have "CHR 0x27 \<noteq> NUL" by (simp add: NUL_def)
  then show ?thesis
    using b by (auto simp add: quoteToken_def fits_def j simp del: One_nat_def)
qed

lemma bracketToken_fits:
  assumes "z \<noteq> []"
  shows "fits z (bracketToken z)"
proof -
  obtain j d where j: "bracketLoop z 1 (char_at z 0) = (j, d)" by fastforce
  show ?thesis
    using bracketLoop_bounds [OF length_pos [OF assms] j]
    by (simp add: bracketToken_def fits_def j del: One_nat_def)
qed

lemma blobToken_fits:
  assumes "char_at z 1 = CHR 0x27"
  shows "fits z (blobToken z)"
proof -
  define i where "i = scan sqlite3Isxdigit z 2"
  have i: "2 \<le> i" "i \<le> length z"
    using scan_ge [of 2] scan_le [of 2 z] char_at_2 [OF assms] by (auto simp: i_def NUL_def)
  define k where "k = (if char_at z i \<noteq> CHR 0x27 \<or> i mod 2 \<noteq> 0 then scan (\<lambda>c. c \<noteq> CHR 0x27) z i else i)"
  have "2 \<le> k" "k \<le> length z"
    using i scan_ge [of i "\<lambda>c. c \<noteq> CHR 0x27" z] scan_le [of i z "\<lambda>c. c \<noteq> CHR 0x27"] by (auto simp: k_def)
  moreover have "fst (blobToken z) = (if char_at z k \<noteq> NUL then k + 1 else k)"
    unfolding blobToken_def Let_def i_def [symmetric] k_def [symmetric] by simp
  ultimately show ?thesis using char_at_less [of z k] by (auto simp: fits_def)
qed

text \<open>Numbers: each part goes on from where the last one ended.\<close>

lemma fractionPart_fits: "fits z r \<Longrightarrow> fits z (fractionPart z r)"
  using char_at_less [of z "fst r"] by (auto simp: fractionPart_def fits_def NUL_def split: prod.split
      intro: scan_le order_trans [OF _ scan_ge])

lemma exponentPart_fits: "fits z r \<Longrightarrow> fits z (exponentPart z r)"
proof (cases r)
  case (Pair i t)
  assume "fits z r"
  moreover have "i + 2 \<le> length z"
    if "sqlite3Isdigit (char_at z (i + 1)) \<or> char_at z (i + 1) = CHR ''+'' \<or> char_at z (i + 1) = CHR ''-''"
  proof -
    have "\<not> sqlite3Isdigit NUL" by (simp add: ctype code_classes NUL_def)
    then have "char_at z (i + 1) \<noteq> NUL" using that by (auto simp: NUL_def)
    then show ?thesis using char_at_less [of z "i + 1"] by simp
  qed
  ultimately show ?thesis
    using Pair scan_ge [of "i + 2" sqlite3Isdigit z] scan_le [of "i + 2" z sqlite3Isdigit]
    by (auto simp: exponentPart_def fits_def)
qed

lemma trailingId_fits: "fits z r \<Longrightarrow> fits z (trailingId z r)"
  by (auto simp: trailingId_def fits_def split: prod.split intro: scan_le order_trans [OF _ scan_ge])

lemma char_at_0: "z \<noteq> [] \<Longrightarrow> NUL \<notin> set z \<Longrightarrow> char_at z 0 \<noteq> NUL"
  by (cases z) (auto simp: char_at_def)

lemma scan_Suc: "char_at z i \<noteq> NUL \<Longrightarrow> P (char_at z i) \<Longrightarrow> scan P z i = scan P z (i + 1)"
  by (subst scan.simps) simp

lemma scan_stop: "\<not> P (char_at z i) \<Longrightarrow> scan P z i = i"
  by (subst scan.simps) simp

lemma numberToken_fits:
  assumes "z \<noteq> []" "char_at z 0 = CHR ''.'' \<or> sqlite3Isdigit (char_at z 0)"
  shows "fits z (numberToken z)"
proof -
  have no: "\<not> sqlite3Isdigit NUL" "\<not> sqlite3Isxdigit NUL" "\<not> sqlite3Isdigit (CHR ''.'')"
    by (simp_all add: ctype code_classes NUL_def)
  have "fits z (fractionPart z (scan sqlite3Isdigit z 0, t))" for t
  proof (cases "sqlite3Isdigit (char_at z 0)")
    case True
    then have "scan sqlite3Isdigit z 0 = scan sqlite3Isdigit z 1"
      using scan_Suc [of z 0] no(1) by (cases "char_at z 0 = NUL") simp_all
    then have "fits z (scan sqlite3Isdigit z 0, t)"
      using scan_fits [of 1 z sqlite3Isdigit t] length_pos [OF assms(1)] by simp
    then show ?thesis by (rule fractionPart_fits)
  next
    case False
    then have "char_at z 0 = CHR ''.''" "scan sqlite3Isdigit z 0 = 0" using assms(2) scan_stop by auto
    then show ?thesis
      using scan_fits [of 1 z sqlite3Isdigit] length_pos [OF assms(1)] by (simp add: fractionPart_def)
  qed
  then have parts: "fits z (trailingId z (exponentPart z (fractionPart z (scan sqlite3Isdigit z 0, TK_INTEGER))))"
    by (intro trailingId_fits exponentPart_fits)
  have "fits z (scan sqlite3Isxdigit z 3, TK_INTEGER)" if "sqlite3Isxdigit (char_at z 2)"
    using that no(2) char_at_less [of z 2] by (cases "char_at z 2 = NUL") (auto intro: scan_fits)
  then show ?thesis using parts by (simp add: numberToken_def)
qed

lemma operatorToken_fits:
  assumes "z \<noteq> []" "operatorToken z = Some r"
  shows "fits z r \<or> char_at z 0 = CHR ''!'' \<and> r = (2, TK_ILLEGAL)"
proof -
  have 1: "fits z (1, t)" for t using length_pos [OF assms(1)] by (simp add: fits_def)
  have 2: "fits z (2, t)" if "char_at z 1 = d" "d \<noteq> NUL" for t d
    using char_at_2 [OF that] by (simp add: fits_def)
  have chars: "CHR ''-'' \<noteq> NUL" "CHR ''='' \<noteq> NUL" "CHR ''>'' \<noteq> NUL" "CHR ''<'' \<noteq> NUL" "CHR ''|'' \<noteq> NUL"
    "CHR ''*'' \<noteq> NUL"
    by (simp_all add: NUL_def)
  have comment: "fits z (if c \<noteq> NUL then i + 1 else i, TK_SPACE)"
    if "char_at z 2 \<noteq> NUL" "commentLoop z 3 (char_at z 2) = (i, c)" for i c
    using commentLoop_bounds [OF _ that(2)] char_at_less [OF that(1)] by (auto simp: fits_def)
  have line: "fits z (scan P z 2, TK_SPACE)" if "char_at z 1 = CHR ''-''" for P
    using char_at_2 [OF that chars(1)] by (intro scan_fits) auto
  show ?thesis
    using assms(2) 1 2 [OF _ chars(2)] 2 [OF _ chars(3)] 2 [OF _ chars(4)] 2 [OF _ chars(5)] comment line
    unfolding operatorToken_def Let_def
    by (auto split: if_splits prod.splits simp del: One_nat_def)
qed

lemma wordToken_fits:
  assumes "z \<noteq> []" "NUL \<notin> set z"
  shows "\<exists>r. wordToken z = Done r \<and> fits z r"
proof (cases "IdChar (char_at z 0)")
  case True
  define i where "i = scan IdChar z 1"
  have "fits z (i, t)" for t using length_pos [OF assms(1)] unfolding i_def by (intro scan_fits) auto
  moreover from this have "keywordCode z i = Done (keyword_lookup (take i z))"
    by (intro keywordCode_lookup assms) (simp add: fits_def)
  ultimately show ?thesis using True by (simp add: wordToken_def Let_def i_def del: One_nat_def)
qed (use length_pos [OF assms(1)] in \<open>simp add: wordToken_def fits_def\<close>)

lemma sqlite3GetToken_fits:
  assumes "z \<noteq> []" "NUL \<notin> set z"
  shows "\<exists>r. sqlite3GetToken z = Done r \<and> (fits z r \<or> char_at z 0 = CHR ''!'' \<and> r = (2, TK_ILLEGAL))"
proof -
  note pos = length_pos [OF assms(1)] and c0 = char_at_0 [OF assms]
  have scan: "fits z (scan P z 1, t)" for P t using pos by (intro scan_fits) auto
  have dot: "fits z (1, TK_DOT)" using pos by (simp add: fits_def)
  have var: "fits z (variableToken z)" using scan by (simp add: variableToken_def fits_def Let_def)
  show ?thesis
  proof (cases "operatorToken z")
    case (Some r)
    then show ?thesis
      using operatorToken_fits [OF assms(1) Some] scan
      by (cases r) (auto simp: sqlite3GetToken_def Let_def simp del: One_nat_def)
  next
    case None
    define Q where "Q e \<longleftrightarrow> (\<exists>r. e = Done r \<and> (fits z r \<or> char_at z 0 = CHR ''!'' \<and> r = (2, TK_ILLEGAL)))"
      for e
    have Q_if: "(b \<Longrightarrow> Q x) \<Longrightarrow> (\<not> b \<Longrightarrow> Q y) \<Longrightarrow> Q (if b then x else y)" for b x y by simp
    have Q_Done: "fits z r \<Longrightarrow> Q (Done r)" for r by (auto simp: Q_def)
    have word: "Q (wordToken z)" using wordToken_fits [OF assms] by (auto simp: Q_def)
    have "Q (sqlite3GetToken z)"
      unfolding sqlite3GetToken_def Let_def None option.case
      by (intro Q_if Q_Done scan dot var word quoteToken_fits [OF assms(1) c0] bracketToken_fits [OF assms(1)]
          blobToken_fits numberToken_fits [OF assms(1)]) simp_all
    then show ?thesis by (simp add: Q_def)
  qed
qed

text \<open>The one token longer than the text: a \<^verbatim>\<open>!\<close> at its end.\<close>

lemma sqlite3GetToken_bounds:
  assumes "z \<noteq> []" "NUL \<notin> set z"
  shows "\<exists>n t. sqlite3GetToken z = Done (n, t) \<and> 1 \<le> n \<and> (n \<le> length z \<or> z = ''!'' \<and> n = 2 \<and> t = TK_ILLEGAL)"
proof -
  obtain n t where r: "sqlite3GetToken z = Done (n, t)"
      "fits z (n, t) \<or> char_at z 0 = CHR ''!'' \<and> (n, t) = (2, TK_ILLEGAL)"
    using sqlite3GetToken_fits [OF assms] by auto
  moreover have "length z \<ge> 2 \<or> z = ''!''" if "char_at z 0 = CHR ''!''"
    using that assms(1) by (cases z; cases "tl z") (auto simp: char_at_def)
  ultimately show ?thesis by (auto simp: fits_def)
qed

subsection \<open>Feeding the parser\<close>

text \<open>
  The loop of \<^verbatim>\<open>sqlite3RunParser\<close>.  The parser proper, \<^verbatim>\<open>sqlite3Parser\<close> with the code generator behind
  it, is the parameter \<^verbatim>\<open>parser\<close>: it takes a token code and text and the \<^verbatim>\<open>Parse\<close> object, which it may
  change as it likes; what is proved holds for every such function.  \<^verbatim>\<open>pr_interrupts\<close> are the values
  \<^verbatim>\<open>db->u1.isInterrupted\<close> will show when it is read, \<^verbatim>\<open>pr_mallocs\<close> the outcomes of the allocations.
\<close>

definition SQLITE_ERROR :: int where "SQLITE_ERROR = 1"




record 'p parse =
  pr_rc :: int
  pr_nErr :: nat
  pr_zErrMsg :: "string option"
  pr_zTail :: string
  pr_sLastToken :: string
  pr_mallocFailed :: bool
  pr_suppressErr :: bool
  pr_interrupts :: "bool list"
  pr_mallocs :: "bool list"
  pr_engine :: 'p

definition sqlite3ErrorMsg :: "string \<Rightarrow> 'p parse \<Rightarrow> 'p parse" where
  "sqlite3ErrorMsg zMsg P =
     (if pr_suppressErr P then P
      else P\<lparr>pr_nErr := pr_nErr P + 1, pr_zErrMsg := Some zMsg, pr_rc := SQLITE_ERROR\<rparr>)"

fun readInterrupt :: "'p parse \<Rightarrow> bool \<times> 'p parse" where
  "readInterrupt P = (case pr_interrupts P of [] \<Rightarrow> (False, P) | b # bs \<Rightarrow> (b, P\<lparr>pr_interrupts := bs\<rparr>))"








text \<open>The tokens of a text, one after the other.\<close>

function tokens :: "string \<Rightarrow> (nat \<times> string) list exec" where
  "tokens z =
     (if z = [] then Done []
      else (case sqlite3GetToken z of
          Undefined \<Rightarrow> Undefined
        | Done (n, t) \<Rightarrow>
            if n = 0 then Undefined
            else exec_bind (tokens (drop n z)) (\<lambda>ts. Done ((t, take n z) # ts))))"
  by pat_completeness auto

termination
  by (relation "measure length") auto

declare tokens.simps [simp del]

lemma tokens_Cons:
  assumes "z \<noteq> []" "NUL \<notin> set z"
  obtains n t where "sqlite3GetToken z = Done (n, t)" "0 < n" "take n z \<noteq> []"
    "tokens z = exec_bind (tokens (drop n z)) (\<lambda>ts. Done ((t, take n z) # ts))"
proof -
  obtain n t where n: "sqlite3GetToken z = Done (n, t)" "1 \<le> n"
    using sqlite3GetToken_bounds [OF assms] by blast
  show ?thesis
    by (rule that [OF n(1)]) (use n assms in \<open>auto simp: tokens.simps [of z]\<close>)
qed

lemma tokens_partition:
  "NUL \<notin> set z \<Longrightarrow> \<exists>ts. tokens z = Done ts \<and> concat (map snd ts) = z \<and> list_all (\<lambda>(t, s). s \<noteq> []) ts"
proof (induction "length z" arbitrary: z rule: less_induct)
  case less
  show ?case
  proof (cases "z = []")
    case True
    then show ?thesis by (simp add: tokens.simps)
  next
    case False
    obtain n t where n: "0 < n" "take n z \<noteq> []"
        "tokens z = exec_bind (tokens (drop n z)) (\<lambda>ts. Done ((t, take n z) # ts))"
      using tokens_Cons [OF False less.prems] by metis
    have "NUL \<notin> set (drop n z)" using less.prems by (meson in_set_dropD)
    then obtain ts where "tokens (drop n z) = Done ts" "concat (map snd ts) = drop n z" "list_all (\<lambda>(t, s). s \<noteq> []) ts"
      using less.hyps [of "drop n z"] n(1) False by auto
    then show ?thesis using n by simp
  qed
qed

subsection \<open>What the parser is fed\<close>

text \<open>
  For any parser, the same parser that also writes down what it is called with and the result code it
  leaves.  \<^verbatim>\<open>lift P fed\<close> is the \<^verbatim>\<open>Parse\<close> object with what was written down.
\<close>

type_synonym feed = "(nat \<times> string \<times> int) list"

definition with_engine :: "'q \<Rightarrow> 'p parse \<Rightarrow> 'q parse" where
  "with_engine e P = \<lparr>pr_rc = pr_rc P, pr_nErr = pr_nErr P, pr_zErrMsg = pr_zErrMsg P, pr_zTail = pr_zTail P,
     pr_sLastToken = pr_sLastToken P, pr_mallocFailed = pr_mallocFailed P, pr_suppressErr = pr_suppressErr P,
     pr_interrupts = pr_interrupts P, pr_mallocs = pr_mallocs P, pr_engine = e\<rparr>"

definition lift :: "'p parse \<Rightarrow> feed \<Rightarrow> ('p \<times> feed) parse" where
  "lift P fed = with_engine (pr_engine P, fed) P"

definition logged ::
  "(nat \<Rightarrow> string \<Rightarrow> 'p parse \<Rightarrow> 'p parse) \<Rightarrow> nat \<Rightarrow> string \<Rightarrow> ('p \<times> feed) parse \<Rightarrow> ('p \<times> feed) parse"
where
  "logged parser t s P =
     (let Q = parser t s (with_engine (fst (pr_engine P)) P) in lift Q (snd (pr_engine P) @ [(t, s, pr_rc Q)]))"

lemma logged_lift [simp]: "logged parser t s (lift P fed) = lift (parser t s P) (fed @ [(t, s, pr_rc (parser t s P))])"
proof -
  have "with_engine (fst (pr_engine (lift P fed))) (lift P fed) = P" by (simp add: lift_def with_engine_def)
  moreover have "snd (pr_engine (lift P fed)) = fed" by (simp add: lift_def with_engine_def)
  ultimately show ?thesis by (simp add: logged_def Let_def)
qed

lemma lift_fields [simp]:
  "pr_rc (lift P fed) = pr_rc P" "pr_zErrMsg (lift P fed) = pr_zErrMsg P" "pr_mallocFailed (lift P fed) = pr_mallocFailed P"
  "pr_sLastToken (lift P fed) = pr_sLastToken P" "pr_mallocs (lift P fed) = pr_mallocs P"
  "pr_interrupts (lift P fed) = pr_interrupts P" "pr_suppressErr (lift P fed) = pr_suppressErr P"
  "(lift P fed)\<lparr>pr_sLastToken := x\<rparr> = lift (P\<lparr>pr_sLastToken := x\<rparr>) fed" "(lift P fed)\<lparr>pr_zTail := x\<rparr> = lift (P\<lparr>pr_zTail := x\<rparr>) fed"
  "(lift P fed)\<lparr>pr_rc := r\<rparr> = lift (P\<lparr>pr_rc := r\<rparr>) fed" "(lift P fed)\<lparr>pr_mallocs := ms\<rparr> = lift (P\<lparr>pr_mallocs := ms\<rparr>) fed"
  "(lift P fed)\<lparr>pr_zErrMsg := m\<rparr> = lift (P\<lparr>pr_zErrMsg := m\<rparr>) fed"
  "sqlite3ErrorMsg x (lift P fed) = lift (sqlite3ErrorMsg x P) fed"
  "readInterrupt (lift P fed) = (fst (readInterrupt P), lift (snd (readInterrupt P)) fed)"
  by (simp_all add: lift_def with_engine_def sqlite3ErrorMsg_def split: list.split)

declare readInterrupt.simps [simp del]


definition proper :: "nat \<times> string \<Rightarrow> bool" where
  "proper = (\<lambda>(t, s). t \<noteq> TK_SPACE)"

text \<open>The code of the last token fed, as the loop keeps it.\<close>

definition last_code :: "int \<Rightarrow> (nat \<times> string) list \<Rightarrow> int" where
  "last_code l ts = (if filter proper ts = [] then l else int (fst (last (filter proper ts))))"

lemma last_code_simps [simp]:
  "last_code l [] = l"
  "last_code l ((t, s) # ts) = (if t = TK_SPACE then last_code l ts else last_code (int t) ts)"
  by (auto simp: last_code_def proper_def)

definition call :: "nat \<times> string \<times> int \<Rightarrow> nat \<times> string" where
  "call = (\<lambda>(t, s, rc). (t, s))"

definition went_on :: "nat \<times> string \<times> int \<Rightarrow> bool" where
  "went_on = (\<lambda>(t, s, rc). rc = SQLITE_OK)"

lemma call_simps [simp]: "call (t, s, rc) = (t, s)" "went_on (t, s, rc) = (rc = SQLITE_OK)" "fst (call c) = fst c"
  by (simp_all add: call_def went_on_def split: prod.split)


























subsection \<open>Quoted tokens\<close>

lemma char_at_append [simp]: "char_at (pre @ c # z) (length pre) = c"
  by (simp add: char_at_def)

lemma char_at_append_Suc: "char_at (pre @ c # z) (length pre + 1) = deref z"
  by (cases z) (simp_all add: char_at_def nth_append)

lemma deref_quoted: "deref (quoted q s @ rest) = q \<longleftrightarrow> s = [] \<or> hd s = q"
  by (cases s) (auto simp: quoted_def)

lemma quoted_Cons: "quoted q (c # s) = (if c = q then [q, q] else [c]) @ quoted q s"
  by (simp add: quoted_def)

lemma quoteLoop_quoted:
  assumes "deref rest \<noteq> q" "q \<noteq> NUL" "NUL \<notin> set s"
  shows "quoteLoop q (pre @ quoted q s @ rest) (length pre) = (length pre + length (quoted q s) - 1, q)"
  using assms(3)
proof (induction s arbitrary: pre)
  case Nil
  then show ?case
    using assms(1,2) char_at_append_Suc [of pre q rest]
    by (subst quoteLoop.simps) (simp add: quoted_def)
next
  case (Cons c s)
  have pos: "0 < length (quoted q s)" by (simp add: quoted_def)
  show ?case
  proof (cases "c = q")
    case True
    have "quoteLoop q ((pre @ [q, q]) @ quoted q s @ rest) (length (pre @ [q, q])) =
        (length (pre @ [q, q]) + length (quoted q s) - 1, q)"
      using Cons by (intro Cons.IH) simp
    moreover have "char_at (pre @ q # q # quoted q s @ rest) (length pre + 1) = q"
      using char_at_append_Suc [of pre q "q # quoted q s @ rest"] by simp
    ultimately show ?thesis
      using True assms(2) pos by (subst quoteLoop.simps) (simp add: quoted_Cons)
  next
    case False
    have "quoteLoop q ((pre @ [c]) @ quoted q s @ rest) (length (pre @ [c])) =
        (length (pre @ [c]) + length (quoted q s) - 1, q)"
      using Cons by (intro Cons.IH) simp
    moreover have "c \<noteq> NUL" using Cons.prems by auto
    ultimately show ?thesis
      using False pos by (subst quoteLoop.simps) (simp add: quoted_Cons)
  qed
qed

subsection \<open>Properties\<close>

text \<open>
  Property C17.  Every text is cut into tokens: \<^verbatim>\<open>sqlite3GetToken\<close> always makes progress and,
  called again and again, ends with tokens that put together are the text.  A token never reaches
  behind the text, except for a \<^verbatim>\<open>!\<close> at its end, whose length is given as 2.
\<close>

theorem tokens_cut_the_text:
  assumes "NUL \<notin> set z"
  shows "(\<exists>ts. tokens z = Done ts \<and> concat (map snd ts) = z \<and> list_all (\<lambda>(t, s). s \<noteq> []) ts) \<and>
    (if z = [] then True else \<exists>n t. sqlite3GetToken z = Done (n, t) \<and> 1 \<le> n \<and>
       (if n \<le> length z then True else z = ''!'' \<and> n = 2 \<and> t = TK_ILLEGAL))"
  using tokens_partition [OF assms] sqlite3GetToken_bounds [OF _ assms] by fastforce

theorem tokens_cut_the_text_witness:
  "\<exists>ts. tokens ''SELECT a||'x' FROM t -- all'' = Done ts \<and> concat (map snd ts) = ''SELECT a||'x' FROM t -- all''"
  using tokens_cut_the_text [of "''SELECT a||'x' FROM t -- all''"] by (auto simp: NUL_def)

(*C19*)
text \<open>
  Property C26.  A string written with any of the three quotes, doubling the quote inside, is one
  token whatever follows it, a string for single quotes and an identifier for the others, and
  \<^verbatim>\<open>sqlite3Dequote\<close> gives the string back from the text of that token.
\<close>

theorem quoted_token_dequotes:
  assumes "q \<in> {CHR 0x27, CHR 0x22, CHR 0x60}" "NUL \<notin> set s" "deref rest \<noteq> q"
  shows "sqlite3GetToken (q # quoted q s @ rest) =
      Done (length (q # quoted q s), if q = CHR 0x27 then TK_STRING else TK_ID) \<and>
    sqlite3Dequote (Some (take (length (q # quoted q s)) (q # quoted q s @ rest))) = Done (int (length s), Some s)"
proof
  have q: "q \<noteq> NUL" "char_at (q # quoted q s @ rest) 0 = q" using assms(1) by (auto simp: NUL_def char_at_def)
  have "sqlite3GetToken (q # quoted q s @ rest) = Done (quoteToken (q # quoted q s @ rest))"
  proof -
    consider "q = CHR 0x27" | "q = CHR 0x22" | "q = CHR 0x60" using assms(1) by auto
    then show ?thesis
      by cases (simp_all add: sqlite3GetToken_def operatorToken_def Let_def char_at_first del: One_nat_def)
  qed
  moreover have "quoteLoop q (q # quoted q s @ rest) 1 = (length (quoted q s), q)"
    using quoteLoop_quoted [OF assms(3) q(1) assms(2), of "[q]"] by simp
  ultimately show "sqlite3GetToken (q # quoted q s @ rest) =
      Done (length (q # quoted q s), if q = CHR 0x27 then TK_STRING else TK_ID)"
    using q by (simp add: quoteToken_def del: One_nat_def)
  have "dequoteLoop q (quoted q s) [] = Done s"
    using dequoteLoop_quoted [of "[]" q s "[]"] q(1) by auto
  then show "sqlite3Dequote (Some (take (length (q # quoted q s)) (q # quoted q s @ rest))) = Done (int (length s), Some s)"
    using assms(1) by (auto simp: sqlite3Dequote_def Let_def)
qed

theorem quoted_token_dequotes_witness:
  "sqlite3GetToken ([CHR 0x27] @ ''it'' @ [CHR 0x27, CHR 0x27] @ ''s'' @ [CHR 0x27] @ '', 1'') = Done (7, TK_STRING)"
  using quoted_token_dequotes [of "CHR 0x27" "''it'' @ [CHR 0x27] @ ''s''" "'', 1''"]
  by (simp add: NUL_def quoted_def)

end
