(* ===== verification/Complete.thy ===== *)
theory Complete
  imports Tokenize "HOL-Library.Sublist"
begin

text \<open>
  \<^verbatim>\<open>sqlite3_complete\<close> of \<^verbatim>\<open>complete.c\<close> (in \<^verbatim>\<open>sqlite/3.8.11/sqlite3.c\<close>): does a text end at the
  end of an SQL statement?  A lexer of its own and a state machine with eight states; the pointer
  \<^verbatim>\<open>zSql\<close> is the rest of the text.
\<close>

subsection \<open>Tokens and states\<close>

named_theorems complete_codes \<open>token codes of the completeness test\<close>

definition tkSEMI :: nat where [complete_codes]: "tkSEMI = 0"
definition tkWS :: nat where [complete_codes]: "tkWS = 1"
definition tkOTHER :: nat where [complete_codes]: "tkOTHER = 2"
definition tkEXPLAIN :: nat where [complete_codes]: "tkEXPLAIN = 3"
definition tkCREATE :: nat where [complete_codes]: "tkCREATE = 4"
definition tkTEMP :: nat where [complete_codes]: "tkTEMP = 5"
definition tkTRIGGER :: nat where [complete_codes]: "tkTRIGGER = 6"
definition tkEND :: nat where [complete_codes]: "tkEND = 7"

definition trans :: "nat list list" where
  "trans = [
    [1, 0, 2, 3, 4, 2, 2, 2],
    [1, 1, 2, 3, 4, 2, 2, 2],
    [1, 2, 2, 2, 2, 2, 2, 2],
    [1, 3, 3, 2, 4, 2, 2, 2],
    [1, 4, 2, 2, 2, 4, 5, 2],
    [6, 5, 5, 5, 5, 5, 5, 5],
    [6, 6, 5, 5, 5, 5, 5, 7],
    [1, 7, 5, 5, 5, 5, 5, 5]]"

subsection \<open>The lexer\<close>

text \<open>
  One round of the loop: a token and the rest of the text, or the two early returns, with 0
  (\<^verbatim>\<open>Unclosed\<close>) and with the state as it is (\<^verbatim>\<open>AtEnd\<close>).
\<close>

datatype round = Unclosed | AtEnd | Token nat string

fun skipComment :: "string \<Rightarrow> string" where
  "skipComment [] = []"
| "skipComment (c # z) = (if c = CHR ''*'' \<and> deref z = CHR ''/'' then c # z else skipComment z)"

definition wordCode :: "string \<Rightarrow> nat \<Rightarrow> nat" where
  "wordCode z nId =
     (if deref z = CHR ''c'' \<or> deref z = CHR ''C'' then
        (if nId = 6 \<and> sqlite3_strnicmp (Some z) (Some ''create'') 6 = 0 then tkCREATE else tkOTHER)
      else if deref z = CHR ''t'' \<or> deref z = CHR ''T'' then
        (if nId = 7 \<and> sqlite3_strnicmp (Some z) (Some ''trigger'') 7 = 0 then tkTRIGGER
         else if nId = 4 \<and> sqlite3_strnicmp (Some z) (Some ''temp'') 4 = 0 then tkTEMP
         else if nId = 9 \<and> sqlite3_strnicmp (Some z) (Some ''temporary'') 9 = 0 then tkTEMP
         else tkOTHER)
      else if deref z = CHR ''e'' \<or> deref z = CHR ''E'' then
        (if nId = 3 \<and> sqlite3_strnicmp (Some z) (Some ''end'') 3 = 0 then tkEND
         else if nId = 7 \<and> sqlite3_strnicmp (Some z) (Some ''explain'') 7 = 0 then tkEXPLAIN
         else tkOTHER)
      else tkOTHER)"

definition completeRound :: "string \<Rightarrow> round" where
  "completeRound z =
     (let c = deref z
      in if c = CHR '';'' then Token tkSEMI (tl z)
         else if c = CHR '' '' \<or> c = CHR 0x0D \<or> c = CHR 0x09 \<or> c = CHR 0x0A \<or> c = CHR 0x0C
         then Token tkWS (tl z)
         else if c = CHR ''/'' then
           (if deref (tl z) \<noteq> CHR ''*'' then Token tkOTHER (tl z)
            else let r = skipComment (drop 2 z)
              in if r = [] then Unclosed else Token tkWS (drop 2 r))
         else if c = CHR ''-'' then
           (if deref (tl z) \<noteq> CHR ''-'' then Token tkOTHER (tl z)
            else let r = dropWhile (\<lambda>c. c \<noteq> CHR 0x0A) z
              in if r = [] then AtEnd else Token tkWS (tl r))
         else if c = CHR ''['' then
           (let r = dropWhile (\<lambda>c. c \<noteq> CHR '']'') (tl z)
            in if r = [] then Unclosed else Token tkOTHER (tl r))
         else if c = CHR 0x60 \<or> c = CHR 0x22 \<or> c = CHR 0x27 then
           (let r = dropWhile (\<lambda>d. d \<noteq> c) (tl z)
            in if r = [] then Unclosed else Token tkOTHER (tl r))
         else if IdChar c then
           (let nId = scan IdChar z 1 in Token (wordCode z nId) (drop nId z))
         else Token tkOTHER (tl z))"

lemma skipComment_length: "length (skipComment z) \<le> length z"
  by (induction z rule: skipComment.induct) auto

lemma dropWhile_length: "length (dropWhile P z) \<le> length z"
  by (induction z) auto

lemma round_shorter:
  assumes "completeRound z = Token t r" "z \<noteq> []"
  shows "length r < length z"
proof -
  have tl: "length (tl z) < length z" using assms(2) by simp
  have "length (drop 2 (skipComment (drop 2 z))) < length z"
    using skipComment_length [of "drop 2 z"] tl unfolding length_drop by linarith
  moreover have "length (tl (dropWhile P z)) < length z" for P
    using dropWhile_length [of P z] assms(2) by (cases z) auto
  moreover have "length (tl (dropWhile P (tl z))) < length z" for P
    using dropWhile_length [of P "tl z"] tl by auto
  moreover have "length (drop (scan IdChar z 1) z) < length z"
    using scan_ge [of 1 IdChar z] assms(2) by auto
  ultimately show ?thesis
    using assms(1) tl by (auto simp: completeRound_def Let_def split: if_splits simp del: One_nat_def)
qed

function completeLoop :: "string \<Rightarrow> nat \<Rightarrow> bool" where
  "completeLoop z state =
     (if z = [] then state = 1
      else (case completeRound z of
          Unclosed \<Rightarrow> False
        | AtEnd \<Rightarrow> state = 1
        | Token t r \<Rightarrow> completeLoop r (trans ! state ! t)))"
  by pat_completeness auto

termination
  by (relation "measure (\<lambda>(z, s). length z)") (auto dest: round_shorter)

declare completeLoop.simps [simp del]

definition sqlite3_complete :: "string \<Rightarrow> bool" where
  "sqlite3_complete zSql = completeLoop zSql 0"

subsection \<open>The tokens the machine sees\<close>

function completeTokens :: "string \<Rightarrow> nat list option" where
  "completeTokens z =
     (if z = [] then Some []
      else (case completeRound z of
          Unclosed \<Rightarrow> None
        | AtEnd \<Rightarrow> Some []
        | Token t r \<Rightarrow> map_option (\<lambda>ts. if t = tkWS then ts else t # ts) (completeTokens r)))"
  by pat_completeness auto

termination
  by (relation "measure length") (auto dest: round_shorter)

declare completeTokens.simps [simp del]

definition machine :: "nat \<Rightarrow> nat list \<Rightarrow> nat" where
  "machine = foldl (\<lambda>s t. trans ! s ! t)"

lemma machine_simps [simp]:
  "machine s [] = s" "machine s (t # ts) = machine (trans ! s ! t) ts"
  "machine s (ts @ us) = machine (machine s ts) us"
  by (simp_all add: machine_def)

lemma eight: "(n :: nat) < 8 \<longleftrightarrow> n \<in> {0, 1, 2, 3, 4, 5, 6, 7}"
  by auto

lemma trans_WS: "s < 8 \<Longrightarrow> trans ! s ! tkWS = s"
  unfolding eight by (auto simp: trans_def tkWS_def)

lemma trans_less: "s < 8 \<Longrightarrow> t < 8 \<Longrightarrow> trans ! s ! t < 8"
  unfolding eight by (auto simp: trans_def)

lemma round_code: "completeRound z = Token t r \<Longrightarrow> t < 8"
  by (auto simp: completeRound_def wordCode_def complete_codes Let_def split: if_splits)

lemma completeLoop_machine:
  "s < 8 \<Longrightarrow> completeLoop z s \<longleftrightarrow> (case completeTokens z of None \<Rightarrow> False | Some ts \<Rightarrow> machine s ts = 1)"
proof (induction z s rule: completeLoop.induct)
  case (1 z s)
  show ?case
  proof (cases "z = []")
    case True
    then show ?thesis by (simp add: completeLoop.simps completeTokens.simps)
  next
    case False
    show ?thesis
    proof (cases "completeRound z")
      case (Token t r)
      note code = round_code [OF Token]
      have "completeLoop r (trans ! s ! t) \<longleftrightarrow>
          (case completeTokens r of None \<Rightarrow> False | Some ts \<Rightarrow> machine (trans ! s ! t) ts = 1)"
        using "1.IH" False Token trans_less [OF "1.prems" code] by blast
      then show ?thesis
        using False Token trans_WS [OF "1.prems"]
        by (simp add: completeLoop.simps [of z] completeTokens.simps [of z] split: option.split)
    qed (use False in \<open>simp_all add: completeLoop.simps [of z] completeTokens.simps [of z]\<close>)
  qed
qed

lemma tokens_codes: "completeTokens z = Some ts \<Longrightarrow> t \<in> set ts \<Longrightarrow> t < 8 \<and> t \<noteq> tkWS"
proof (induction z arbitrary: ts rule: completeTokens.induct)
  case (1 z)
  show ?case
  proof (cases "z = [] \<or> completeRound z = AtEnd \<or> completeRound z = Unclosed")
    case True
    then show ?thesis using "1.prems" by (auto simp: completeTokens.simps [of z] split: if_splits)
  next
    case False
    then obtain u r where r: "completeRound z = Token u r" by (cases "completeRound z") auto
    then obtain us where us: "completeTokens r = Some us" "ts = (if u = tkWS then us else u # us)"
      using "1.prems"(1) False by (auto simp: completeTokens.simps [of z])
    then show ?thesis
      using "1.IH" [of u r us] False r "1.prems"(2) round_code [OF r] by (auto split: if_splits)
  qed
qed

subsection \<open>What the machine accepts\<close>

definition codes :: "nat list \<Rightarrow> bool" where
  "codes ts \<longleftrightarrow> (\<forall>t\<in>set ts. t < 8 \<and> t \<noteq> tkWS)"

lemma codes_simps [simp]: "codes []" "codes (t # ts) \<longleftrightarrow> t < 8 \<and> t \<noteq> tkWS \<and> codes ts"
  "codes (ts @ us) \<longleftrightarrow> codes ts \<and> codes us"
  by (auto simp: codes_def)

lemma machine_less: "s < 8 \<Longrightarrow> codes ts \<Longrightarrow> machine s ts < 8"
  by (induction ts arbitrary: s) (auto simp: trans_less)

lemma to_start: "s < 8 \<Longrightarrow> t < 8 \<Longrightarrow> t \<noteq> tkWS \<Longrightarrow> trans ! s ! t = 1 \<Longrightarrow> t = tkSEMI"
  unfolding eight by (auto simp: trans_def complete_codes)

lemma accepted_ends_in_SEMI:
  assumes "machine 0 ts = 1" "codes ts"
  shows "ts \<noteq> [] \<and> last ts = tkSEMI"
proof (cases ts rule: rev_cases)
  case (snoc us t)
  then show ?thesis using assms to_start [OF machine_less [of 0 us], of t] by simp
qed (use assms in simp)

lemma plain_step: "s \<in> {0, 1, 2, 3} \<Longrightarrow> t < 8 \<Longrightarrow> t \<noteq> tkWS \<Longrightarrow> t \<noteq> tkCREATE \<Longrightarrow>
    trans ! s ! t \<in> {1, 2, 3} \<and> (trans ! s ! t = 1 \<longleftrightarrow> t = tkSEMI)"
  unfolding eight by (auto simp: trans_def complete_codes)

lemma plain_states: "s \<in> {0, 1, 2, 3} \<Longrightarrow> codes ts \<Longrightarrow> tkCREATE \<notin> set ts \<Longrightarrow> machine s ts \<in> {0, 1, 2, 3}"
proof (induction ts arbitrary: s)
  case (Cons t ts)
  then have "trans ! s ! t \<in> {0, 1, 2, 3}" using plain_step [of s t] by auto
  then show ?case using Cons by auto
qed simp

lemma plain_accepted:
  assumes "codes ts" "tkCREATE \<notin> set ts"
  shows "machine 0 ts = 1 \<longleftrightarrow> ts \<noteq> [] \<and> last ts = tkSEMI"
proof (cases ts rule: rev_cases)
  case (snoc us t)
  then show ?thesis using assms plain_states [of 0 us] plain_step [of "machine 0 us" t] by auto
qed simp

text \<open>The beginning of a trigger definition, and the end the machine waits for.\<close>

definition trigger_prefix :: "nat list \<Rightarrow> bool" where
  "trigger_prefix p \<longleftrightarrow> (\<exists>ex n. p = ex @ tkCREATE # replicate n tkTEMP @ [tkTRIGGER] \<and>
     (ex = [] \<or> (\<exists>k. ex = tkEXPLAIN # replicate k tkOTHER)))"

definition trigger_end :: "nat list" where
  "trigger_end = [tkSEMI, tkEND, tkSEMI]"

lemma machine_replicate: "trans ! s ! t = s \<Longrightarrow> machine s (replicate n t) = s"
  by (induction n) auto

lemma trigger_prefix_state: "trigger_prefix p \<Longrightarrow> machine 0 p = 5"
proof -
  have stay: "machine 3 (replicate k tkOTHER) = 3" "machine 4 (replicate n tkTEMP) = 4" for k n
    by (rule machine_replicate, simp add: trans_def complete_codes)+
  have steps: "trans ! 0 ! tkEXPLAIN = 3" "trans ! 3 ! tkCREATE = 4" "trans ! 0 ! tkCREATE = 4"
    "trans ! 4 ! tkTRIGGER = 5"
    by (simp_all add: trans_def complete_codes)
  assume "trigger_prefix p"
  then show ?thesis by (auto simp: trigger_prefix_def stay steps)
qed

lemma trigger_steps:
  "t < 8 \<Longrightarrow> t \<noteq> tkWS \<Longrightarrow> trans ! 5 ! t = (if t = tkSEMI then 6 else 5)"
  "t < 8 \<Longrightarrow> t \<noteq> tkWS \<Longrightarrow> trans ! 6 ! t = (if t = tkSEMI then 6 else if t = tkEND then 7 else 5)"
  "t < 8 \<Longrightarrow> t \<noteq> tkWS \<Longrightarrow> trans ! 7 ! t = (if t = tkSEMI then 1 else 5)"
  unfolding eight by (auto simp: trans_def complete_codes)

lemma trigger_body:
  assumes "codes b" "\<not> sublist trigger_end b"
  shows "machine 5 b \<in> {5, 6, 7} \<and> (machine 5 b = 6 \<longleftrightarrow> b \<noteq> [] \<and> last b = tkSEMI) \<and>
    (machine 5 b = 7 \<longleftrightarrow> (\<exists>u. b = u @ [tkSEMI, tkEND]))"
  using assms
proof (induction b rule: rev_induct)
  case Nil
  then show ?case by simp
next
  case (snoc t b)
  have no: "\<not> sublist trigger_end b" using snoc.prems(2) by (metis sublist_append)
  note IH = snoc.IH [OF _ no]
  have not7: "t \<noteq> tkSEMI" if seven: "machine 5 b = 7"
  proof
    assume "t = tkSEMI"
    moreover obtain u where "b = u @ [tkSEMI, tkEND]" using IH snoc.prems(1) seven by auto
    ultimately have "b @ [t] = u @ trigger_end @ []" by (simp add: trigger_end_def)
    then show False using snoc.prems(2) sublist_appendI [of trigger_end u "[]"] by simp
  qed
  have SEMI_END: "tkSEMI \<noteq> tkEND" by (simp add: complete_codes)
  have two: "(\<exists>u. b @ [t] = u @ [tkSEMI, tkEND]) \<longleftrightarrow> t = tkEND \<and> b \<noteq> [] \<and> last b = tkSEMI"
    by (cases b rule: rev_cases) auto
  have t: "t < 8" "t \<noteq> tkWS" "codes b" using snoc.prems(1) by simp_all
  from IH [OF t(3)] consider "machine 5 b = 5" | "machine 5 b = 6" | "machine 5 b = 7" by auto
  then show ?case
    by cases (use IH [OF t(3)] t not7 two SEMI_END in \<open>auto simp: trigger_steps\<close>)
qed

subsection \<open>Property\<close>

text \<open>
  Property C25.  When \<^verbatim>\<open>sqlite3_complete\<close> says a text is complete, its last token is a semicolon;
  without the word CREATE that is all it takes.  A text that begins like a trigger definition,
  possibly after EXPLAIN, is not complete before \<^verbatim>\<open>;END;\<close> is seen, and is complete when that comes
  for the first time.  A text with an unclosed quote, bracket or comment is never complete.
\<close>

theorem complete_finds_statement_end:
  assumes "NUL \<notin> set z"
  shows "case completeTokens z of
      None \<Rightarrow> \<not> sqlite3_complete z
    | Some ts \<Rightarrow>
        (sqlite3_complete z \<longrightarrow> ts \<noteq> [] \<and> last ts = tkSEMI) \<and>
        (tkCREATE \<notin> set ts \<longrightarrow> (sqlite3_complete z \<longleftrightarrow> ts \<noteq> [] \<and> last ts = tkSEMI)) \<and>
        (\<forall>p b. ts = p @ b \<longrightarrow> trigger_prefix p \<longrightarrow>
           (\<not> sublist trigger_end b \<longrightarrow> \<not> sqlite3_complete z) \<and>
           (\<forall>u. b = u @ trigger_end \<longrightarrow> \<not> sublist trigger_end (u @ [tkSEMI, tkEND]) \<longrightarrow> sqlite3_complete z))"
proof (cases "completeTokens z")
  case None
  then show ?thesis using completeLoop_machine [of 0 z] by (simp add: sqlite3_complete_def)
next
  case (Some ts)
  have run: "sqlite3_complete z \<longleftrightarrow> machine 0 ts = 1"
    using completeLoop_machine [of 0 z] Some by (simp add: sqlite3_complete_def)
  have codes: "codes ts" using tokens_codes [OF Some] by (simp add: codes_def)
  have "(\<not> sublist trigger_end b \<longrightarrow> \<not> sqlite3_complete z) \<and>
      (b = u @ trigger_end \<longrightarrow> \<not> sublist trigger_end (u @ [tkSEMI, tkEND]) \<longrightarrow> sqlite3_complete z)"
    if "ts = p @ b" "trigger_prefix p" for p b u
  proof -
    have state: "machine 0 ts = machine 5 b" using that trigger_prefix_state by simp
    have b: "codes b" using codes that(1) by simp
    have "machine 5 b \<noteq> 1" if "\<not> sublist trigger_end b" using trigger_body [OF b that] by auto
    moreover have "machine 5 b = 1" if "b = u @ trigger_end" "\<not> sublist trigger_end (u @ [tkSEMI, tkEND])"
    proof -
      have "codes (u @ [tkSEMI, tkEND])" using b that(1) by (simp add: trigger_end_def)
      then have "machine 5 (u @ [tkSEMI, tkEND]) = 7" using trigger_body that(2) by blast
      moreover have "b = (u @ [tkSEMI, tkEND]) @ [tkSEMI]" using that(1) by (simp add: trigger_end_def)
      ultimately show ?thesis by (simp only: machine_simps) (simp add: trans_def complete_codes)
    qed
    ultimately show ?thesis using run state by simp
  qed
  then have trigger: "\<forall>p b. ts = p @ b \<longrightarrow> trigger_prefix p \<longrightarrow>
      (\<not> sublist trigger_end b \<longrightarrow> \<not> sqlite3_complete z) \<and>
      (\<forall>u. b = u @ trigger_end \<longrightarrow> \<not> sublist trigger_end (u @ [tkSEMI, tkEND]) \<longrightarrow> sqlite3_complete z)"
    by blast
  show ?thesis
    unfolding Some option.case using trigger
    by (intro conjI) (use run accepted_ends_in_SEMI [OF _ codes] plain_accepted [OF codes] in blast)+
qed

theorem complete_finds_statement_end_witness:
  "\<not> sqlite3_complete ''select [a;'' \<and> sqlite3_complete ''create trigger;end;''"
proof -
  have no_nul: "NUL \<notin> set ''create trigger;end;''" by (simp add: NUL_def)
  have ts: "completeTokens ''create trigger;end;'' = Some ([tkCREATE, tkTRIGGER] @ [] @ trigger_end)"
    by code_simp
  have pre: "trigger_prefix [tkCREATE, tkTRIGGER]"
    unfolding trigger_prefix_def by (intro exI [of _ "[]"] exI [of _ 0]) simp
  have fresh: "\<not> sublist trigger_end ([] @ [tkSEMI, tkEND])"
    by (simp add: trigger_end_def complete_codes sublist_Cons_right)
  have whole: "sqlite3_complete ''create trigger;end;''"
    using complete_finds_statement_end [OF no_nul, unfolded ts option.case] pre fresh by blast
  have "completeTokens ''select [a;'' = None"
  proof -
    have "completeRound ''[a;'' = Unclosed" by (simp add: completeRound_def Let_def)
    then have c: "completeTokens ''[a;'' = None" by (simp add: completeTokens.simps)
    have "completeRound '' [a;'' = Token tkWS ''[a;''" by (simp add: completeRound_def Let_def)
    then have b: "completeTokens '' [a;'' = None" using c by (simp add: completeTokens.simps [of "'' [a;''"])
    have "scan IdChar ''select [a;'' 1 = 6"
      by (simp add: scan.simps char_at_def NUL_def ctype code_classes)
    then have "completeRound ''select [a;'' = Token tkOTHER '' [a;''"
      by (simp add: completeRound_def Let_def wordCode_def ctype code_classes del: One_nat_def)
    then show ?thesis using b by (simp add: completeTokens.simps [of "''select [a;''"])
  qed
  then show ?thesis using complete_finds_statement_end [of "''select [a;''"] whole by (simp add: NUL_def)
qed

end
