(* ===== verification/Utf.thy ===== *)
theory Utf
  imports CBase
begin

text \<open>
  The UTF-8 part of \<^verbatim>\<open>utf.c\<close> (in \<^verbatim>\<open>sqlite/3.8.11/sqlite3.c\<close>): reading a character, skipping one,
  counting them, and writing one (\<^verbatim>\<open>WRITE_UTF8\<close>).

  A text is the list of its bytes up to the terminating NUL; the pointer that a function moves is the
  list of the bytes that remain, and reading at the end gives 0.  Every byte sequence is read as some
  sequence of characters (\<^verbatim>\<open>chars\<close>), also one that is not well-formed; the lemmas show that reading,
  skipping and counting agree on it, and that what is written is read back.
\<close>

unbundle bit_operations_syntax

definition sqlite3Utf8Trans1 :: "u8 list" where
  "sqlite3Utf8Trans1 = [
    0x00, 0x01, 0x02, 0x03, 0x04, 0x05, 0x06, 0x07,
    0x08, 0x09, 0x0a, 0x0b, 0x0c, 0x0d, 0x0e, 0x0f,
    0x10, 0x11, 0x12, 0x13, 0x14, 0x15, 0x16, 0x17,
    0x18, 0x19, 0x1a, 0x1b, 0x1c, 0x1d, 0x1e, 0x1f,
    0x00, 0x01, 0x02, 0x03, 0x04, 0x05, 0x06, 0x07,
    0x08, 0x09, 0x0a, 0x0b, 0x0c, 0x0d, 0x0e, 0x0f,
    0x00, 0x01, 0x02, 0x03, 0x04, 0x05, 0x06, 0x07,
    0x00, 0x01, 0x02, 0x03, 0x00, 0x01, 0x00, 0x00]"

text \<open>The loop over the bytes \<^verbatim>\<open>10xxxxxx\<close> behind the first.\<close>

fun utf8Tail :: "u32 \<Rightarrow> u8 list \<Rightarrow> u32 \<times> u8 list" where
  "utf8Tail c [] = (c, [])"
| "utf8Tail c (b # pz) =
     (if b AND 0xc0 = 0x80 then utf8Tail (push_bit 6 c + (0x3f AND ucast b)) pz else (c, b # pz))"

definition sqlite3Utf8Read :: "u8 list \<Rightarrow> u32 \<times> u8 list" where
  "sqlite3Utf8Read pz =
     (case pz of
        [] \<Rightarrow> (0, [])
      | b # pz \<Rightarrow>
          if 0xc0 \<le> b
          then case utf8Tail (ucast (sqlite3Utf8Trans1 ! unat (b - 0xc0))) pz of (c, pz) \<Rightarrow>
            (if c < 0x80 \<or> c AND 0xFFFFF800 = 0xD800 \<or> c AND 0xFFFFFFFE = 0xFFFE then 0xFFFD else c, pz)
          else (ucast b, pz))"

fun skipTail :: "u8 list \<Rightarrow> u8 list" where
  "skipTail [] = []"
| "skipTail (b # z) = (if b AND 0xc0 = 0x80 then skipTail z else b # z)"

definition SQLITE_SKIP_UTF8 :: "u8 list \<Rightarrow> u8 list" where
  "SQLITE_SKIP_UTF8 z = (case z of [] \<Rightarrow> [] | b # z \<Rightarrow> if 0xc0 \<le> b then skipTail z else z)"

lemma skipTail_utf8Tail: "snd (utf8Tail c z) = skipTail z"
  by (induction c z rule: utf8Tail.induct) auto

lemma skip_is_read: "snd (sqlite3Utf8Read z) = SQLITE_SKIP_UTF8 z"
  by (auto simp: sqlite3Utf8Read_def SQLITE_SKIP_UTF8_def split: list.split prod.split
      dest: arg_cong [of "utf8Tail _ _" _ snd, unfolded skipTail_utf8Tail])

lemma skipTail_suffix: "\<exists>xs. z = xs @ skipTail z"
  by (induction z) (auto intro: exI [of _ "_ # _"])

lemma length_skipTail: "length (skipTail z) \<le> length z"
  by (induction z) auto

lemma length_skip: "z \<noteq> [] \<Longrightarrow> length (SQLITE_SKIP_UTF8 z) < length z"
  using length_skipTail by (cases z) (auto simp: SQLITE_SKIP_UTF8_def less_Suc_eq_le)

lemma length_skip_Cons [simp]: "length (SQLITE_SKIP_UTF8 (b # z)) < Suc (length z)"
  using length_skip [of "b # z"] by simp

lemma length_read: "z \<noteq> [] \<Longrightarrow> length (snd (sqlite3Utf8Read z)) < length z"
  by (simp add: skip_is_read length_skip)

lemma read_shrinks:
  "sqlite3Utf8Read z = (c, z') \<Longrightarrow> z \<noteq> [] \<Longrightarrow> length z' < length z"
  "(c, z') = sqlite3Utf8Read z \<Longrightarrow> z \<noteq> [] \<Longrightarrow> length z' < length z"
  using length_read [of z] by (simp_all, metis snd_conv)

lemma length_read_le: "length (snd (sqlite3Utf8Read z)) \<le> length z"
  using length_read [of z] by (cases "z = []") (simp_all add: sqlite3Utf8Read_def)

lemma read_le: "(c, z') = sqlite3Utf8Read z \<Longrightarrow> length z' \<le> length z"
  using length_read_le [of z] by (metis snd_conv)

lemma read_lengths:
  "(c, z') = sqlite3Utf8Read z \<Longrightarrow> length z' \<le> length z \<and> (z \<noteq> [] \<longrightarrow> length z' < length z)"
  "sqlite3Utf8Read z = (c, z') \<Longrightarrow> length z' \<le> length z \<and> (z \<noteq> [] \<longrightarrow> length z' < length z)"
  using read_le read_shrinks by (blast, metis read_le read_shrinks(1))

lemma read_Nil [simp]: "sqlite3Utf8Read [] = (0, [])"
  by (simp add: sqlite3Utf8Read_def)

lemma skip_Nil [simp]: "SQLITE_SKIP_UTF8 [] = []"
  by (simp add: SQLITE_SKIP_UTF8_def)

text \<open>
  Counting: with a negative \<^verbatim>\<open>nByte\<close> to the end of the text, else up to the byte \<^verbatim>\<open>zTerm\<close>; the
  pointer is then compared by what is left before it.
\<close>

function utf8CharLenLoop :: "u8 list \<Rightarrow> int \<Rightarrow> int \<Rightarrow> int" where
  "utf8CharLenLoop z left r =
     (if z \<noteq> [] \<and> 0 < left
      then utf8CharLenLoop (SQLITE_SKIP_UTF8 z) (left - int (length z - length (SQLITE_SKIP_UTF8 z))) (r + 1)
      else r)"
  by pat_completeness auto
termination by (relation "measure (\<lambda>(z, _). length z)") (auto simp: length_skip)

declare utf8CharLenLoop.simps [simp del]

definition sqlite3Utf8CharLen :: "u8 list \<Rightarrow> int \<Rightarrow> int" where
  "sqlite3Utf8CharLen zIn nByte =
     utf8CharLenLoop zIn (if 0 \<le> nByte then nByte else int (length zIn)) 0"

text \<open>\<^verbatim>\<open>WRITE_UTF8\<close>: the bytes it appends.\<close>

definition WRITE_UTF8 :: "u32 \<Rightarrow> u8 list" where
  "WRITE_UTF8 c =
     (if c < 0x80 then [ucast (c AND 0xFF)]
      else if c < 0x800 then [0xC0 + ucast (drop_bit 6 c AND 0x1F), 0x80 + ucast (c AND 0x3F)]
      else if c < 0x10000 then
        [0xE0 + ucast (drop_bit 12 c AND 0x0F), 0x80 + ucast (drop_bit 6 c AND 0x3F), 0x80 + ucast (c AND 0x3F)]
      else
        [0xF0 + ucast (drop_bit 18 c AND 0x07), 0x80 + ucast (drop_bit 12 c AND 0x3F),
         0x80 + ucast (drop_bit 6 c AND 0x3F), 0x80 + ucast (c AND 0x3F)])"

subsection \<open>The characters of a text\<close>

function chars :: "u8 list \<Rightarrow> u32 list" where
  "chars [] = []"
| "chars (b # z) = fst (sqlite3Utf8Read (b # z)) # chars (snd (sqlite3Utf8Read (b # z)))"
  by pat_completeness auto
termination using length_read by (relation "measure length") fastforce+

declare chars.simps(2) [simp del]

lemma chars_read: "z \<noteq> [] \<Longrightarrow> chars z = fst (sqlite3Utf8Read z) # chars (snd (sqlite3Utf8Read z))"
  by (cases z) (auto simp: chars.simps(2))

lemma chars_eq_Nil [simp]: "chars z = [] \<longleftrightarrow> z = []"
  by (cases z) (auto simp: chars.simps(2))

lemma chars_skip: "chars (SQLITE_SKIP_UTF8 z) = tl (chars z)"
  by (cases "z = []") (simp_all add: chars_read [of z] skip_is_read)

lemma utf8CharLenLoop_all: "utf8CharLenLoop z (int (length z)) r = r + int (length (chars z))"
proof (induction "length z" arbitrary: z r rule: less_induct)
  case less
  show ?case
  proof (cases "z = []")
    case False
    then have "length (SQLITE_SKIP_UTF8 z) < length z" by (rule length_skip)
    then show ?thesis using False less [of "SQLITE_SKIP_UTF8 z" "r + 1"]
      by (subst utf8CharLenLoop.simps) (simp add: chars_read [of z] skip_is_read of_nat_diff)
  qed (simp add: utf8CharLenLoop.simps)
qed

lemma charLen_chars: "sqlite3Utf8CharLen z (- 1) = int (length (chars z))"
  by (simp add: sqlite3Utf8CharLen_def utf8CharLenLoop_all)

lemma unat_ucast_u8 [simp]: "unat (ucast (b :: u8) :: u32) = unat b"
proof -
  have "unat b < 2 ^ 8" using unsigned_less [of b] by simp
  then show ?thesis by (simp add: unsigned_ucast_eq take_bit_nat_eq_self)
qed

text \<open>A text without NUL has no character 0, so reading ends exactly at its end.\<close>

lemma read_not_0: "0 \<notin> set z \<Longrightarrow> fst (sqlite3Utf8Read z) = 0 \<longleftrightarrow> z = []"
proof (cases z)
  case (Cons b y)
  assume z: "0 \<notin> set z"
  show ?thesis
  proof (cases "0xc0 \<le> b")
    case True
    then show ?thesis using Cons
      by (auto simp: sqlite3Utf8Read_def split: prod.split)
  next
    case False
    have "(ucast b :: u32) = 0 \<longleftrightarrow> b = 0" by (metis unat_eq_zero unat_ucast_u8)
    then show ?thesis using Cons False z by (auto simp: sqlite3Utf8Read_def)
  qed
qed simp

lemma set_skip: "set (SQLITE_SKIP_UTF8 z) \<subseteq> set z"
proof -
  have "set (skipTail y) \<subseteq> set y" for y by (induction y) auto
  then show ?thesis by (cases z) (auto simp: SQLITE_SKIP_UTF8_def)
qed

lemma text_read: "0 \<notin> set z \<Longrightarrow> 0 \<notin> set (snd (sqlite3Utf8Read z))"
  using set_skip by (auto simp: skip_is_read)

lemma chars_not_0: "0 \<notin> set z \<Longrightarrow> 0 \<notin> set (chars z)"
proof (induction z rule: chars.induct)
  case (2 b z)
  then show ?case using read_not_0 [of "b # z"] text_read [of "b # z"]
    by (auto simp: chars.simps(2))
qed simp

subsection \<open>Single bytes\<close>

lemma ucast_u8_u32_less: "(ucast (b :: u8) :: u32) < 0x80 \<longleftrightarrow> b < 0x80"
  by (simp add: word_less_nat_alt)

lemma read_ascii: "b < 0x80 \<Longrightarrow> sqlite3Utf8Read (b # z) = (ucast b, z)"
  by (auto simp: sqlite3Utf8Read_def word_le_nat_alt word_less_nat_alt)

lemma chars_ascii: "b < 0x80 \<Longrightarrow> chars (b # z) = ucast b # chars z"
  by (simp add: chars.simps(2) read_ascii)

lemma read_small:
  assumes "fst (sqlite3Utf8Read (b # z)) < 0x80"
  shows "b < 0x80"
proof (cases "0xc0 \<le> b")
  case True
  then show ?thesis using assms by (auto simp: sqlite3Utf8Read_def split: prod.splits if_splits)
next
  case False
  then show ?thesis using assms by (simp add: sqlite3Utf8Read_def ucast_u8_u32_less)
qed

subsection \<open>What is written is read back\<close>

text \<open>The characters that can be written: neither a surrogate, nor above 0x10FFFF, nor 0xFFFE and 0xFFFF.\<close>

definition scalar :: "u32 \<Rightarrow> bool" where
  "scalar c \<longleftrightarrow> c < 0x110000 \<and> c AND 0xFFFFF800 \<noteq> 0xD800 \<and> c AND 0xFFFFFFFE \<noteq> 0xFFFE"

definition unwritten :: "u8 list \<Rightarrow> bool" where
  "unwritten z \<longleftrightarrow> (case z of [] \<Rightarrow> True | b # _ \<Rightarrow> b AND 0xc0 \<noteq> 0x80)"

lemma utf8Tail_stop: "unwritten z \<Longrightarrow> utf8Tail c z = (c, z)"
  by (cases z) (auto simp: unwritten_def)

lemma tail_byte:
  fixes x :: u32
  defines "b \<equiv> 0x80 + ucast (x AND 0x3F) :: u8"
  shows "b AND 0xc0 = 0x80" "0x3F AND (ucast b :: u32) = x AND 0x3F"
proof -
  have all: "\<forall>n \<in> set [0..<64]. (0x80 + of_nat n :: u8) AND 0xc0 = 0x80 \<and>
      0x3F AND (ucast (0x80 + of_nat n :: u8) :: u32) = of_nat n"
    by code_simp
  have "x AND 0x3F \<le> 0x3F" by (rule word_and_le1)
  then have "unat (x AND 0x3F) < 64" by (simp add: word_le_nat_alt)
  moreover have "b = 0x80 + of_nat (unat (x AND 0x3F))" by (simp add: b_def)
  ultimately show "b AND 0xc0 = 0x80" "0x3F AND (ucast b :: u32) = x AND 0x3F"
    using all [rule_format, of "unat (x AND 0x3F)"] by (auto simp: b_def)
qed

lemma first_byte:
  fixes x :: u32
  shows "x < 0x20 \<Longrightarrow> 0xC0 \<le> (0xC0 + ucast x :: u8) \<and>
      ucast (sqlite3Utf8Trans1 ! unat (0xC0 + ucast x - 0xC0 :: u8)) = x"
    and "x < 0x10 \<Longrightarrow> 0xC0 \<le> (0xE0 + ucast x :: u8) \<and>
      ucast (sqlite3Utf8Trans1 ! unat (0xE0 + ucast x - 0xC0 :: u8)) = x"
    and "x < 0x08 \<Longrightarrow> 0xC0 \<le> (0xF0 + ucast x :: u8) \<and>
      ucast (sqlite3Utf8Trans1 ! unat (0xF0 + ucast x - 0xC0 :: u8)) = x"
proof -
  have all: "\<forall>n \<in> set [0..<32]. 0xC0 \<le> (0xC0 + of_nat n :: u8) \<and>
      ucast (sqlite3Utf8Trans1 ! unat (0xC0 + of_nat n - 0xC0 :: u8)) = (of_nat n :: u32)"
    "\<forall>n \<in> set [0..<16]. 0xC0 \<le> (0xE0 + of_nat n :: u8) \<and>
      ucast (sqlite3Utf8Trans1 ! unat (0xE0 + of_nat n - 0xC0 :: u8)) = (of_nat n :: u32)"
    "\<forall>n \<in> set [0..<8]. 0xC0 \<le> (0xF0 + of_nat n :: u8) \<and>
      ucast (sqlite3Utf8Trans1 ! unat (0xF0 + of_nat n - 0xC0 :: u8)) = (of_nat n :: u32)"
    by code_simp+
  have x: "ucast x = (of_nat (unat x) :: u8)" "x = of_nat (unat x)" by simp_all
  show "x < 0x20 \<Longrightarrow> 0xC0 \<le> (0xC0 + ucast x :: u8) \<and>
      ucast (sqlite3Utf8Trans1 ! unat (0xC0 + ucast x - 0xC0 :: u8)) = x"
    using all(1) [rule_format, of "unat x"] by (simp add: word_less_nat_alt)
  show "x < 0x10 \<Longrightarrow> 0xC0 \<le> (0xE0 + ucast x :: u8) \<and>
      ucast (sqlite3Utf8Trans1 ! unat (0xE0 + ucast x - 0xC0 :: u8)) = x"
    using all(2) [rule_format, of "unat x"] by (simp add: word_less_nat_alt)
  show "x < 0x08 \<Longrightarrow> 0xC0 \<le> (0xF0 + ucast x :: u8) \<and>
      ucast (sqlite3Utf8Trans1 ! unat (0xF0 + ucast x - 0xC0 :: u8)) = x"
    using all(3) [rule_format, of "unat x"] by (simp add: word_less_nat_alt)
qed

lemma six_bits: "push_bit 6 (drop_bit 6 c) + (c AND 0x3F) = c" for c :: u32
  using bits_ident [of 6 c] by (simp add: take_bit_eq_mask mask_numeral mask_Suc_exp)

lemma and_low:
  fixes x :: u32
  shows "x < 0x20 \<Longrightarrow> x AND 0x1F = x" "x < 0x10 \<Longrightarrow> x AND 0x0F = x" "x < 0x08 \<Longrightarrow> x AND 0x07 = x"
proof -
  have m: "x AND 0x1F = take_bit 5 x" "x AND 0x0F = take_bit 4 x" "x AND 0x07 = take_bit 3 x"
    by (simp_all add: take_bit_eq_mask mask_numeral mask_Suc_exp)
  show "x < 0x20 \<Longrightarrow> x AND 0x1F = x" "x < 0x10 \<Longrightarrow> x AND 0x0F = x" "x < 0x08 \<Longrightarrow> x AND 0x07 = x"
    unfolding m by (simp_all add: word_less_nat_alt unsigned_take_bit_eq take_bit_nat_eq_self
        word_unat_eq_iff)
qed

lemma unat_and_0xFF: "unat (x AND 0xFF) = unat x mod 256" for x :: u32
proof -
  have "x AND 0xFF = take_bit 8 x" by (simp add: take_bit_eq_mask mask_numeral mask_Suc_exp)
  then show ?thesis by (simp add: unsigned_take_bit_eq take_bit_eq_mod unat_mod)
qed

lemma drop_small:
  fixes c :: u32
  shows "c < 0x800 \<Longrightarrow> drop_bit 6 c < 0x20" "c < 0x10000 \<Longrightarrow> drop_bit 12 c < 0x10"
    "c < 0x110000 \<Longrightarrow> drop_bit 18 c < 0x08"
  by (simp_all add: word_less_nat_alt drop_bit_eq_div unat_div less_mult_imp_div_less)

lemma drop_6:
  fixes c :: u32
  shows "drop_bit 12 c = drop_bit 6 (drop_bit 6 c)" "drop_bit 18 c = drop_bit 6 (drop_bit 12 c)"
  by simp_all

lemma read_lead:
  assumes "0xC0 \<le> b" "ucast (sqlite3Utf8Trans1 ! unat (b - 0xC0)) = x" "utf8Tail x y = (c, z)"
    "scalar c" "\<not> c < 0x80"
  shows "sqlite3Utf8Read (b # y) = (c, z)"
  using assms by (simp add: sqlite3Utf8Read_def scalar_def)

lemma utf8Tail_byte:
  "utf8Tail a ((0x80 + ucast (x AND 0x3F)) # y) = utf8Tail (push_bit 6 a + (x AND 0x3F)) y"
  by (simp add: tail_byte)

lemma read_written:
  assumes "scalar c" "unwritten z"
  shows "sqlite3Utf8Read (WRITE_UTF8 c @ z) = (c, z)"
proof -
  note tail = utf8Tail_byte six_bits utf8Tail_stop [OF assms(2)]
  have "c < 0x110000" using assms(1) by (simp add: scalar_def)
  then consider "c < 0x80" | "\<not> c < 0x80" "c < 0x800" | "\<not> c < 0x80" "\<not> c < 0x800" "c < 0x10000"
    | "\<not> c < 0x80" "\<not> c < 0x800" "\<not> c < 0x10000" "c < 0x110000"
    by blast
  then show ?thesis
  proof cases
    case 1
    let ?b = "ucast (c AND 0xFF) :: u8"
    have "unat (c AND 0xFF) = unat c" using 1
      by (simp add: unat_and_0xFF word_less_nat_alt)
    then have c: "c AND 0xFF = c" by (rule word_unat_eq_iff [THEN iffD2])
    have "unat ?b = unat c" using 1
      by (simp add: c word_less_nat_alt unsigned_ucast_eq take_bit_nat_eq_self)
    then have "?b < 0x80" "ucast ?b = c" using 1
      by (simp_all add: word_less_nat_alt word_unat_eq_iff)
    then show ?thesis using 1 by (simp add: WRITE_UTF8_def read_ascii)
  next
    case 2
    note d = drop_small(1) [OF 2(2)]
    have "sqlite3Utf8Read ((0xC0 + ucast (drop_bit 6 c)) # (0x80 + ucast (c AND 0x3F)) # z) = (c, z)"
      by (rule read_lead [OF conjunct1 conjunct2, OF first_byte(1) [OF d] first_byte(1) [OF d]])
        (simp_all only: tail assms 2 not_False_eq_True)
    then show ?thesis using 2 by (simp add: WRITE_UTF8_def and_low(1) [OF d])
  next
    case 3
    note d = drop_small(2) [OF 3(3)]
    have "sqlite3Utf8Read ((0xE0 + ucast (drop_bit 12 c)) # (0x80 + ucast (drop_bit 6 c AND 0x3F)) #
        (0x80 + ucast (c AND 0x3F)) # z) = (c, z)"
      by (rule read_lead [OF conjunct1 conjunct2, OF first_byte(2) [OF d] first_byte(2) [OF d]])
        (simp_all only: tail drop_6 assms 3 not_False_eq_True)
    then show ?thesis using 3 by (simp add: WRITE_UTF8_def and_low(2) [OF d])
  next
    case 4
    note d = drop_small(3) [OF 4(4)]
    have "sqlite3Utf8Read ((0xF0 + ucast (drop_bit 18 c)) # (0x80 + ucast (drop_bit 12 c AND 0x3F)) #
        (0x80 + ucast (drop_bit 6 c AND 0x3F)) # (0x80 + ucast (c AND 0x3F)) # z) = (c, z)"
      by (rule read_lead [OF conjunct1 conjunct2, OF first_byte(3) [OF d] first_byte(3) [OF d]])
        (simp_all only: tail drop_6 assms 4 not_False_eq_True)
    then show ?thesis using 4 by (simp add: WRITE_UTF8_def and_low(3) [OF d])
  qed
qed

lemma lead_not_tail:
  fixes b :: u8
  assumes "b < 0x80 \<or> 0xC0 \<le> b"
  shows "b AND 0xC0 \<noteq> 0x80"
proof -
  have "\<forall>n \<in> set [0..<256]. n < 128 \<or> 192 \<le> n \<longrightarrow> (of_nat n :: u8) AND 0xC0 \<noteq> 0x80"
    by code_simp
  moreover have "unat b < 256" using unsigned_less [of b] by simp
  moreover have "unat b < 128 \<or> 192 \<le> unat b" using assms by (simp add: word_less_nat_alt word_le_nat_alt)
  ultimately have "(of_nat (unat b) :: u8) AND 0xC0 \<noteq> 0x80" by fastforce
  then show ?thesis by simp
qed

lemma WRITE_UTF8_Nil [simp]: "WRITE_UTF8 c \<noteq> []"
  by (simp add: WRITE_UTF8_def)

lemma unwritten_WRITE:
  assumes "scalar c"
  shows "unwritten (WRITE_UTF8 c @ z)"
proof -
  obtain b y where w: "WRITE_UTF8 c = b # y" using WRITE_UTF8_Nil [of c] by (cases "WRITE_UTF8 c") auto
  have "b AND 0xC0 \<noteq> 0x80"
  proof
    assume b: "b AND 0xC0 = 0x80"
    then have "\<not> 0xC0 \<le> b" "\<not> b < 0x80" using lead_not_tail by auto
    then have "chars (b # y) = ucast b # chars y" by (simp add: chars.simps(2) sqlite3Utf8Read_def)
    moreover have "chars (b # y) = [c]" using read_written [OF assms, of "[]"]
      by (simp add: w chars.simps(2) unwritten_def)
    ultimately have "c = ucast b" "chars y = []" by simp_all
    then have "c = ucast b" "y = []" by simp_all
    then have "\<not> c < 0x80" "WRITE_UTF8 c = [b]"
      using \<open>\<not> b < 0x80\<close> w by (simp_all add: ucast_u8_u32_less)
    then show False by (simp add: WRITE_UTF8_def split: if_splits)
  qed
  then show ?thesis by (simp add: w unwritten_def)
qed

lemma chars_written:
  "\<forall>c \<in> set cs. scalar c \<Longrightarrow> chars (concat (map WRITE_UTF8 cs)) = cs"
proof (induction cs)
  case (Cons c cs)
  have "unwritten (concat (map WRITE_UTF8 cs))"
    using Cons.prems by (cases cs) (simp_all add: unwritten_WRITE, simp add: unwritten_def)
  then show ?case using Cons read_written [of c "concat (map WRITE_UTF8 cs)"]
    by (simp add: chars_read)
qed simp

end
