(* ===== verification/Like.thy ===== *)
theory Like
  imports Utf Ctype
begin

text \<open>
  Pattern matching of \<^verbatim>\<open>func.c\<close> (in \<^verbatim>\<open>sqlite/3.8.11/sqlite3.c\<close>): \<^verbatim>\<open>patternCompare\<close>, the engine of
  \<^verbatim>\<open>LIKE\<close>, \<^verbatim>\<open>GLOB\<close> and \<^verbatim>\<open>sqlite3_strglob\<close>.  The three search loops behind a wildcard are
  functions of their own, mutually recursive with \<^verbatim>\<open>patternCompare\<close>.

  The meaning of a pattern is given separately: its characters are parsed into a list of items, and
  a list of items matches a list of characters (\<^verbatim>\<open>matches\<close>), with no search order.  The code
  computes that meaning, but for two kinds of patterns, which have a theorem of their own.
\<close>

unbundle bit_operations_syntax

record compareInfo =
  matchAll :: u32
  matchOne :: u32
  matchSet :: u32
  noCase :: bool

definition globInfo :: compareInfo where
  "globInfo = \<lparr>matchAll = 0x2A, matchOne = 0x3F, matchSet = 0x5B, noCase = False\<rparr>"

definition likeInfoNorm :: compareInfo where
  "likeInfoNorm = \<lparr>matchAll = 0x25, matchOne = 0x5F, matchSet = 0, noCase = True\<rparr>"

definition likeInfoAlt :: compareInfo where
  "likeInfoAlt = \<lparr>matchAll = 0x25, matchOne = 0x5F, matchSet = 0, noCase = False\<rparr>"

definition lower32 :: "u32 \<Rightarrow> u32" where
  "lower32 c = of_nat (sqlite3Tolower (char_of (unat c)))"

definition upper32 :: "u32 \<Rightarrow> u32" where
  "upper32 c = of_nat (sqlite3Toupper (char_of (unat c)))"

definition matchOther :: "compareInfo \<Rightarrow> u32 \<Rightarrow> u32" where
  "matchOther I esc = (if esc \<noteq> 0 then esc else matchSet I)"

text \<open>
  Skipping wildcards behind a \<^verbatim>\<open>matchAll\<close>: the pointer before the character that ends the run,
  the character, and the pointers into the pattern and the text; \<^verbatim>\<open>None\<close> is \<^verbatim>\<open>return 0\<close>.
\<close>

function skipWildcards ::
  "compareInfo \<Rightarrow> u8 list \<Rightarrow> u8 list \<Rightarrow> (u8 list \<times> u32 \<times> u8 list \<times> u8 list) option" where
  "skipWildcards I p s =
     (let (c, p') = sqlite3Utf8Read p
      in if p \<noteq> [] \<and> c = matchAll I then skipWildcards I p' s
         else if p \<noteq> [] \<and> c = matchOne I
         then (let (d, s') = sqlite3Utf8Read s in if d = 0 then None else skipWildcards I p' s')
         else Some (p, c, p', s))"
  by pat_completeness auto
termination
  by (relation "measure (\<lambda>(I, p, s). length p)") (auto dest: read_shrinks)

declare skipWildcards.simps [simp del]

text \<open>A set in brackets: whether the character \<^verbatim>\<open>c\<close> was seen, the last \<^verbatim>\<open>c2\<close>, and the pointer.\<close>

function setLoop :: "u32 \<Rightarrow> u32 \<Rightarrow> u32 \<Rightarrow> bool \<Rightarrow> u8 list \<Rightarrow> bool \<times> u32 \<times> u8 list" where
  "setLoop c c2 prior_c seen p =
     (if c2 \<noteq> 0 \<and> c2 \<noteq> 0x5D
      then if c2 = 0x2D \<and> p \<noteq> [] \<and> p ! 0 \<noteq> 0x5D \<and> 0 < prior_c
           then (let (c2, p) = sqlite3Utf8Read p;
                   seen = (seen \<or> prior_c \<le> c \<and> c \<le> c2);
                   (c2, p) = sqlite3Utf8Read p
                 in setLoop c c2 0 seen p)
           else (let seen = (seen \<or> c = c2); (c3, p) = sqlite3Utf8Read p
                 in setLoop c c3 c2 seen p)
      else (seen, c2, p))"
  by pat_completeness auto
termination
proof (relation "measures [\<lambda>(c, c2, prior_c, seen, p). length p, \<lambda>(c, c2, prior_c, seen, p). if c2 = 0 then 0 else 1]", goal_cases)
  case 1
  then show ?case by simp
next
  case (2 c c2 prior_c seen p x xa y xb xc xd ya)
  then have "length y < length p" "length ya \<le> length y" using read_shrinks read_le by auto
  then show ?case by simp
next
  case (3 c c2 prior_c seen p x xa y xb)
  then show ?case by (cases "p = []") (auto dest!: read_shrinks)
qed

declare setLoop.simps [simp del]

lemma skipWildcards_shrinks:
  "skipWildcards I p s = Some (p0, c, p', s') \<Longrightarrow>
     length p0 \<le> length p \<and> length p' \<le> length p0 \<and> length s' \<le> length s"
proof (induction I p s rule: skipWildcards.induct)
  case (1 I p s)
  show ?case using "1.prems" "1.IH"
    by (subst (asm) skipWildcards.simps)
      (fastforce split: prod.splits if_splits dest: sym read_le)
qed

lemma setLoop_shrinks: "setLoop c c2 prior_c seen p = (seen', c3, p') \<Longrightarrow> length p' \<le> length p"
proof (induction c c2 prior_c seen p rule: setLoop.induct)
  case (1 c c2 prior_c seen p)
  show ?case using "1.prems" "1.IH"
    by (subst (asm) setLoop.simps)
      (fastforce split: prod.splits if_splits dest: sym read_le)
qed

definition matchBrackets :: "u8 list \<Rightarrow> u8 list \<Rightarrow> (u8 list \<times> u8 list) option" where
  "matchBrackets p s =
     (let (c, s) = sqlite3Utf8Read s
      in if c = 0 then None
         else let (c2, p) = sqlite3Utf8Read p;
                invert = (c2 = 0x5E);
                (c2, p) = (if invert then sqlite3Utf8Read p else (c2, p));
                seen = (c2 = 0x5D \<and> c = 0x5D);
                (c2, p) = (if c2 = 0x5D then sqlite3Utf8Read p else (c2, p));
                (seen, c2, p) = setLoop c c2 0 seen p
              in if c2 = 0 \<or> (seen = invert) then None else Some (p, s))"

lemma matchBrackets_shrinks:
  "matchBrackets p s = Some (p', s') \<Longrightarrow> length p' \<le> length p"
  by (auto simp: matchBrackets_def Let_def split: prod.splits if_splits dest!: read_lengths setLoop_shrinks)

text \<open>
  \<^verbatim>\<open>patternCompare\<close> with its loop variable \<^verbatim>\<open>zEscaped\<close>; pointers into the pattern are compared as
  what remains of it.  \<^verbatim>\<open>bracketSearch\<close>, \<^verbatim>\<open>byteSearch\<close> and \<^verbatim>\<open>charSearch\<close> are the loops that look for the
  place where the rest of the pattern matches.
\<close>

function patternLoop :: "compareInfo \<Rightarrow> u32 \<Rightarrow> u8 list option \<Rightarrow> u8 list \<Rightarrow> u8 list \<Rightarrow> bool"
  and bracketSearch :: "compareInfo \<Rightarrow> u32 \<Rightarrow> u8 list \<Rightarrow> u8 list \<Rightarrow> bool"
  and byteSearch :: "compareInfo \<Rightarrow> u32 \<Rightarrow> u32 \<Rightarrow> u32 \<Rightarrow> u8 list \<Rightarrow> u8 list \<Rightarrow> bool"
  and charSearch :: "compareInfo \<Rightarrow> u32 \<Rightarrow> u32 \<Rightarrow> u8 list \<Rightarrow> u8 list \<Rightarrow> bool"
where
  "patternLoop I esc zEscaped zPattern s =
     (let (c, p) = sqlite3Utf8Read zPattern
      in if zPattern = [] \<or> c = 0 then s = []
         else if c = matchAll I then
           (case skipWildcards I p s of
              None \<Rightarrow> False
            | Some (p0, c, p, s) \<Rightarrow>
                if c = 0 then True
                else if c = matchOther I esc \<and> esc = 0 then bracketSearch I esc p0 s
                else (let (c, p) = (if c = matchOther I esc then sqlite3Utf8Read p else (c, p))
                      in if c = 0 then False
                         else if c \<le> 0x80
                         then if noCase I then byteSearch I esc (lower32 c) (upper32 c) p s
                              else byteSearch I esc c c p s
                         else charSearch I esc c p s))
         else if c = matchOther I esc \<and> esc = 0 then
           (case matchBrackets p s of None \<Rightarrow> False | Some (p, s) \<Rightarrow> patternLoop I esc zEscaped p s)
         else (let escaped = (c = matchOther I esc);
                 (c, p) = (if escaped then sqlite3Utf8Read p else (c, p));
                 zEscaped = (if escaped then Some p else zEscaped)
               in if c = 0 then False
                  else let (c2, s') = sqlite3Utf8Read s
                    in if c = c2 then patternLoop I esc zEscaped p s'
                       else if noCase I \<and> c < 0x80 \<and> c2 < 0x80 \<and> lower32 c = lower32 c2
                       then patternLoop I esc zEscaped p s'
                       else if c = matchOne I \<and> Some p \<noteq> zEscaped \<and> c2 \<noteq> 0
                       then patternLoop I esc zEscaped p s'
                       else False))"
| "bracketSearch I esc p [] = False"
| "bracketSearch I esc p (b # s) =
     (if patternLoop I esc None p (b # s) then True else bracketSearch I esc p (SQLITE_SKIP_UTF8 (b # s)))"
| "byteSearch I esc c cx p [] = False"
| "byteSearch I esc c cx p (b # s) =
     (if (ucast b = c \<or> ucast b = cx) \<and> patternLoop I esc None p s then True
      else byteSearch I esc c cx p s)"
| "charSearch I esc c p s =
     (let (c2, s') = sqlite3Utf8Read s
      in if s = [] \<or> c2 = 0 then False
         else if c2 = c \<and> patternLoop I esc None p s' then True
         else charSearch I esc c p s')"
  by pat_completeness auto
termination
proof (relation "measures [\<lambda>x. case x of
      Inl (Inl (I, esc, zEscaped, p, s)) \<Rightarrow> length p | Inl (Inr (I, esc, p, s)) \<Rightarrow> length p
    | Inr (Inl (I, esc, c, cx, p, s)) \<Rightarrow> length p | Inr (Inr (I, esc, c, p, s)) \<Rightarrow> length p,
    \<lambda>x. case x of
      Inl (Inl (I, esc, zEscaped, p, s)) \<Rightarrow> length s | Inl (Inr (I, esc, p, s)) \<Rightarrow> length s
    | Inr (Inl (I, esc, c, cx, p, s)) \<Rightarrow> length s | Inr (Inr (I, esc, c, p, s)) \<Rightarrow> length s,
    \<lambda>x. case x of Inl (Inl _) \<Rightarrow> 0 | _ \<Rightarrow> 1]", goal_cases)
  case 1
  then show ?case by simp
qed (auto dest!: read_lengths skipWildcards_shrinks matchBrackets_shrinks split: if_splits simp: length_skip)

declare patternLoop.simps [simp del] charSearch.simps [simp del]

definition patternCompare :: "u8 list \<Rightarrow> u8 list \<Rightarrow> compareInfo \<Rightarrow> u32 \<Rightarrow> bool" where
  "patternCompare zPattern zString pInfo esc = patternLoop pInfo esc None zPattern zString"

definition sqlite3_strglob :: "u8 list \<Rightarrow> u8 list \<Rightarrow> int" where
  "sqlite3_strglob zGlobPattern zString =
     (if patternCompare zGlobPattern zString globInfo 0 then 0 else 1)"

subsection \<open>The meaning of patterns\<close>

datatype item = Seq | One | Lit u32 | Brackets bool "(u32 \<times> u32) list" | Never

text \<open>The ranges of a set up to its closing bracket, and the characters behind it.\<close>

fun ranges :: "u32 \<Rightarrow> u32 list \<Rightarrow> ((u32 \<times> u32) list \<times> u32 list) option" where
  "ranges prior [] = None"
| "ranges prior [d] = (if d = 0x5D then Some ([], []) else None)"
| "ranges prior (d # e # cs) =
     (if d = 0x5D then Some ([], e # cs)
      else if d = 0x2D \<and> e \<noteq> 0x5D \<and> 0 < prior
      then map_option (\<lambda>(rs, cs). ((prior, e) # rs, cs)) (ranges 0 cs)
      else map_option (\<lambda>(rs, cs). ((d, d) # rs, cs)) (ranges d (e # cs)))"

definition brackets :: "u32 list \<Rightarrow> (bool \<times> (u32 \<times> u32) list \<times> u32 list) option" where
  "brackets cs =
     (let invert = (cs \<noteq> [] \<and> cs ! 0 = 0x5E);
        cs = (if invert then tl cs else cs);
        first = (cs \<noteq> [] \<and> cs ! 0 = 0x5D)
      in map_option (\<lambda>(rs, cs). (invert, (if first then [(0x5D, 0x5D)] else []) @ rs, cs))
           (ranges 0 (if first then tl cs else cs)))"

lemma ranges_shorter: "ranges prior cs = Some (rs, cs') \<Longrightarrow> length cs' < length cs"
  by (induction prior cs arbitrary: rs rule: ranges.induct) (fastforce split: if_splits)+

lemma brackets_shorter: "brackets cs = Some (i, rs, cs') \<Longrightarrow> length cs' < length cs"
  by (auto simp: brackets_def Let_def split: if_splits dest!: ranges_shorter)

function parse_pattern :: "compareInfo \<Rightarrow> u32 \<Rightarrow> u32 list \<Rightarrow> item list" where
  "parse_pattern I esc [] = []"
| "parse_pattern I esc (c # cs) =
     (if c = matchAll I then Seq # parse_pattern I esc cs
      else if c = matchOther I esc then
        (if esc \<noteq> 0
         then (case cs of [] \<Rightarrow> [Never] | d # ds \<Rightarrow> Lit d # parse_pattern I esc ds)
         else (case brackets cs of
                 None \<Rightarrow> [Never]
               | Some (invert, rs, ds) \<Rightarrow> Brackets invert rs # parse_pattern I esc ds))
      else (if c = matchOne I then One else Lit c) # parse_pattern I esc cs)"
  by pat_completeness auto
termination
  by (relation "measure (\<lambda>(I, esc, cs). length cs)") (auto dest: brackets_shorter)

fun fits :: "bool \<Rightarrow> item \<Rightarrow> u32 \<Rightarrow> bool" where
  "fits nc One d = True"
| "fits nc (Lit c) d = (c = d \<or> nc \<and> c < 0x80 \<and> d < 0x80 \<and> lower32 c = lower32 d)"
| "fits nc (Brackets invert rs) d = (list_ex (\<lambda>(a, b). a \<le> d \<and> d \<le> b) rs \<noteq> invert)"
| "fits nc _ d = False"

fun matches :: "bool \<Rightarrow> item list \<Rightarrow> u32 list \<Rightarrow> bool" where
  "matches nc [] ds = (ds = [])"
| "matches nc (i # ps) ds =
     (if i = Seq then \<exists>k \<in> {..length ds}. matches nc ps (drop k ds)
      else ds \<noteq> [] \<and> fits nc i (ds ! 0) \<and> matches nc ps (tl ds))"

declare matches.simps(2) [simp del]

lemma matches_item:
  "i \<noteq> Seq \<Longrightarrow> \<not> matches nc (i # ps) []"
  "i \<noteq> Seq \<Longrightarrow> matches nc (i # ps) (d # ds) \<longleftrightarrow> fits nc i d \<and> matches nc ps ds"
  by (simp_all add: matches.simps(2))

lemma matches_Seq_Nil [simp]: "matches nc (Seq # ps) [] \<longleftrightarrow> matches nc ps []"
  by (simp add: matches.simps(2))

lemma matches_Seq_Cons:
  "matches nc (Seq # ps) (d # ds) \<longleftrightarrow> matches nc ps (d # ds) \<or> matches nc (Seq # ps) ds"
proof -
  have "{..length (d # ds)} = insert 0 (Suc ` {..length ds})"
    by (auto simp: image_iff) (metis Suc_le_mono atMost_iff not0_implies_Suc)
  then show ?thesis by (simp add: matches.simps(2))
qed

lemma matches_Seq_end [simp]: "matches nc [Seq] ds"
  by (induction ds) (simp_all add: matches_Seq_Cons)

lemma matches_Seq_Seq: "matches nc (Seq # Seq # ps) ds \<longleftrightarrow> matches nc (Seq # ps) ds"
  by (induction ds) (auto simp: matches_Seq_Cons)

lemma matches_Seq_One:
  "matches nc (Seq # One # ps) ds \<longleftrightarrow> ds \<noteq> [] \<and> matches nc (Seq # ps) (tl ds)"
proof (induction ds)
  case (Cons d ds)
  then show ?case by (cases ds) (auto simp: matches_Seq_Cons matches_item)
qed (simp add: matches_item)

lemma matches_Seq_Never [simp]: "\<not> matches nc [Seq, Never] ds" "\<not> matches nc [Never] ds"
proof -
  show "\<not> matches nc [Never] ds" for ds by (cases ds) (simp_all add: matches_item)
  then show "\<not> matches nc [Seq, Never] ds" by (induction ds) (simp_all add: matches_Seq_Cons)
qed


subsection \<open>The searches\<close>

lemma bracketSearch_matches:
  assumes "\<And>s. 0 \<notin> set s \<Longrightarrow> patternLoop I esc None p s = matches nc ps (chars s)" "\<not> matches nc ps []"
  shows "0 \<notin> set s \<Longrightarrow> bracketSearch I esc p s = matches nc (Seq # ps) (chars s)"
proof (induction "length s" arbitrary: s rule: less_induct)
  case less
  show ?case
  proof (cases s)
    case Nil
    then show ?thesis using assms(2) by simp
  next
    case (Cons b r)
    have "0 \<notin> set (SQLITE_SKIP_UTF8 s)" using less.prems set_skip [of s] by auto
    moreover have "length (SQLITE_SKIP_UTF8 s) < length s" using Cons by (intro length_skip) simp
    ultimately have ih: "bracketSearch I esc p (SQLITE_SKIP_UTF8 s) = matches nc (Seq # ps) (tl (chars s))"
      using less.hyps by (simp add: chars_skip)
    have "chars s = hd (chars s) # tl (chars s)" using Cons by simp
    then have "matches nc (Seq # ps) (chars s) \<longleftrightarrow> matches nc ps (chars s) \<or> matches nc (Seq # ps) (tl (chars s))"
      by (metis matches_Seq_Cons)
    with ih Cons assms(1) [OF less.prems] show ?thesis by auto
  qed
qed

lemma charSearch_matches:
  assumes "\<And>s. 0 \<notin> set s \<Longrightarrow> patternLoop I esc None p s = matches nc ps (chars s)"
    and "\<And>d. fits nc (Lit c) d \<longleftrightarrow> d = c"
  shows "0 \<notin> set s \<Longrightarrow> charSearch I esc c p s = matches nc (Seq # Lit c # ps) (chars s)"
proof (induction "length s" arbitrary: s rule: less_induct)
  case less
  show ?case
  proof (cases "s = []")
    case True
    then show ?thesis by (subst charSearch.simps) (simp add: matches_item)
  next
    case False
    obtain d r where r: "sqlite3Utf8Read s = (d, r)" by fastforce
    have "chars s = d # chars r" using False r by (simp add: chars_read)
    moreover have "d \<noteq> 0" "0 \<notin> set r" using read_not_0 [OF less.prems] text_read [OF less.prems] False r by auto
    moreover have "length r < length s" using r False read_shrinks by blast
    ultimately show ?thesis using less.hyps [of r] assms r False
      by (subst charSearch.simps) (auto simp: matches_Seq_Cons matches_item simp del: fits.simps)
  qed
qed

text \<open>A byte below 0x80 is a character wherever it stands; the bytes of longer characters are not below 0x80.\<close>

lemma tail_byte_not_ascii: "b AND 0xc0 = 0x80 \<Longrightarrow> \<not> b < 0x80" for b :: u8
  using lead_not_tail by blast

lemma byteSearch_skipTail:
  assumes "c < 0x80" "cx < 0x80"
  shows "byteSearch I esc c cx p (skipTail z) = byteSearch I esc c cx p z"
proof (induction z)
  case (Cons b z)
  show ?case
  proof (cases "b AND 0xc0 = 0x80")
    case True
    then have "\<not> (ucast b :: u32) < 0x80" using tail_byte_not_ascii by (simp add: ucast_u8_u32_less)
    then have "ucast b \<noteq> c" "ucast b \<noteq> cx" using assms by auto
    then show ?thesis using Cons True by simp
  qed simp
qed simp

lemma byteSearch_matches:
  assumes "\<And>s. 0 \<notin> set s \<Longrightarrow> patternLoop I esc None p s = matches nc ps (chars s)"
    and "\<And>d. fits nc (Lit l) d \<longleftrightarrow> d = c \<or> d = cx" and "c < 0x80" "cx < 0x80"
  shows "0 \<notin> set s \<Longrightarrow> byteSearch I esc c cx p s = matches nc (Seq # Lit l # ps) (chars s)"
proof (induction "length s" arbitrary: s rule: less_induct)
  case less
  show ?case
  proof (cases s)
    case Nil
    then show ?thesis by (simp add: matches_item)
  next
    case (Cons b r)
    have chars: "chars s = fst (sqlite3Utf8Read s) # chars (SQLITE_SKIP_UTF8 s)"
      using Cons chars_read [of s] by (simp add: skip_is_read)
    have r: "0 \<notin> set r" "length r < length s" using less.prems Cons by auto
    have skip: "0 \<notin> set (SQLITE_SKIP_UTF8 s)" "length (SQLITE_SKIP_UTF8 s) < length s"
      using less.prems set_skip [of s] Cons by auto
    show ?thesis
    proof (cases "b < 0x80")
      case True
      then have "chars s = ucast b # chars r" using Cons by (simp add: chars_ascii)
      then show ?thesis using less.hyps [OF r(2,1)] assms(1) [OF r(1)] assms(2) Cons
        by (auto simp: matches_Seq_Cons matches_item simp del: fits.simps)
    next
      case False
      then have "\<not> (ucast b :: u32) < 0x80" by (simp add: ucast_u8_u32_less)
      then have "ucast b \<noteq> c" "ucast b \<noteq> cx" using assms(3,4) by auto
      moreover have "byteSearch I esc c cx p r = byteSearch I esc c cx p (SQLITE_SKIP_UTF8 s)"
        by (simp add: Cons SQLITE_SKIP_UTF8_def byteSearch_skipTail assms(3,4))
      moreover have "\<not> fst (sqlite3Utf8Read s) < 0x80" using read_small [of b r] False Cons by auto
      then have "\<not> fits nc (Lit l) (fst (sqlite3Utf8Read s))"
        using assms(2) [of "fst (sqlite3Utf8Read s)"] assms(3,4) by (auto simp del: fits.simps)
      ultimately show ?thesis using less.hyps [OF skip(2,1)] Cons
        by (simp add: chars [unfolded Cons] matches_Seq_Cons matches_item del: fits.simps)
    qed
  qed
qed

lemma fold32:
  assumes "c < 0x80"
  shows "unat (lower32 c) = (if 65 \<le> unat c \<and> unat c \<le> 90 then unat c + 32 else unat c)"
    "unat (upper32 c) = (if 97 \<le> unat c \<and> unat c \<le> 122 then unat c - 32 else unat c)"
proof -
  have "unat c < 128" using assms by (simp add: word_less_nat_alt)
  then show "unat (lower32 c) = (if 65 \<le> unat c \<and> unat c \<le> 90 then unat c + 32 else unat c)"
    "unat (upper32 c) = (if 97 \<le> unat c \<and> unat c \<le> 122 then unat c - 32 else unat c)"
    by (simp_all add: lower32_def upper32_def ctype code_classes unsigned_of_nat take_bit_nat_eq_self
        del: of_nat_add of_nat_diff)
qed

lemma lower32_0: "c < 0x80 \<Longrightarrow> lower32 c = lower32 0 \<Longrightarrow> c = 0"
  using fold32(1) [of c] fold32(1) [of 0] by (simp add: word_unat_eq_iff split: if_splits)

lemma fits_ascii:
  assumes "c < 0x80"
  shows "fits True (Lit c) d \<longleftrightarrow> d = lower32 c \<or> d = upper32 c" "lower32 c < 0x80" "upper32 c < 0x80"
proof -
  have c: "unat c < 128" using assms by (simp add: word_less_nat_alt)
  show low: "lower32 c < 0x80" "upper32 c < 0x80"
    using fold32 [OF assms] c by (auto simp: word_less_nat_alt)
  show "fits True (Lit c) d \<longleftrightarrow> d = lower32 c \<or> d = upper32 c"
  proof (cases "d < 0x80")
    case True
    then show ?thesis using fold32 [OF assms] fold32 [OF True] c assms
      by (auto simp: word_unat_eq_iff split: if_splits)
  next
    case False
    then show ?thesis using low assms by auto
  qed
qed

subsection \<open>The code computes the meaning\<close>

lemma skipWildcards_matches:
  assumes "0 \<notin> set p" "0 \<notin> set s" "matchAll I \<noteq> matchOne I" "matchOther I esc \<noteq> matchOne I"
  shows "case skipWildcards I p s of
      None \<Rightarrow> \<not> matches nc (Seq # parse_pattern I esc (chars p)) (chars s)
    | Some (p0, c, p', s') \<Rightarrow> 0 \<notin> set p0 \<and> 0 \<notin> set s' \<and> sqlite3Utf8Read p0 = (c, p') \<and>
        (p0 \<noteq> [] \<longrightarrow> c \<noteq> matchAll I \<and> c \<noteq> matchOne I) \<and> set (chars p0) \<subseteq> set (chars p) \<and>
        matches nc (Seq # parse_pattern I esc (chars p)) (chars s) =
        matches nc (Seq # parse_pattern I esc (chars p0)) (chars s')"
  using assms
proof (induction I p s rule: skipWildcards.induct)
  case (1 I p s)
  obtain c p' where r: "sqlite3Utf8Read p = (c, p')" by fastforce
  show ?case
  proof (cases "p = []")
    case True
    then show ?thesis using "1.prems" by (simp add: skipWildcards.simps)
  next
    case False
    then have p: "chars p = c # chars p'" "0 \<notin> set p'" using r text_read [OF "1.prems"(1)] by (simp_all add: chars_read)
    note step = skipWildcards.simps [of I p s]
    have parse: "parse_pattern I esc (chars p) = (if c = matchAll I then Seq # parse_pattern I esc (chars p')
        else if c = matchOne I then One # parse_pattern I esc (chars p') else parse_pattern I esc (chars p))"
      using p(1) "1.prems"(3,4) by simp
    consider "c = matchAll I" | "c = matchOne I" "c \<noteq> matchAll I" | "c \<noteq> matchAll I" "c \<noteq> matchOne I" by blast
    then show ?thesis
    proof cases
      case 1
      then have s: "skipWildcards I p s = skipWildcards I p' s" using False r by (subst step) simp
      from 1 parse have m: "matches nc (Seq # parse_pattern I esc (chars p)) ds =
          matches nc (Seq # parse_pattern I esc (chars p')) ds" for ds
        by (simp add: matches_Seq_Seq)
      have sub: "set (chars p') \<subseteq> set (chars p)" using p(1) by auto
      from "1.IH"(1) [OF r [symmetric] refl] 1 False p(2) "1.prems"
      show ?thesis unfolding s m using sub by (simp split: option.splits prod.splits) blast
    next
      case 2
      obtain d s' where s': "sqlite3Utf8Read s = (d, s')" by fastforce
      have d: "d = 0 \<longleftrightarrow> s = []" "0 \<notin> set s'" using read_not_0 [OF "1.prems"(2)] text_read [OF "1.prems"(2)] s' by auto
      have s: "skipWildcards I p s = (if s = [] then None else skipWildcards I p' s')"
        using False r 2 s' d by (subst step) simp
      from 2 parse s' have m: "matches nc (Seq # parse_pattern I esc (chars p)) (chars s) \<longleftrightarrow>
          s \<noteq> [] \<and> matches nc (Seq # parse_pattern I esc (chars p')) (chars s')"
        by (auto simp add: matches_Seq_One chars_read)
      have sub: "set (chars p') \<subseteq> set (chars p)" using p(1) by auto
      show ?thesis
      proof (cases "s = []")
        case True
        then show ?thesis unfolding s m by simp
      next
        case False
        from "1.IH"(2) [OF r [symmetric] refl _ _ s' [symmetric] refl] 2 False \<open>p \<noteq> []\<close> p(2) "1.prems" d
        show ?thesis unfolding s m using sub by (simp split: option.splits prod.splits) blast
      qed
    next
      case 3
      then have "skipWildcards I p s = Some (p, c, p', s)" using False r by (subst step) simp
      then show ?thesis using 3 r "1.prems" by simp
    qed
  qed
qed

lemma first_byte_is_char:
  fixes b :: u8
  assumes "p \<noteq> []" and b: "b < 0x80"
  shows "p ! 0 = b \<longleftrightarrow> hd (chars p) = ucast b"
proof -
  obtain x y where p: "p = x # y" using assms(1) by (cases p) auto
  have inj: "(ucast x :: u32) = ucast b \<longleftrightarrow> x = b" by (metis unat_ucast_u8 word_unat_eq_iff)
  show ?thesis
  proof (cases "x < 0x80")
    case True
    then show ?thesis by (simp add: p chars_ascii inj)
  next
    case False
    then have "\<not> hd (chars p) < 0x80" using read_small [of x y] by (auto simp: p chars_read)
    then have "hd (chars p) \<noteq> ucast b" using b by (metis ucast_u8_u32_less)
    then show ?thesis using False b by (auto simp: p)
  qed
qed

lemma setLoop_ranges:
  assumes "0 \<notin> set p" "c2 = 0 \<longrightarrow> p = []"
  shows "case ranges prior (if c2 = 0 then [] else c2 # chars p) of
      None \<Rightarrow> \<exists>seen' p'. setLoop c c2 prior seen p = (seen', 0, p')
    | Some (rs, ds) \<Rightarrow> \<exists>p'. setLoop c c2 prior seen p = (seen \<or> list_ex (\<lambda>(a, b). a \<le> c \<and> c \<le> b) rs, 0x5D, p') \<and>
        chars p' = ds \<and> 0 \<notin> set p'"
  using assms
proof (induction c c2 prior seen p rule: setLoop.induct)
  case (1 c c2 prior seen p)
  note step = setLoop.simps [of c c2 prior seen p]
  show ?case
  proof (cases "c2 = 0 \<or> c2 = 0x5D")
    case True
    then have "setLoop c c2 prior seen p = (seen, c2, p)" by (subst step) auto
    with True "1.prems" show ?thesis by (cases "chars p") auto
  next
    case go: False
    obtain e p1 where e: "sqlite3Utf8Read p = (e, p1)" by fastforce
    then have e1: "e = 0 \<longleftrightarrow> p = []" "0 \<notin> set p1"
      using read_not_0 [OF "1.prems"(1)] text_read [OF "1.prems"(1)] by auto
    have p: "p \<noteq> [] \<Longrightarrow> chars p = e # chars p1" using e by (simp add: chars_read)
    show ?thesis
    proof (cases "c2 = 0x2D \<and> p \<noteq> [] \<and> p ! 0 \<noteq> 0x5D \<and> 0 < prior")
      case True
      obtain d p2 where d: "sqlite3Utf8Read p1 = (d, p2)" by fastforce
      have d1: "d = 0 \<longleftrightarrow> p1 = []" "0 \<notin> set p2"
        using read_not_0 [OF e1(2)] text_read [OF e1(2)] d by auto
      have "chars p1 = (if d = 0 then [] else d # chars p2)" using d d1 by (auto simp: chars_read)
      moreover have "e \<noteq> 0x5D" using first_byte_is_char [of p "0x5D"] p True by auto
      moreover have "d = 0 \<longrightarrow> p2 = []" using d d1 by auto
      moreover have "setLoop c c2 prior seen p = setLoop c d 0 (seen \<or> prior \<le> c \<and> c \<le> e) p2"
        using go True e d by (subst step) simp
      ultimately show ?thesis
        using "1.IH"(1) [OF _ True e [symmetric] refl refl d [symmetric] refl] go True p d1
        by (auto split: option.splits)
    next
      case False
      have "e = 0 \<longrightarrow> p1 = []" using e e1 by auto
      moreover have "c2 \<noteq> 0x2D \<or> p = [] \<or> e = 0x5D \<or> \<not> 0 < prior"
        using False first_byte_is_char [of p "0x5D"] p by auto
      moreover have "chars p = (if e = 0 then [] else e # chars p1)" using e1 p by auto
      moreover have "setLoop c c2 prior seen p = setLoop c e c2 (seen \<or> c = c2) p1"
        using go False e by (subst step) auto
      ultimately show ?thesis
        using "1.IH"(2) [OF _ False refl e [symmetric] refl] go e1
        by (cases "p = []") (auto split: option.splits)
    qed
  qed
qed


text \<open>A character that was read and the pointer behind it stand for the characters from there on.\<close>

definition upcoming :: "u32 \<Rightarrow> u8 list \<Rightarrow> u32 list" where
  "upcoming c p = (if c = 0 then [] else c # chars p)"

definition cursor :: "u32 \<Rightarrow> u8 list \<Rightarrow> bool" where
  "cursor c p \<longleftrightarrow> 0 \<notin> set p \<and> (c = 0 \<longrightarrow> p = [])"

lemma read_cursor:
  assumes "0 \<notin> set z" "sqlite3Utf8Read z = (c, p)"
  shows "cursor c p \<and> upcoming c p = chars z"
  using assms read_not_0 [OF assms(1)] text_read [OF assms(1)]
  by (cases "z = []") (auto simp: cursor_def upcoming_def chars_read)

lemma cursor_step:
  assumes "cursor c p" "b \<noteq> 0"
  shows "\<exists>c' p'. (if c = b then sqlite3Utf8Read p else (c, p)) = (c', p') \<and> cursor c' p' \<and>
    upcoming c' p' = (if upcoming c p \<noteq> [] \<and> upcoming c p ! 0 = b then tl (upcoming c p) else upcoming c p) \<and>
    (c = b \<longleftrightarrow> upcoming c p \<noteq> [] \<and> upcoming c p ! 0 = b)"
proof -
  obtain c' p' where r: "sqlite3Utf8Read p = (c', p')" by fastforce
  have "0 \<notin> set p" using assms(1) by (simp add: cursor_def)
  from read_cursor [OF this r] assms r show ?thesis by (auto simp: upcoming_def)
qed

lemma ranges_subset: "ranges prior cs = Some (rs, cs') \<Longrightarrow> set cs' \<subseteq> set cs"
  by (induction prior cs arbitrary: rs rule: ranges.induct) (fastforce split: if_splits)+

lemma brackets_subset: "brackets cs = Some (i, rs, cs') \<Longrightarrow> set cs' \<subseteq> set cs"
proof -
  assume b: "brackets cs = Some (i, rs, cs')"
  have "set (tl xs) \<subseteq> set xs" for xs :: "u32 list" by (cases xs) auto
  with b show ?thesis by (auto simp: brackets_def Let_def split: if_splits dest!: ranges_subset) blast+
qed

lemma matchBrackets_brackets:
  assumes "0 \<notin> set p" "0 \<notin> set s"
  shows "case brackets (chars p) of
      None \<Rightarrow> matchBrackets p s = None
    | Some (invert, rs, ds) \<Rightarrow>
        (if s \<noteq> [] \<and> fits nc (Brackets invert rs) (hd (chars s))
         then \<exists>p' s'. matchBrackets p s = Some (p', s') \<and> chars p' = ds \<and> chars s' = tl (chars s) \<and>
           0 \<notin> set p' \<and> 0 \<notin> set s'
         else matchBrackets p s = None)"
proof -
  obtain c s' where s': "sqlite3Utf8Read s = (c, s')" by fastforce
  then have c: "c = 0 \<longleftrightarrow> s = []" "0 \<notin> set s'" "s \<noteq> [] \<Longrightarrow> chars s = c # chars s'"
    using read_not_0 [OF assms(2)] text_read [OF assms(2)] by (auto simp: chars_read)
  obtain c0 p0 where p0: "sqlite3Utf8Read p = (c0, p0)" by fastforce
  note p0' = read_cursor [OF assms(1) p0]
  define invert where "invert = (c0 = 0x5E)"
  obtain c1 p1 where p1: "(if invert then sqlite3Utf8Read p0 else (c0, p0)) = (c1, p1)" "cursor c1 p1"
      "upcoming c1 p1 = (if invert then tl (chars p) else chars p)"
      "invert \<longleftrightarrow> chars p \<noteq> [] \<and> chars p ! 0 = 0x5E"
    using cursor_step [OF p0' [THEN conjunct1], of "0x5E", unfolded p0' [THEN conjunct2], folded invert_def] by auto
  define first where "first = (c1 = 0x5D)"
  obtain c2 p2 where p2: "(if first then sqlite3Utf8Read p1 else (c1, p1)) = (c2, p2)" "cursor c2 p2"
      "upcoming c2 p2 = (if first then tl (upcoming c1 p1) else upcoming c1 p1)"
      "first \<longleftrightarrow> upcoming c1 p1 \<noteq> [] \<and> upcoming c1 p1 ! 0 = 0x5D"
    using cursor_step [OF p1(2), of "0x5D", folded first_def] by auto
  obtain seen c3 p3 where p3: "setLoop c c2 0 (first \<and> c = 0x5D) p2 = (seen, c3, p3)" by (cases "setLoop c c2 0 (first \<and> c = 0x5D) p2")
  have code: "matchBrackets p s = (if s = [] \<or> c3 = 0 \<or> seen = invert then None else Some (p3, s'))"
    using s' p0 p1(1) p2(1) p3 c(1) by (simp add: matchBrackets_def Let_def invert_def [symmetric] first_def [symmetric])
  have spec: "brackets (chars p) = map_option (\<lambda>(rs, cs). (invert, (if first then [(0x5D, 0x5D)] else []) @ rs, cs))
      (ranges 0 (upcoming c2 p2))"
    by (simp only: brackets_def Let_def p1(4) [symmetric] p1(3) [symmetric] p2(4) [symmetric] p2(3) [symmetric])
  have loop: "case ranges 0 (upcoming c2 p2) of
      None \<Rightarrow> c3 = 0
    | Some (rs, ds) \<Rightarrow> c3 = 0x5D \<and> chars p3 = ds \<and> 0 \<notin> set p3 \<and>
        seen = ((first \<and> c = 0x5D) \<or> list_ex (\<lambda>(a, b). a \<le> c \<and> c \<le> b) rs)"
    using setLoop_ranges [where p = p2 and ?c2.0 = c2 and prior = 0 and c = c and seen = "first \<and> c = 0x5D", folded upcoming_def] p2(2) p3
    by (auto simp: cursor_def split: option.splits)
  have eq: "(0x5D \<le> c \<and> c \<le> 0x5D) \<longleftrightarrow> c = 0x5D" by auto
  show ?thesis
  proof (cases "ranges 0 (upcoming c2 p2)")
    case None
    then show ?thesis using loop by (simp add: spec code)
  next
    case (Some x)
    then show ?thesis using loop c by (cases x) (auto simp: spec code eq)
  qed
qed

text \<open>The tables of the code, with an escape character that is no wildcard and only where there are no sets.\<close>

definition usable :: "compareInfo \<Rightarrow> u32 \<Rightarrow> bool" where
  "usable I esc \<longleftrightarrow> matchAll I \<noteq> matchOne I \<and> matchSet I \<noteq> matchOne I \<and> matchSet I \<noteq> matchAll I \<and>
     esc \<noteq> matchAll I \<and> esc \<noteq> matchOne I"

lemma usable_tables:
  "esc \<noteq> 0x25 \<Longrightarrow> esc \<noteq> 0x5F \<Longrightarrow> usable likeInfoNorm esc"
  "esc \<noteq> 0x25 \<Longrightarrow> esc \<noteq> 0x5F \<Longrightarrow> usable likeInfoAlt esc"
  "usable globInfo 0"
  by (simp_all add: usable_def likeInfoNorm_def likeInfoAlt_def globInfo_def)

text \<open>What is searched for behind a wildcard.\<close>

lemma search_matches:
  assumes ih: "\<And>s. 0 \<notin> set s \<Longrightarrow> patternLoop I esc None p s = matches (noCase I) ps (chars s)"
    and "0 \<notin> set s" "c \<noteq> 0x80"
  shows "(if c \<le> 0x80
          then if noCase I then byteSearch I esc (lower32 c) (upper32 c) p s else byteSearch I esc c c p s
          else charSearch I esc c p s) = matches (noCase I) (Seq # Lit c # ps) (chars s)"
proof (cases "c \<le> 0x80")
  case True
  then have c: "c < 0x80" using assms(3) by (simp add: word_le_nat_alt word_less_nat_alt word_unat_eq_iff)
  show ?thesis
  proof (cases "noCase I")
    case nc: True
    have "fits (noCase I) (Lit c) d \<longleftrightarrow> d = lower32 c \<or> d = upper32 c" for d
      using fits_ascii(1) [OF c] nc by simp
    then show ?thesis using True nc byteSearch_matches [OF ih _ fits_ascii(2,3) [OF c] assms(2)] by simp
  next
    case False
    then show ?thesis using True byteSearch_matches [OF ih _ c c assms(2), of c] by (auto simp: eq_commute)
  qed
next
  case False
  then have "\<not> c < 0x80" by auto
  then show ?thesis using False charSearch_matches [OF ih _ assms(2), of c] by (auto simp: eq_commute)
qed


text \<open>The search behind a run of wildcards.\<close>

lemma search_rest:
  assumes use: "usable I esc" and p0: "0 \<notin> set p0" "sqlite3Utf8Read p0 = (c, p)" "0x80 \<notin> set (chars p0)"
    "p0 \<noteq> [] \<Longrightarrow> c \<noteq> matchAll I \<and> c \<noteq> matchOne I"
    and s: "0 \<notin> set s"
    and ih: "\<And>q t. length q \<le> length p0 \<Longrightarrow> 0 \<notin> set q \<Longrightarrow> 0 \<notin> set t \<Longrightarrow> set (chars q) \<subseteq> set (chars p0) \<Longrightarrow>
      patternLoop I esc None q t = matches (noCase I) (parse_pattern I esc (chars q)) (chars t)"
  shows "(if c = 0 then True
      else if c = matchOther I esc \<and> esc = 0 then bracketSearch I esc p0 s
      else (let (c, p) = (if c = matchOther I esc then sqlite3Utf8Read p else (c, p))
            in if c = 0 then False
               else if c \<le> 0x80
               then if noCase I then byteSearch I esc (lower32 c) (upper32 c) p s else byteSearch I esc c c p s
               else charSearch I esc c p s)) =
    matches (noCase I) (Seq # parse_pattern I esc (chars p0)) (chars s)"
proof (cases "p0 = []")
  case True
  then show ?thesis using p0 by auto
next
  case False
  then have c: "c \<noteq> 0" "0 \<notin> set p" "chars p0 = c # chars p" "length p < length p0"
    using read_not_0 [OF p0(1)] text_read [OF p0(1)] p0(2) read_shrinks(1) [OF p0(2)] by (auto simp: chars_read)
  have wild: "c \<noteq> matchAll I" "c \<noteq> matchOne I" using p0(4) False by auto
  consider (set) "c = matchOther I esc" "esc = 0" | (escape) "c = matchOther I esc" "esc \<noteq> 0"
    | (plain) "c \<noteq> matchOther I esc" by blast
  then show ?thesis
  proof cases
    case set
    then obtain i ps where ps: "parse_pattern I esc (chars p0) = i # ps" "i \<noteq> Seq"
      using wild by (cases "brackets (chars p)") (auto simp: c)
    have "bracketSearch I esc p0 s = matches (noCase I) (Seq # parse_pattern I esc (chars p0)) (chars s)"
      by (rule bracketSearch_matches [OF ih _ s]) (use p0 in \<open>auto simp: ps matches_item\<close>)
    then show ?thesis using set c(1) by simp
  next
    case escape
    obtain d p2 where d: "sqlite3Utf8Read p = (d, p2)" by fastforce
    then have d': "d = 0 \<longleftrightarrow> p = []" "0 \<notin> set p2" "p \<noteq> [] \<Longrightarrow> chars p = d # chars p2" "length p2 \<le> length p"
      using read_not_0 [OF c(2)] text_read [OF c(2)] read_le [OF d [symmetric]] by (auto simp: chars_read)
    show ?thesis
    proof (cases "p = []")
      case True
      then show ?thesis using escape c wild d d' by simp
    next
      case False
      then have "patternLoop I esc None p2 t = matches (noCase I) (parse_pattern I esc (chars p2)) (chars t)"
        if "0 \<notin> set t" for t using ih [OF _ d'(2) that] c d' by auto
      moreover have "d \<noteq> 0x80" using p0(3) c(3) d'(3) [OF False] by auto
      ultimately show ?thesis using search_matches [OF _ s] False escape c(1,3) wild d d'(1,3) by simp
    qed
  next
    case plain
    have "patternLoop I esc None p t = matches (noCase I) (parse_pattern I esc (chars p)) (chars t)"
      if "0 \<notin> set t" for t using ih [OF _ c(2) that] c by auto
    moreover have "c \<noteq> 0x80" using p0(3) c(3) by auto
    ultimately show ?thesis using search_matches [OF _ s] plain c(1,3) wild by simp
  qed
qed

lemma patternLoop_matches:
  assumes "usable I esc"
  shows "0 \<notin> set p \<Longrightarrow> 0 \<notin> set s \<Longrightarrow> 0x80 \<notin> set (chars p) \<Longrightarrow>
    (\<forall>q. zEscaped = Some q \<longrightarrow> length p \<le> length q) \<Longrightarrow>
    patternLoop I esc zEscaped p s = matches (noCase I) (parse_pattern I esc (chars p)) (chars s)"
proof (induction "length p" arbitrary: p s zEscaped rule: less_induct)
  case less
  note use = assms [unfolded usable_def]
  have other: "matchOther I esc \<noteq> matchOne I" "matchOther I esc \<noteq> matchAll I"
    using use by (simp_all add: matchOther_def)
  obtain c p' where r: "sqlite3Utf8Read p = (c, p')" by fastforce
  show ?case
  proof (cases "p = []")
    case True
    then show ?thesis by (subst patternLoop.simps) simp
  next
    case p: False
    then have c: "c \<noteq> 0" "0 \<notin> set p'" "chars p = c # chars p'" "length p' < length p"
      using read_not_0 [OF less.prems(1)] text_read [OF less.prems(1)] r read_shrinks(1) [OF r]
      by (auto simp: chars_read)
    have ih: "patternLoop I esc z q t = matches (noCase I) (parse_pattern I esc (chars q)) (chars t)"
      if "length q < length p" "0 \<notin> set q" "0 \<notin> set t" "set (chars q) \<subseteq> set (chars p)"
        "\<forall>e. z = Some e \<longrightarrow> length q \<le> length e" for q t z
      using less.hyps [OF that(1-3)] that(4,5) less.prems(3) by blast
    have s: "0 \<notin> set s" using less.prems by simp
    note step = patternLoop.simps(1) [of I esc zEscaped p s, unfolded r]
    obtain d s' where s': "sqlite3Utf8Read s = (d, s')" by fastforce
    then have d: "d = 0 \<longleftrightarrow> s = []" "0 \<notin> set s'" "s \<noteq> [] \<Longrightarrow> chars s = d # chars s'"
      using read_not_0 [OF s] text_read [OF s] by (auto simp: chars_read)
    consider (seq) "c = matchAll I" | (set) "c \<noteq> matchAll I" "c = matchOther I esc" "esc = 0"
      | (escape) "c \<noteq> matchAll I" "c = matchOther I esc" "esc \<noteq> 0"
      | (plain) "c \<noteq> matchAll I" "c \<noteq> matchOther I esc" by blast
    then show ?thesis
    proof cases
      case seq
      then have parse: "parse_pattern I esc (chars p) = Seq # parse_pattern I esc (chars p')" by (simp add: c)
      note skip = skipWildcards_matches [OF c(2) s, of I esc "noCase I"]
      show ?thesis
      proof (cases "skipWildcards I p' s")
        case None
        then show ?thesis using skip use other seq c(1) by (simp add: step p parse)
      next
        case (Some x)
        then obtain p0 c1 p1 s1 where x: "skipWildcards I p' s = Some (p0, c1, p1, s1)" by (cases x) auto
        have m: "0 \<notin> set p0" "0 \<notin> set s1" "sqlite3Utf8Read p0 = (c1, p1)"
            "p0 \<noteq> [] \<Longrightarrow> c1 \<noteq> matchAll I \<and> c1 \<noteq> matchOne I" "set (chars p0) \<subseteq> set (chars p')"
            "matches (noCase I) (parse_pattern I esc (chars p)) (chars s) =
              matches (noCase I) (Seq # parse_pattern I esc (chars p0)) (chars s1)"
          using skip use other x by (auto simp: parse)
        have rest: "patternLoop I esc None q t = matches (noCase I) (parse_pattern I esc (chars q)) (chars t)"
          if "length q \<le> length p0" "0 \<notin> set q" "0 \<notin> set t" "set (chars q) \<subseteq> set (chars p0)" for q t
          by (rule ih) (use that skipWildcards_shrinks [OF x] c m(5) in auto)
        have "0x80 \<notin> set (chars p0)" using m(5) c(3) less.prems(3) by auto
        from search_rest [OF assms m(1,3) this m(4,2) rest] seq p c(1)
        show ?thesis by (simp add: step x m(6))
      qed
    next
      case set
      have fin: "patternLoop I esc zEscaped p s =
          (case matchBrackets p' s of None \<Rightarrow> False | Some (p, s) \<Rightarrow> patternLoop I esc zEscaped p s)"
        unfolding step using set p c(1) by (simp split: option.split)
      have parse: "parse_pattern I esc (chars p) = (case brackets (chars p') of None \<Rightarrow> [Never]
          | Some (invert, rs, ds) \<Rightarrow> Brackets invert rs # parse_pattern I esc ds)"
        using set by (simp add: c split: option.split)
      note b = matchBrackets_brackets [OF c(2) s, of "noCase I"]
      show ?thesis
      proof (cases "brackets (chars p')")
        case None
        then show ?thesis using b by (simp add: fin parse)
      next
        case (Some x)
        then obtain invert rs ds where x: "brackets (chars p') = Some (invert, rs, ds)" by (cases x) auto
        show ?thesis
        proof (cases "s \<noteq> [] \<and> fits (noCase I) (Brackets invert rs) (hd (chars s))")
          case True
          with b x obtain q t where q: "matchBrackets p' s = Some (q, t)" "chars q = ds"
              "chars t = tl (chars s)" "0 \<notin> set q" "0 \<notin> set t" by auto
          have "length q < length p" using matchBrackets_shrinks [OF q(1)] c(4) by simp
          have sub: "set (chars q) \<subseteq> set (chars p)" using brackets_subset [OF x] q(2) c(3) by auto
          have "\<forall>e. zEscaped = Some e \<longrightarrow> length q \<le> length e"
            using less.prems(4) \<open>length q < length p\<close> by fastforce
          then have "patternLoop I esc zEscaped q t = matches (noCase I) (parse_pattern I esc ds) (tl (chars s))"
            using ih [OF \<open>length q < length p\<close> q(4,5) sub] q(2,3) by simp
          then show ?thesis using True q(1) d(3) by (simp add: fin parse x matches_item)
        next
          case False
          then have "\<not> matches (noCase I) (parse_pattern I esc (chars p)) (chars s)"
            by (cases "chars s") (auto simp: parse x matches_item simp del: fits.simps)
          then show ?thesis using False b x by (auto simp: fin)
        qed
      qed
    next
      case escape
      obtain e p2 where e: "sqlite3Utf8Read p' = (e, p2)" by fastforce
      then have e': "e = 0 \<longleftrightarrow> p' = []" "0 \<notin> set p2" "p' \<noteq> [] \<Longrightarrow> chars p' = e # chars p2" "length p2 \<le> length p'"
        using read_not_0 [OF c(2)] text_read [OF c(2)] read_le [OF e [symmetric]] by (auto simp: chars_read)
      have len: "length p2 < length p" using e'(4) c(4) by simp
      have sub: "set (chars p2) \<subseteq> set (chars p)" using e'(3) c(3) e by (cases "p' = []") auto
      have rest: "patternLoop I esc (Some p2) p2 s' = matches (noCase I) (parse_pattern I esc (chars p2)) (chars s')"
        by (rule ih [OF len e'(2) d(2) sub]) simp
      have "patternLoop I esc zEscaped p s \<longleftrightarrow> e \<noteq> 0 \<and> (e = d \<or> noCase I \<and> e < 0x80 \<and> d < 0x80 \<and> lower32 e = lower32 d) \<and>
          patternLoop I esc (Some p2) p2 s'"
        using escape p c(1) e s' by (simp add: step Let_def) auto
      also have "\<dots> \<longleftrightarrow> matches (noCase I) (parse_pattern I esc (chars p)) (chars s)"
      proof (cases "p' = []")
        case True
        then show ?thesis using escape e' by (simp add: c)
      next
        case False
        then have "parse_pattern I esc (chars p) = Lit e # parse_pattern I esc (chars p2)"
          using escape e'(3) by (simp add: c)
        then show ?thesis using e' False rest d lower32_0 [of e] by (cases "s = []") (auto simp: matches_item)
      qed
      finally show ?thesis .
    next
      case plain
      have esc: "Some p' \<noteq> zEscaped" using less.prems(4) c(4) by auto
      have "\<forall>q. zEscaped = Some q \<longrightarrow> length p' \<le> length q" using less.prems(4) c(4) by fastforce
      then have rest: "patternLoop I esc zEscaped p' s' = matches (noCase I) (parse_pattern I esc (chars p')) (chars s')"
        using ih [OF c(4,2) d(2)] c(3) by auto
      have "patternLoop I esc zEscaped p s \<longleftrightarrow> (c = d \<or> noCase I \<and> c < 0x80 \<and> d < 0x80 \<and> lower32 c = lower32 d \<or>
          c = matchOne I \<and> d \<noteq> 0) \<and> patternLoop I esc zEscaped p' s'"
        using plain p c(1) s' esc by (auto simp add: step)
      also have "\<dots> \<longleftrightarrow> matches (noCase I) (parse_pattern I esc (chars p)) (chars s)"
        using rest d plain c lower32_0 [of c] by (cases "s = []") (auto simp: matches_item)
      finally show ?thesis .
    qed
  qed
qed


text \<open>
  Property C18.  \<^verbatim>\<open>LIKE\<close> and \<^verbatim>\<open>GLOB\<close>: for every pattern and every text (also ones that are not well-formed
  UTF-8) \<^verbatim>\<open>patternCompare\<close> returns whether the characters of the text have a division that fits the
  items of the pattern.  The escape character must not be a wildcard itself, and the pattern must
  not contain U+0080.
\<close>

theorem pattern_compare_matches:
  assumes "usable pInfo esc" "0 \<notin> set zPattern" "0 \<notin> set zString" "0x80 \<notin> set (chars zPattern)"
  shows "patternCompare zPattern zString pInfo esc =
    matches (noCase pInfo) (parse_pattern pInfo esc (chars zPattern)) (chars zString)"
  unfolding patternCompare_def using assms by (intro patternLoop_matches) auto

lemma pattern_compare_matches_witness:
  "patternCompare [0x25, 0x5C, 0x25, 0x5F, 0x41] [0x62, 0xC3, 0xA9, 0x25, 0xC3, 0xA9, 0x61] likeInfoNorm 0x5C"
proof -
  have chars: "chars [0x25, 0x5C, 0x25, 0x5F, 0x41] = [0x25, 0x5C, 0x25, 0x5F, 0x41]"
    "chars [0x62, 0xC3, 0xA9, 0x25, 0xC3, 0xA9, 0x61] = [0x62, 0xE9, 0x25, 0xE9, 0x61]"
    by code_simp+
  have "matches True (parse_pattern likeInfoNorm 0x5C [0x25, 0x5C, 0x25, 0x5F, 0x41]) [0x62, 0xE9, 0x25, 0xE9, 0x61]"
    by code_simp
  then show ?thesis
    by (subst pattern_compare_matches) (simp_all add: usable_tables chars del: parse_pattern.simps, simp_all add: likeInfoNorm_def)
qed

lemma deviating_chars:
  "chars [0x25, 0xC2, 0x80] = [0x25, 0x80]" "chars [0xD1, 0x80] = [0x440]"
  "chars [0x25, 0x5F, 0x78] = [0x25, 0x5F, 0x78]" "chars [0x78] = [0x78]"
  "parse_pattern likeInfoNorm 0 [0x25, 0x80] = [Seq, Lit 0x80]"
  "parse_pattern likeInfoNorm 0x5F [0x25, 0x5F, 0x78] = [Seq, Lit 0x78]"
  by code_simp+

text \<open>
  Property C36.  The patterns that are left out above are treated wrongly: behind \<^verbatim>\<open>%\<close> a U+0080 of the
  pattern is found in the middle of another character (here of U+0440, bytes D1 80), and with \<^verbatim>\<open>_\<close> as the
  escape character an escaped character behind \<^verbatim>\<open>%\<close> is taken for a wildcard and a character.
\<close>

theorem pattern_compare_deviates:
  "patternCompare [0x25, 0xC2, 0x80] [0xD1, 0x80] likeInfoNorm 0 \<and>
     \<not> matches True (parse_pattern likeInfoNorm 0 (chars [0x25, 0xC2, 0x80])) (chars [0xD1, 0x80]) \<and>
   \<not> patternCompare [0x25, 0x5F, 0x78] [0x78] likeInfoNorm 0x5F \<and>
     matches True (parse_pattern likeInfoNorm 0x5F (chars [0x25, 0x5F, 0x78])) (chars [0x78])"
proof -
  have "patternCompare [0x25, 0xC2, 0x80] [0xD1, 0x80] likeInfoNorm 0"
    "\<not> patternCompare [0x25, 0x5F, 0x78] [0x78] likeInfoNorm 0x5F"
    by code_simp+
  then show ?thesis by (simp add: deviating_chars matches_Seq_Cons matches_item del: parse_pattern.simps)
qed

end
