(* ===== verification/Serial.thy ===== *)
theory Serial
  imports Varint
begin

text \<open>
  Values in records, from \<^verbatim>\<open>vdbeaux.c\<close> and \<^verbatim>\<open>vdbemem.c\<close> (in \<^verbatim>\<open>sqlite/3.8.11/sqlite3.c\<close>): the serial type
  of a value, its bytes (\<^verbatim>\<open>sqlite3VdbeSerialPut\<close>), and reading it back (\<^verbatim>\<open>sqlite3VdbeSerialGet\<close>).

  A \<^verbatim>\<open>Mem\<close> is the datatype \<^verbatim>\<open>cell\<close>, by its type flag: a blob carries the length of its tail of zeros
  (\<^verbatim>\<open>MEM_Zero\<close>), a real number is its 64 bits.  The C operations on \<^verbatim>\<open>double\<close> that the code uses (a
  comparison, the conversion from an integer, the test for NaN) are written out on those bits as IEEE
  754 has them.  The lemmas show that every integer gets the shortest serial type that holds it, that
  the lengths agree, and that a value is read back from its bytes.
\<close>

unbundle bit_operations_syntax

datatype cell = MNull | MInt i64 | MReal u64 | MStr "u8 list" | MBlob "u8 list" nat

subsection \<open>Doubles\<close>

definition dbl_nan :: "u64 \<Rightarrow> bool" where
  "dbl_nan x \<longleftrightarrow> 0x7FF0000000000000 < (x AND 0x7FFFFFFFFFFFFFFF)"

definition dbl_key :: "u64 \<Rightarrow> int" where
  "dbl_key x = (let m = int (unat (x AND 0x7FFFFFFFFFFFFFFF)) in if bit x 63 then - m else m)"

definition dbl_less :: "u64 \<Rightarrow> u64 \<Rightarrow> bool" where
  "dbl_less x y \<longleftrightarrow> \<not> dbl_nan x \<and> \<not> dbl_nan y \<and> dbl_key x < dbl_key y"

text \<open>The conversion of an integer, rounding to the nearest and on a tie to the even fraction.\<close>

fun top_bit :: "nat \<Rightarrow> nat \<Rightarrow> nat" where
  "top_bit 0 n = 0"
| "top_bit (Suc k) n = (if 2 ^ Suc k \<le> n then Suc k else top_bit k n)"

definition dbl_of_nat :: "nat \<Rightarrow> nat" where
  "dbl_of_nat n =
     (if n = 0 then 0
      else let e = top_bit 63 n
        in if e \<le> 52 then (e + 1022) * 2 ^ 52 + n * 2 ^ (52 - e)
           else let d = 2 ^ (e - 52); q = n div d; r = n mod d;
                  up = (d < 2 * r \<or> d = 2 * r \<and> odd q)
             in (e + 1022) * 2 ^ 52 + (if up then q + 1 else q))"

definition dbl_of_int :: "i64 \<Rightarrow> u64" where
  "dbl_of_int i =
     (if i <s 0 then of_nat (dbl_of_nat (nat (- sint i)) + 2 ^ 63) else of_nat (dbl_of_nat (unat i)))"

subsection \<open>Serial types\<close>

definition MAX_6BYTE :: u64 where "MAX_6BYTE = 0x00007FFFFFFFFFFF"

definition sqlite3VdbeSerialType :: "cell \<Rightarrow> int \<Rightarrow> u32" where
  "sqlite3VdbeSerialType pMem file_format =
     (case pMem of
        MNull \<Rightarrow> 0
      | MInt i \<Rightarrow>
          (let u = (if i <s 0 then NOT i else i)
           in if u \<le> 127 then (if i AND 1 = i \<and> 4 \<le> file_format then 8 + ucast u else 1)
              else if u \<le> 32767 then 2
              else if u \<le> 8388607 then 3
              else if u \<le> 2147483647 then 4
              else if u \<le> MAX_6BYTE then 5
              else 6)
      | MReal r \<Rightarrow> 7
      | MStr z \<Rightarrow> of_nat (length z) * 2 + 12 + 1
      | MBlob z nZero \<Rightarrow> (of_nat (length z) + of_nat nZero) * 2 + 12)"

definition aSize :: "nat list" where
  "aSize = [0, 1, 2, 3, 4, 6, 8, 8, 0, 0, 0, 0]"

definition sqlite3VdbeSerialTypeLen :: "u32 \<Rightarrow> u32" where
  "sqlite3VdbeSerialTypeLen serial_type =
     (if 12 \<le> serial_type then (serial_type - 12) div 2 else of_nat (aSize ! unat serial_type))"

text \<open>The loop writes from the last byte to the first; the list is the bytes in order.\<close>

fun serialPutLoop :: "nat \<Rightarrow> u64 \<Rightarrow> u8 list" where
  "serialPutLoop 0 v = []"
| "serialPutLoop (Suc i) v = serialPutLoop i (drop_bit 8 v) @ [ucast (v AND 0xFF)]"

text \<open>The eight bytes of the union \<^verbatim>\<open>u\<close>; only numbers are read from it.\<close>

fun cell_u :: "cell \<Rightarrow> u64" where
  "cell_u (MInt i) = i"
| "cell_u (MReal r) = r"
| "cell_u _ = 0"

fun cell_z :: "cell \<Rightarrow> u8 list" where
  "cell_z (MStr z) = z"
| "cell_z (MBlob z _) = z"
| "cell_z _ = []"

definition sqlite3VdbeSerialPut :: "cell \<Rightarrow> u32 \<Rightarrow> u8 list" where
  "sqlite3VdbeSerialPut pMem serial_type =
     (if serial_type \<le> 7 \<and> 0 < serial_type
      then serialPutLoop (unat (sqlite3VdbeSerialTypeLen serial_type)) (cell_u pMem)
      else if 12 \<le> serial_type then cell_z pMem
      else [])"

definition ONE_BYTE_INT :: "(nat \<Rightarrow> u8) \<Rightarrow> i32" where
  "ONE_BYTE_INT x = scast (x 0)"

definition TWO_BYTE_INT :: "(nat \<Rightarrow> u8) \<Rightarrow> i32" where
  "TWO_BYTE_INT x = 256 * scast (x 0) OR ucast (x 1)"

definition THREE_BYTE_INT :: "(nat \<Rightarrow> u8) \<Rightarrow> i32" where
  "THREE_BYTE_INT x = 65536 * scast (x 0) OR push_bit 8 (ucast (x 1)) OR ucast (x 2)"

definition FOUR_BYTE_UINT :: "(nat \<Rightarrow> u8) \<Rightarrow> u32" where
  "FOUR_BYTE_UINT x =
     push_bit 24 (ucast (x 0)) OR push_bit 16 (ucast (x 1)) OR push_bit 8 (ucast (x 2)) OR ucast (x 3)"

definition FOUR_BYTE_INT :: "(nat \<Rightarrow> u8) \<Rightarrow> i32" where
  "FOUR_BYTE_INT x =
     16777216 * scast (x 0) OR push_bit 16 (ucast (x 1)) OR push_bit 8 (ucast (x 2)) OR ucast (x 3)"

definition SIX_BYTE_INT :: "(nat \<Rightarrow> u8) \<Rightarrow> i64" where
  "SIX_BYTE_INT buf = ucast (FOUR_BYTE_UINT (\<lambda>i. buf (i + 2))) + push_bit 32 1 * scast (TWO_BYTE_INT buf)"

definition serialGet :: "(nat \<Rightarrow> u8) \<Rightarrow> u32 \<Rightarrow> u32 \<times> cell" where
  "serialGet buf serial_type =
     (let x = ucast (FOUR_BYTE_UINT buf) :: u64;
        y = FOUR_BYTE_UINT (\<lambda>i. buf (i + 4));
        x = push_bit 32 x + ucast y
      in (8, if serial_type = 6 then MInt x else if dbl_nan x then MNull else MReal x))"

definition sqlite3VdbeSerialGet :: "(nat \<Rightarrow> u8) \<Rightarrow> u32 \<Rightarrow> u32 \<times> cell" where
  "sqlite3VdbeSerialGet buf serial_type =
     (if serial_type = 10 \<or> serial_type = 11 \<or> serial_type = 0 then (0, MNull)
      else if serial_type = 1 then (1, MInt (scast (ONE_BYTE_INT buf)))
      else if serial_type = 2 then (2, MInt (scast (TWO_BYTE_INT buf)))
      else if serial_type = 3 then (3, MInt (scast (THREE_BYTE_INT buf)))
      else if serial_type = 4 then (4, MInt (scast (FOUR_BYTE_INT buf)))
      else if serial_type = 5 then (6, MInt (SIX_BYTE_INT buf))
      else if serial_type = 6 \<or> serial_type = 7 then serialGet buf serial_type
      else if serial_type = 8 \<or> serial_type = 9 then (0, MInt (ucast (serial_type - 8)))
      else let n = (serial_type - 12) div 2; z = map buf [0..<unat n]
        in (n, if serial_type AND 1 = 0 then MBlob z 0 else MStr z))"

subsection \<open>Integers are read back\<close>

lemma serialPutLoop_bytes:
  "serialPutLoop 1 v = [ucast v]"
  "serialPutLoop 2 v = [ucast (drop_bit 8 v), ucast v]"
  "serialPutLoop 3 v = [ucast (drop_bit 16 v), ucast (drop_bit 8 v), ucast v]"
  "serialPutLoop 4 v = [ucast (drop_bit 24 v), ucast (drop_bit 16 v), ucast (drop_bit 8 v), ucast v]"
  "serialPutLoop 6 v = [ucast (drop_bit 40 v), ucast (drop_bit 32 v), ucast (drop_bit 24 v),
     ucast (drop_bit 16 v), ucast (drop_bit 8 v), ucast v]"
  "serialPutLoop 8 v = [ucast (drop_bit 56 v), ucast (drop_bit 48 v), ucast (drop_bit 40 v),
     ucast (drop_bit 32 v), ucast (drop_bit 24 v), ucast (drop_bit 16 v), ucast (drop_bit 8 v), ucast v]"
proof -
  have low: "ucast (w AND 0xFF) = (ucast w :: u8)" for w :: u64
  proof (rule bit_word_eqI)
    fix n assume "n < LENGTH(8)"
    then have "n \<in> set [0, 1, 2, 3, 4, 5, 6, 7]" by (auto simp: eval_nat_numeral less_Suc_eq)
    then show "bit (ucast (w AND 0xFF) :: u8) n = bit (ucast w :: u8) n" by (auto simp: bit_simps)
  qed
  have step: "serialPutLoop (Suc i) v = serialPutLoop i (drop_bit 8 v) @ [ucast v]" for i v
    by (simp add: low)
  have 1: "serialPutLoop 1 v = [ucast v]" for v using step [of 0 v] by simp
  have 2: "serialPutLoop 2 v = [ucast (drop_bit 8 v), ucast v]" for v
    using step [of 1 v] by (simp only: 1 Suc_1 append.simps)
  have 3: "serialPutLoop 3 v = [ucast (drop_bit 16 v), ucast (drop_bit 8 v), ucast v]" for v
    using step [of 2 v] by (simp add: 2 del: serialPutLoop.simps)
  have 4: "serialPutLoop 4 v = [ucast (drop_bit 24 v), ucast (drop_bit 16 v), ucast (drop_bit 8 v), ucast v]" for v
    using step [of 3 v] by (simp add: 3 del: serialPutLoop.simps)
  have 5: "serialPutLoop 5 v = [ucast (drop_bit 32 v), ucast (drop_bit 24 v), ucast (drop_bit 16 v), ucast (drop_bit 8 v), ucast v]" for v
    using step [of 4 v] by (simp add: 4 del: serialPutLoop.simps)
  have 6: "serialPutLoop 6 v = [ucast (drop_bit 40 v), ucast (drop_bit 32 v), ucast (drop_bit 24 v),
     ucast (drop_bit 16 v), ucast (drop_bit 8 v), ucast v]" for v
    using step [of 5 v] by (simp add: 5 del: serialPutLoop.simps)
  have 7: "serialPutLoop 7 v = [ucast (drop_bit 48 v), ucast (drop_bit 40 v), ucast (drop_bit 32 v),
     ucast (drop_bit 24 v), ucast (drop_bit 16 v), ucast (drop_bit 8 v), ucast v]" for v
    using step [of 6 v] by (simp add: 6 del: serialPutLoop.simps)
  have 8: "serialPutLoop 8 v = [ucast (drop_bit 56 v), ucast (drop_bit 48 v), ucast (drop_bit 40 v),
     ucast (drop_bit 32 v), ucast (drop_bit 24 v), ucast (drop_bit 16 v), ucast (drop_bit 8 v), ucast v]" for v
    using step [of 7 v] by (simp add: 7 del: serialPutLoop.simps)
  show "serialPutLoop 1 v = [ucast v]"
    "serialPutLoop 2 v = [ucast (drop_bit 8 v), ucast v]"
    "serialPutLoop 3 v = [ucast (drop_bit 16 v), ucast (drop_bit 8 v), ucast v]"
    "serialPutLoop 4 v = [ucast (drop_bit 24 v), ucast (drop_bit 16 v), ucast (drop_bit 8 v), ucast v]"
    "serialPutLoop 6 v = [ucast (drop_bit 40 v), ucast (drop_bit 32 v), ucast (drop_bit 24 v),
       ucast (drop_bit 16 v), ucast (drop_bit 8 v), ucast v]"
    "serialPutLoop 8 v = [ucast (drop_bit 56 v), ucast (drop_bit 48 v), ucast (drop_bit 40 v),
       ucast (drop_bit 32 v), ucast (drop_bit 24 v), ucast (drop_bit 16 v), ucast (drop_bit 8 v), ucast v]"
    by (rule 1 2 3 4 6 8)+
qed

declare serialPutLoop.simps [simp del]

lemma times_shift:
  fixes x :: u32
  shows "256 * x = push_bit 8 x" "65536 * x = push_bit 16 x" "16777216 * x = push_bit 24 x"
  by (simp_all add: push_bit_eq_mult mult.commute)

lemmas byte_ints = ONE_BYTE_INT_def TWO_BYTE_INT_def THREE_BYTE_INT_def FOUR_BYTE_INT_def FOUR_BYTE_UINT_def
  times_shift

lemma two_byte_bits:
  assumes "p 0 = ucast (drop_bit 8 v)" "p 1 = ucast v"
  shows "scast (TWO_BYTE_INT p) = signed_take_bit 15 (v :: u64)"
  by (rule u64_bits_eqI) (simp add: byte_ints assms bit_simps del: One_nat_def)

lemma three_byte_bits:
  assumes "p 0 = ucast (drop_bit 16 v)" "p 1 = ucast (drop_bit 8 v)" "p 2 = ucast v"
  shows "scast (THREE_BYTE_INT p) = signed_take_bit 23 (v :: u64)"
  by (rule u64_bits_eqI) (simp add: byte_ints assms bit_simps del: One_nat_def)

lemma four_byte_bits:
  assumes "p 0 = ucast (drop_bit 24 v)" "p 1 = ucast (drop_bit 16 v)" "p 2 = ucast (drop_bit 8 v)" "p 3 = ucast v"
  shows "scast (FOUR_BYTE_INT p) = signed_take_bit 31 (v :: u64)"
    and "ucast (FOUR_BYTE_UINT p) = take_bit 32 (v :: u64)"
  by (rule u64_bits_eqI, simp add: byte_ints assms bit_simps del: One_nat_def)+

lemma holds_nth:
  assumes "holds p bs"
  shows "0 < length bs \<Longrightarrow> p 0 = bs ! 0" "1 < length bs \<Longrightarrow> p 1 = bs ! 1" "2 < length bs \<Longrightarrow> p 2 = bs ! 2"
    "3 < length bs \<Longrightarrow> p 3 = bs ! 3" "4 < length bs \<Longrightarrow> p 4 = bs ! 4" "5 < length bs \<Longrightarrow> p 5 = bs ! 5"
    "6 < length bs \<Longrightarrow> p 6 = bs ! 6" "7 < length bs \<Longrightarrow> p 7 = bs ! 7"
  using assms by (simp_all add: holds_def)

lemma one_byte_bits:
  assumes "p 0 = ucast v"
  shows "scast (ONE_BYTE_INT p) = signed_take_bit 7 (v :: u64)"
  by (rule u64_bits_eqI) (simp add: byte_ints assms bit_simps del: One_nat_def)

text \<open>Two parts of a word that share no bit.\<close>

lemma join_words: "take_bit n v + push_bit n (w :: u64) = take_bit n v OR push_bit n w"
  by (rule disjunctive_add) (simp add: bit_simps)

lemma six_byte_bits:
  assumes "p 0 = ucast (drop_bit 40 v)" "p 1 = ucast (drop_bit 32 v)" "p 2 = ucast (drop_bit 24 v)"
    "p 3 = ucast (drop_bit 16 v)" "p 4 = ucast (drop_bit 8 v)" "p 5 = ucast v"
  shows "SIX_BYTE_INT p = signed_take_bit 47 (v :: u64)"
proof -
  have "ucast (FOUR_BYTE_UINT (\<lambda>i. p (i + 2))) = take_bit 32 v"
    by (rule four_byte_bits(2)) (simp_all add: assms one_plus_numeral del: One_nat_def add_2_eq_Suc add_2_eq_Suc')
  moreover have "scast (TWO_BYTE_INT p) = signed_take_bit 15 (drop_bit 32 v)"
    by (rule two_byte_bits) (simp_all add: assms del: One_nat_def)
  moreover have "take_bit 32 v OR push_bit 32 (signed_take_bit 15 (drop_bit 32 v)) = signed_take_bit 47 v"
    by (rule u64_bits_eqI) (simp add: bit_simps)
  moreover have "push_bit 32 1 * x = push_bit 32 x" for x :: u64
    by (simp add: push_bit_eq_mult)
  ultimately show ?thesis by (simp only: SIX_BYTE_INT_def join_words)
qed

lemma eight_byte_bits:
  assumes "p 0 = ucast (drop_bit 56 v)" "p 1 = ucast (drop_bit 48 v)" "p 2 = ucast (drop_bit 40 v)"
    "p 3 = ucast (drop_bit 32 v)" "p 4 = ucast (drop_bit 24 v)" "p 5 = ucast (drop_bit 16 v)"
    "p 6 = ucast (drop_bit 8 v)" "p 7 = ucast v"
  shows "push_bit 32 (ucast (FOUR_BYTE_UINT p)) + ucast (FOUR_BYTE_UINT (\<lambda>i. p (i + 4))) = (v :: u64)"
proof -
  have lo: "ucast (FOUR_BYTE_UINT (\<lambda>i. p (i + 4))) = take_bit 32 v"
    by (rule four_byte_bits(2)) (simp_all add: assms one_plus_numeral del: One_nat_def add_2_eq_Suc add_2_eq_Suc')
  have hi: "ucast (FOUR_BYTE_UINT p) = take_bit 32 (drop_bit 32 v)"
    by (rule four_byte_bits(2)) (simp_all add: assms del: One_nat_def)
  have "take_bit 32 v OR push_bit 32 (take_bit 32 (drop_bit 32 v)) = v"
    by (rule u64_bits_eqI) (simp add: bit_simps)
  then show ?thesis using join_words [of 32 v "take_bit 32 (drop_bit 32 v)"] by (simp add: lo hi add.commute)
qed

subsection \<open>Ranges\<close>

text \<open>An integer whose magnitude fits \<^verbatim>\<open>n\<close> bits is its low \<^verbatim>\<open>n + 1\<close> bits, signed.\<close>

lemma less_power_bits: "unat u < 2 ^ n \<Longrightarrow> n \<le> m \<Longrightarrow> \<not> bit u m" for u :: u64
proof
  assume u: "unat u < 2 ^ n" "n \<le> m" "bit u m"
  then have "bit (unat u) m" by (simp add: bit_unsigned_iff bit_imp_possible_bit)
  then have "odd (unat u div 2 ^ m)" by (simp add: bit_iff_odd)
  moreover have "unat u < 2 ^ m" using u(1,2) by (meson order_less_le_trans one_le_numeral power_increasing)
  ultimately show False by simp
qed

lemma small_signed:
  fixes i :: i64
  assumes "unat (if i <s 0 then NOT i else i) < 2 ^ n" "n < 64"
  shows "signed_take_bit n i = i"
proof (rule bit_word_eqI)
  fix m assume m: "m < LENGTH(64)"
  have neg: "i <s 0 \<longleftrightarrow> bit i 63" using bit_last_iff [of i] by (simp add: word_sless_alt)
  have high: "bit i k = (i <s 0)" if "n \<le> k" "k < 64" for k
    using less_power_bits [OF assms(1) that(1)] that by (auto simp: bit_simps split: if_splits)
  show "bit (signed_take_bit n i) m = bit i m"
    using m high [of n] high [of m] assms(2) by (auto simp: bit_simps min_def)
qed

text \<open>The serial type of an integer is the shortest that holds it.\<close>

lemma type_of_int:
  fixes i :: i64 and ff :: int
  defines "t \<equiv> sqlite3VdbeSerialType (MInt i) ff"
  shows "t \<in> {1, 2, 3, 4, 5, 6, 8, 9}"
    and "t = 1 \<Longrightarrow> signed_take_bit 7 i = i" and "t = 2 \<Longrightarrow> signed_take_bit 15 i = i"
    and "t = 3 \<Longrightarrow> signed_take_bit 23 i = i" and "t = 4 \<Longrightarrow> signed_take_bit 31 i = i"
    and "t = 5 \<Longrightarrow> signed_take_bit 47 i = i" and "t = 8 \<Longrightarrow> i = 0" and "t = 9 \<Longrightarrow> i = 1"
proof -
  let ?u = "if i <s 0 then NOT i else i"
  consider (c) "?u \<le> 127" "i AND 1 = i" "4 \<le> ff" | (1) "?u \<le> 127" "\<not> (i AND 1 = i \<and> 4 \<le> ff)"
    | (2) "\<not> ?u \<le> 127" "?u \<le> 32767"
    | (3) "\<not> ?u \<le> 127" "\<not> ?u \<le> 32767" "?u \<le> 8388607"
    | (4) "\<not> ?u \<le> 127" "\<not> ?u \<le> 32767" "\<not> ?u \<le> 8388607" "?u \<le> 2147483647"
    | (5) "\<not> ?u \<le> 127" "\<not> ?u \<le> 32767" "\<not> ?u \<le> 8388607" "\<not> ?u \<le> 2147483647" "?u \<le> MAX_6BYTE"
    | (6) "\<not> ?u \<le> 127" "\<not> ?u \<le> 32767" "\<not> ?u \<le> 8388607" "\<not> ?u \<le> 2147483647" "\<not> ?u \<le> MAX_6BYTE"
    by blast
  then have "t \<in> {1, 2, 3, 4, 5, 6, 8, 9} \<and> (t = 1 \<longrightarrow> signed_take_bit 7 i = i) \<and> (t = 2 \<longrightarrow> signed_take_bit 15 i = i) \<and>
    (t = 3 \<longrightarrow> signed_take_bit 23 i = i) \<and> (t = 4 \<longrightarrow> signed_take_bit 31 i = i) \<and>
    (t = 5 \<longrightarrow> signed_take_bit 47 i = i) \<and> (t = 8 \<longrightarrow> i = 0) \<and> (t = 9 \<longrightarrow> i = 1)"
  proof cases
    case c
    have "i = 0 \<or> i = 1"
    proof -
      have "i AND 1 = (if odd i then 1 else 0)" by (simp add: and_one_eq odd_iff_mod_2_eq_one)
      then show ?thesis using c(2) by (metis)
    qed
    then have "t = 8 \<and> i = 0 \<or> t = 9 \<and> i = 1" using c by (auto simp: t_def sqlite3VdbeSerialType_def)
    then show ?thesis by auto
  next
    case 1
    then have "t = 1" by (auto simp: t_def sqlite3VdbeSerialType_def Let_def)
    moreover have "signed_take_bit 7 i = i" using 1 by (intro small_signed) (auto simp: word_le_nat_alt)
    ultimately show ?thesis by simp
  next
    case 2
    then have "t = 2" by (simp add: t_def sqlite3VdbeSerialType_def Let_def)
    moreover have "signed_take_bit 15 i = i" using 2 by (intro small_signed) (auto simp: word_le_nat_alt)
    ultimately show ?thesis by simp
  next
    case 3
    then have "t = 3" by (simp add: t_def sqlite3VdbeSerialType_def Let_def)
    moreover have "signed_take_bit 23 i = i" using 3 by (intro small_signed) (auto simp: word_le_nat_alt)
    ultimately show ?thesis by simp
  next
    case 4
    then have "t = 4" by (simp add: t_def sqlite3VdbeSerialType_def Let_def)
    moreover have "signed_take_bit 31 i = i" using 4 by (intro small_signed) (auto simp: word_le_nat_alt)
    ultimately show ?thesis by simp
  next
    case 5
    then have "t = 5" by (simp add: t_def sqlite3VdbeSerialType_def Let_def)
    moreover have "signed_take_bit 47 i = i" using 5 by (intro small_signed) (auto simp: word_le_nat_alt MAX_6BYTE_def)
    ultimately show ?thesis by simp
  next
    case 6
    then have "t = 6" by (simp add: t_def sqlite3VdbeSerialType_def Let_def)
    then show ?thesis by simp
  qed
  then show "t \<in> {1, 2, 3, 4, 5, 6, 8, 9}"
    and "t = 1 \<Longrightarrow> signed_take_bit 7 i = i" and "t = 2 \<Longrightarrow> signed_take_bit 15 i = i"
    and "t = 3 \<Longrightarrow> signed_take_bit 23 i = i" and "t = 4 \<Longrightarrow> signed_take_bit 31 i = i"
    and "t = 5 \<Longrightarrow> signed_take_bit 47 i = i" and "t = 8 \<Longrightarrow> i = 0" and "t = 9 \<Longrightarrow> i = 1"
    by blast+
qed

text \<open>The cells that a record can hold: no NaN, and lengths whose serial type fits 32 bits.\<close>

fun storable :: "cell \<Rightarrow> bool" where
  "storable (MReal r) = (\<not> dbl_nan r)"
| "storable (MStr z) = (length z \<le> 1000000000)"
| "storable (MBlob z n) = (length z + n \<le> 1000000000)"
| "storable _ = True"

fun cell_zeros :: "cell \<Rightarrow> nat" where
  "cell_zeros (MBlob z n) = n"
| "cell_zeros _ = 0"

lemma long_type:
  "length z + n < 2 ^ 30 \<Longrightarrow>
     unat (sqlite3VdbeSerialType (MBlob z n) ff) = (length z + n) * 2 + 12"
  "length z < 2 ^ 30 \<Longrightarrow> unat (sqlite3VdbeSerialType (MStr z) ff) = length z * 2 + 13"
proof -
  assume n: "length z + n < 2 ^ 30"
  have "sqlite3VdbeSerialType (MBlob z n) ff = of_nat ((length z + n) * 2 + 12)"
    by (simp add: sqlite3VdbeSerialType_def)
  then show "unat (sqlite3VdbeSerialType (MBlob z n) ff) = (length z + n) * 2 + 12"
    using n by (simp only: unsigned_of_nat) (simp add: take_bit_nat_eq_self)
next
  assume n: "length z < 2 ^ 30"
  have "sqlite3VdbeSerialType (MStr z) ff = of_nat (length z * 2 + 13)"
    by (simp add: sqlite3VdbeSerialType_def)
  then show "unat (sqlite3VdbeSerialType (MStr z) ff) = length z * 2 + 13"
    using n by (simp only: unsigned_of_nat) (simp add: take_bit_nat_eq_self)
qed

lemma long_type_len:
  fixes t :: u32
  assumes "unat t = n * 2 + 12 + k" "k < 2"
  shows "unat ((t - 12) div 2) = n" "12 \<le> t" "t AND 1 = 0 \<longleftrightarrow> k = 0"
proof -
  show le: "12 \<le> t" using assms by (simp add: word_le_nat_alt)
  have "unat (t - 12) = n * 2 + k" using assms le by (simp add: unat_sub)
  then show "unat ((t - 12) div 2) = n" using assms(2) by (simp add: unat_div)
  have "unat (t AND 1) = unat t mod 2" by (simp add: and_one_eq unat_mod)
  also have "\<dots> = (n * 2 + 12 + k) mod 2" using assms by simp
  also have "\<dots> = k" using assms(2) by presburger
  finally show "t AND 1 = 0 \<longleftrightarrow> k = 0" by (metis unat_eq_zero)
qed

lemma small_type_lens:
  "sqlite3VdbeSerialTypeLen 0 = 0" "sqlite3VdbeSerialTypeLen 1 = 1" "sqlite3VdbeSerialTypeLen 2 = 2"
  "sqlite3VdbeSerialTypeLen 3 = 3" "sqlite3VdbeSerialTypeLen 4 = 4" "sqlite3VdbeSerialTypeLen 5 = 6"
  "sqlite3VdbeSerialTypeLen 6 = 8" "sqlite3VdbeSerialTypeLen 7 = 8" "sqlite3VdbeSerialTypeLen 8 = 0"
  "sqlite3VdbeSerialTypeLen 9 = 0"
  by code_simp+

lemma length_serialPutLoop [simp]: "length (serialPutLoop n v) = n"
  by (induction n v rule: serialPutLoop.induct) (simp_all add: serialPutLoop.simps)

lemma length_SerialPut:
  assumes "storable m"
  shows "length (sqlite3VdbeSerialPut m (sqlite3VdbeSerialType m ff)) + cell_zeros m =
    unat (sqlite3VdbeSerialTypeLen (sqlite3VdbeSerialType m ff))"
proof (cases m)
  case MNull
  then show ?thesis by (simp add: sqlite3VdbeSerialType_def sqlite3VdbeSerialPut_def small_type_lens)
next
  case (MInt i)
  have "sqlite3VdbeSerialType m ff \<in> {1, 2, 3, 4, 5, 6, 8, 9}" using type_of_int(1) MInt by blast
  then show ?thesis using MInt by (auto simp: sqlite3VdbeSerialPut_def small_type_lens)
next
  case (MReal r)
  then show ?thesis by (simp add: sqlite3VdbeSerialType_def sqlite3VdbeSerialPut_def small_type_lens)
next
  case (MStr z)
  note t = long_type_len [where k = 1, OF trans [OF long_type(2) [of z ff]], of "length z"]
  have "12 \<le> sqlite3VdbeSerialType m ff" "unat ((sqlite3VdbeSerialType m ff - 12) div 2) = length z"
    using t assms MStr by auto
  moreover from this(1) have "\<not> sqlite3VdbeSerialType m ff \<le> 7" by (simp add: word_le_nat_alt)
  ultimately show ?thesis using MStr by (simp add: sqlite3VdbeSerialPut_def sqlite3VdbeSerialTypeLen_def)
next
  case (MBlob z n)
  note t = long_type_len [where k = 0, OF trans [OF long_type(1) [of z n ff]], of "length z + n"]
  have "12 \<le> sqlite3VdbeSerialType m ff" "unat ((sqlite3VdbeSerialType m ff - 12) div 2) = length z + n"
    using t assms MBlob by auto
  moreover from this(1) have "\<not> sqlite3VdbeSerialType m ff \<le> 7" by (simp add: word_le_nat_alt)
  ultimately show ?thesis using MBlob by (simp add: sqlite3VdbeSerialPut_def sqlite3VdbeSerialTypeLen_def)
qed

lemma scast_small: "scast (1 :: i32) = (1 :: i64)"
  by code_simp

lemma serialGet_bytes:
  assumes "holds p (serialPutLoop 8 v)"
  shows "serialGet p t = (8, if t = 6 then MInt v else if dbl_nan v then MNull else MReal v)"
proof -
  have "push_bit 32 (ucast (FOUR_BYTE_UINT p)) + ucast (FOUR_BYTE_UINT (\<lambda>i. p (i + 4))) = v"
    by (rule eight_byte_bits) (use holds_nth [OF assms [unfolded serialPutLoop_bytes]] in simp_all)
  then show ?thesis by (simp add: serialGet_def)
qed

lemma long_not_small:
  fixes t :: u32
  assumes "12 \<le> t"
  shows "t \<noteq> 0" "t \<noteq> 1" "t \<noteq> 2" "t \<noteq> 3" "t \<noteq> 4" "t \<noteq> 5" "t \<noteq> 6" "t \<noteq> 7" "t \<noteq> 8" "t \<noteq> 9"
    "t \<noteq> 10" "t \<noteq> 11" "\<not> t \<le> 7"
  using assms by (auto simp: word_le_nat_alt)

lemma SerialGet_long:
  assumes "12 \<le> t"
  shows "sqlite3VdbeSerialGet p t = (sqlite3VdbeSerialTypeLen t,
      let z = map p [0..<unat ((t - 12) div 2)] in if t AND 1 = 0 then MBlob z 0 else MStr z)"
    and "sqlite3VdbeSerialPut m t = cell_z m"
  using long_not_small [OF assms] assms
  by (simp_all add: sqlite3VdbeSerialGet_def sqlite3VdbeSerialTypeLen_def sqlite3VdbeSerialPut_def Let_def)

lemma map_holds: "holds p z \<Longrightarrow> map p [0..<length z] = z"
  by (rule nth_equalityI) (simp_all add: holds_def)

lemma SerialGet_put:
  assumes "storable m" "cell_zeros m = 0" "holds p (sqlite3VdbeSerialPut m (sqlite3VdbeSerialType m ff))"
  shows "sqlite3VdbeSerialGet p (sqlite3VdbeSerialType m ff) =
    (sqlite3VdbeSerialTypeLen (sqlite3VdbeSerialType m ff), m)"
proof (cases m)
  case MNull
  then show ?thesis by (simp add: sqlite3VdbeSerialType_def sqlite3VdbeSerialGet_def small_type_lens)
next
  case (MInt i)
  let ?t = "sqlite3VdbeSerialType (MInt i) ff"
  note t = type_of_int [of i ff]
  consider "?t = 1" | "?t = 2" | "?t = 3" | "?t = 4" | "?t = 5" | "?t = 6" | "?t = 8" | "?t = 9"
    using t(1) by auto
  then have "sqlite3VdbeSerialGet p ?t = (sqlite3VdbeSerialTypeLen ?t, MInt i)"
  proof cases
    case 1
    then have h: "holds p (serialPutLoop 1 i)" using assms(3) MInt by (simp add: sqlite3VdbeSerialPut_def small_type_lens)
    have "scast (ONE_BYTE_INT p) = signed_take_bit 7 i"
      by (rule one_byte_bits) (use holds_nth [OF h [unfolded serialPutLoop_bytes]] in simp_all)
    then show ?thesis using 1 t(2) by (simp add: sqlite3VdbeSerialGet_def small_type_lens)
  next
    case 2
    then have h: "holds p (serialPutLoop 2 i)" using assms(3) MInt by (simp add: sqlite3VdbeSerialPut_def small_type_lens)
    have "scast (TWO_BYTE_INT p) = signed_take_bit 15 i"
      by (rule two_byte_bits) (use holds_nth [OF h [unfolded serialPutLoop_bytes]] in simp_all)
    then show ?thesis using 2 t(3) by (simp add: sqlite3VdbeSerialGet_def small_type_lens)
  next
    case 3
    then have h: "holds p (serialPutLoop 3 i)" using assms(3) MInt by (simp add: sqlite3VdbeSerialPut_def small_type_lens)
    have "scast (THREE_BYTE_INT p) = signed_take_bit 23 i"
      by (rule three_byte_bits) (use holds_nth [OF h [unfolded serialPutLoop_bytes]] in simp_all)
    then show ?thesis using 3 t(4) by (simp add: sqlite3VdbeSerialGet_def small_type_lens)
  next
    case 4
    then have h: "holds p (serialPutLoop 4 i)" using assms(3) MInt by (simp add: sqlite3VdbeSerialPut_def small_type_lens)
    have "scast (FOUR_BYTE_INT p) = signed_take_bit 31 i"
      by (rule four_byte_bits(1)) (use holds_nth [OF h [unfolded serialPutLoop_bytes]] in simp_all)
    then show ?thesis using 4 t(5) by (simp add: sqlite3VdbeSerialGet_def small_type_lens)
  next
    case 5
    then have h: "holds p (serialPutLoop 6 i)" using assms(3) MInt by (simp add: sqlite3VdbeSerialPut_def small_type_lens)
    have "SIX_BYTE_INT p = signed_take_bit 47 i"
      by (rule six_byte_bits) (use holds_nth [OF h [unfolded serialPutLoop_bytes]] in simp_all)
    then show ?thesis using 5 t(6) by (simp add: sqlite3VdbeSerialGet_def small_type_lens)
  next
    case 6
    then have h: "holds p (serialPutLoop 8 i)" using assms(3) MInt by (simp add: sqlite3VdbeSerialPut_def small_type_lens)
    then show ?thesis using 6 serialGet_bytes [OF h] by (simp add: sqlite3VdbeSerialGet_def small_type_lens)
  next
    case 7
    then show ?thesis using t(7) by (simp add: sqlite3VdbeSerialGet_def small_type_lens)
  next
    case 8
    then show ?thesis using t(8) by (simp add: sqlite3VdbeSerialGet_def small_type_lens)
  qed
  then show ?thesis using MInt by simp
next
  case (MReal r)
  then have t: "sqlite3VdbeSerialType m ff = 7" by (simp add: sqlite3VdbeSerialType_def)
  then have "holds p (serialPutLoop 8 r)" using assms(3) MReal by (simp add: sqlite3VdbeSerialPut_def small_type_lens)
  from serialGet_bytes [OF this] show ?thesis using assms(1) MReal t
    by (simp add: sqlite3VdbeSerialGet_def small_type_lens)
next
  case (MStr z)
  let ?t = "sqlite3VdbeSerialType m ff"
  note t = long_type_len [where k = 1, OF trans [OF long_type(2) [of z ff]], of "length z"]
  have "12 \<le> ?t" "unat ((?t - 12) div 2) = length z" "?t AND 1 \<noteq> 0" using t assms MStr by auto
  then show ?thesis using assms(3) MStr by (simp add: SerialGet_long map_holds)
next
  case (MBlob z n)
  let ?t = "sqlite3VdbeSerialType m ff"
  note t = long_type_len [where k = 0, OF trans [OF long_type(1) [of z n ff]], of "length z + n"]
  have "12 \<le> ?t" "unat ((?t - 12) div 2) = length z" "?t AND 1 = 0" using t assms MBlob by auto
  then show ?thesis using assms(2,3) MBlob by (simp add: SerialGet_long map_holds)
qed

end
