(* ===== verification/Records.thy ===== *)
theory Records
  imports Serial
begin

text \<open>
  Records: a row or an index key as one sequence of bytes.  \<^verbatim>\<open>OP_MakeRecord\<close> of \<^verbatim>\<open>vdbe.c\<close> builds it from
  cells, \<^verbatim>\<open>sqlite3VdbeRecordUnpack\<close> of \<^verbatim>\<open>vdbeaux.c\<close> takes it apart, and the comparison routines compare
  it with an unpacked key without unpacking it (all in \<^verbatim>\<open>sqlite/3.8.11/sqlite3.c\<close>).

  A record in memory is a function from offsets to bytes, so that reading behind its end is reading
  the bytes there; 32-bit offsets are words.  Collating functions are functions on byte sequences; all
  text is UTF-8.  The lemmas show that a record is unpacked to the cells it was made from, and that
  all three comparison routines give the sign of the comparison field by field with
  \<^verbatim>\<open>sqlite3MemCompare\<close>.
\<close>

unbundle bit_operations_syntax

type_synonym coll = "u8 list \<Rightarrow> u8 list \<Rightarrow> int"

record key_info =
  ki_aColl :: "coll option list"
  ki_aSortOrder :: "bool list"
  ki_nField :: nat
  ki_nXField :: nat

record unpacked =
  up_aMem :: "cell list"
  up_nField :: nat
  up_default_rc :: int
  up_errCode :: int
  up_r1 :: int
  up_r2 :: int


subsection \<open>Comparing cells\<close>

fun memcmp :: "u8 list \<Rightarrow> u8 list \<Rightarrow> int" where
  "memcmp (a # x) (b # y) = (if a = b then memcmp x y else int (unat a) - int (unat b))"
| "memcmp _ _ = 0"

definition sqlite3BlobCompare :: "u8 list \<Rightarrow> u8 list \<Rightarrow> int" where
  "sqlite3BlobCompare b1 b2 =
     (let n = min (length b1) (length b2); c = memcmp (take n b1) (take n b2)
      in if c \<noteq> 0 then c else int (length b1) - int (length b2))"

definition sqlite3MemCompare :: "cell \<Rightarrow> cell \<Rightarrow> coll option \<Rightarrow> int" where
  "sqlite3MemCompare m1 m2 pColl =
     (if m1 = MNull \<or> m2 = MNull
      then (if m2 = MNull then 1 else 0) - (if m1 = MNull then 1 else 0)
      else case (m1, m2) of
        (MInt i, MInt j) \<Rightarrow> if i <s j then - 1 else if j <s i then 1 else 0
      | (MInt i, MReal s) \<Rightarrow> if dbl_less (dbl_of_int i) s then - 1 else if dbl_less s (dbl_of_int i) then 1 else 0
      | (MReal r, MInt j) \<Rightarrow> if dbl_less r (dbl_of_int j) then - 1 else if dbl_less (dbl_of_int j) r then 1 else 0
      | (MReal r, MReal s) \<Rightarrow> if dbl_less r s then - 1 else if dbl_less s r then 1 else 0
      | (MInt _, _) \<Rightarrow> - 1
      | (MReal _, _) \<Rightarrow> - 1
      | (_, MInt _) \<Rightarrow> 1
      | (_, MReal _) \<Rightarrow> 1
      | (MStr x, MStr y) \<Rightarrow> (case pColl of Some xCmp \<Rightarrow> xCmp x y | None \<Rightarrow> sqlite3BlobCompare x y)
      | (MStr _, _) \<Rightarrow> - 1
      | (_, MStr _) \<Rightarrow> 1
      | (_, _) \<Rightarrow> sqlite3BlobCompare (cell_z m1) (cell_z m2))"

subsection \<open>Making and unpacking\<close>

text \<open>
  The first loop of \<^verbatim>\<open>OP_MakeRecord\<close>, from the last cell to the first: the bytes of data, of header,
  the zeros at the end that are not stored, and the cells (a blob with zeros that is followed by data
  is expanded) with their serial types.
\<close>

fun recordSpace :: "int \<Rightarrow> cell list \<Rightarrow> nat \<times> nat \<times> nat \<times> (cell \<times> u32) list" where
  "recordSpace ff [] = (0, 0, 0, [])"
| "recordSpace ff (pRec # rs) =
     (case recordSpace ff rs of (nData, nHdr, nZero, plan) \<Rightarrow>
        let serial_type = sqlite3VdbeSerialType pRec ff;
          len = unat (sqlite3VdbeSerialTypeLen serial_type);
          k = cell_zeros pRec;
          (pRec, nZero, len) =
            (if k \<noteq> 0
             then if nData \<noteq> 0 then (MBlob (cell_z pRec @ replicate k 0) 0, nZero, len)
                  else (pRec, nZero + k, len - k)
             else (pRec, nZero, len))
        in (nData + len, nHdr + (if serial_type \<le> 127 then 1 else sqlite3VarintLen (ucast serial_type)),
            nZero, (pRec, serial_type) # plan))"

text \<open>
  \<^verbatim>\<open>sqlite3VdbeMemExpandBlob\<close> in that loop: a blob with zeros in front of data needs memory.  Its result
  is not looked at, but a failure sets \<^verbatim>\<open>mallocFailed\<close>, and then every later allocation fails too.
\<close>

fun blobsToExpand :: "int \<Rightarrow> cell list \<Rightarrow> nat" where
  "blobsToExpand ff [] = 0"
| "blobsToExpand ff (pRec # rs) =
     blobsToExpand ff rs + (if cell_zeros pRec \<noteq> 0 \<and> fst (recordSpace ff rs) \<noteq> 0 then 1 else 0)"

fun expandBlobs :: "nat \<Rightarrow> bool list \<Rightarrow> bool \<times> bool list" where
  "expandBlobs 0 ms = (True, ms)"
| "expandBlobs (Suc k) ms = (case alloc ms of (ok, ms) \<Rightarrow> if ok then expandBlobs k ms else (False, ms))"

definition recordHdr :: "nat \<Rightarrow> nat" where
  "recordHdr nHdr =
     (if nHdr \<le> 126 then nHdr + 1
      else let nVarint = sqlite3VarintLen (of_nat nHdr); nHdr = nHdr + nVarint
        in if nVarint < sqlite3VarintLen (of_nat nHdr) then nHdr + 1 else nHdr)"

definition putVarint32 :: "u32 \<Rightarrow> u8 list" where
  "putVarint32 v = (if v < 0x80 then [ucast v] else sqlite3PutVarint (ucast v))"

text \<open>
  The record as a blob with a tail of zeros, or the error code.  The output register has no buffer
  yet, so \<^verbatim>\<open>sqlite3VdbeMemClearAndResize\<close> allocates one of \<^verbatim>\<open>nByte\<close> bytes, which is written from 0
  (header) and from \<^verbatim>\<open>nHdr\<close> (content).
\<close>

definition makeRecord :: "int \<Rightarrow> nat \<Rightarrow> cell list \<Rightarrow> u8 list \<Rightarrow> bool list \<Rightarrow> (int + cell) \<times> bool list" where
  "makeRecord ff limit cells junk ms =
     (case recordSpace ff cells of (nData, nHdr, nZero, plan) \<Rightarrow>
        let (expanded, ms) = expandBlobs (blobsToExpand ff cells) ms;
          nHdr = recordHdr nHdr; nByte = nHdr + nData
        in if limit < nByte + nZero then (Inl SQLITE_TOOBIG, ms)
           else case (if expanded then alloc ms else (False, ms)) of (ok, ms) \<Rightarrow>
             if \<not> ok then (Inl SQLITE_NOMEM, ms)
             else let zNewRecord = take nByte (junk @ replicate nByte 0);
                   hdr = putVarint32 (of_nat nHdr) @ concat (map (\<lambda>(r, t). putVarint32 t) plan);
                   zNewRecord = file_splice zNewRecord 0 hdr;
                   zNewRecord = file_splice zNewRecord nHdr (concat (map (\<lambda>(r, t). sqlite3VdbeSerialPut r t) plan))
                 in (Inr (MBlob zNewRecord nZero), ms))"

text \<open>
  Unpacking: the offset \<^verbatim>\<open>d\<close> of the data is a signed \<^verbatim>\<open>int\<close>; a negative one is an address before the
  record.
\<close>

function unpackLoop :: "(nat \<Rightarrow> u8) \<Rightarrow> nat \<Rightarrow> u32 \<Rightarrow> nat \<Rightarrow> nat \<Rightarrow> u32 \<Rightarrow> i32 \<Rightarrow> cell list exec" where
  "unpackLoop aKey nKey szHdr nField u idx d =
     (if idx < szHdr \<and> sint d \<le> int nKey
      then if d <s 0 then Undefined
           else case getVarint32 (\<lambda>k. aKey (unat idx + k)) of (n, serial_type) \<Rightarrow>
             case sqlite3VdbeSerialGet (\<lambda>k. aKey (unat d + k)) serial_type of (len, m) \<Rightarrow>
               if nField \<le> u + 1 then Done [m]
               else exec_bind (unpackLoop aKey nKey szHdr nField (u + 1) (idx + of_nat n) (d + len)) (\<lambda>ms. Done (m # ms))
      else Done [])"
  by pat_completeness auto
termination by (relation "measure (\<lambda>(aKey, nKey, szHdr, nField, u, idx, d). nField - u)") auto

declare unpackLoop.simps [simp del]

definition sqlite3VdbeRecordUnpack :: "nat \<Rightarrow> (nat \<Rightarrow> u8) \<Rightarrow> unpacked \<Rightarrow> unpacked exec" where
  "sqlite3VdbeRecordUnpack nKey aKey p =
     (case getVarint32 aKey of (idx, szHdr) \<Rightarrow>
        exec_bind (unpackLoop aKey nKey szHdr (up_nField p) 0 (of_nat idx) szHdr)
          (\<lambda>ms. Done (p\<lparr>up_default_rc := 0, up_aMem := ms, up_nField := length ms\<rparr>)))"

subsection \<open>Comparing a record with a key\<close>

definition vdbeRecordDecodeInt :: "u32 \<Rightarrow> (nat \<Rightarrow> u8) \<Rightarrow> i64" where
  "vdbeRecordDecodeInt serial_type aKey =
     (if serial_type = 0 \<or> serial_type = 1 then scast (ONE_BYTE_INT aKey)
      else if serial_type = 2 then scast (TWO_BYTE_INT aKey)
      else if serial_type = 3 then scast (THREE_BYTE_INT aKey)
      else if serial_type = 4 then scast (FOUR_BYTE_UINT aKey)
      else if serial_type = 5 then SIX_BYTE_INT aKey
      else if serial_type = 6
      then push_bit 32 (ucast (FOUR_BYTE_UINT aKey)) OR ucast (FOUR_BYTE_UINT (\<lambda>i. aKey (i + 4)))
      else ucast (serial_type - 8))"

text \<open>A real field against a number; a NaN in the record is neither less nor greater.\<close>

definition compareReal :: "cell \<Rightarrow> u64 \<Rightarrow> int" where
  "compareReal mem1 rhs =
     (case mem1 of
        MReal lhs \<Rightarrow> if dbl_less lhs rhs then - 1 else if dbl_less rhs lhs then 1 else 0
      | MInt i \<Rightarrow> if dbl_less (dbl_of_int i) rhs then - 1 else if dbl_less rhs (dbl_of_int i) then 1 else 0
      | _ \<Rightarrow> 0)"

text \<open>
  The body of the loop for one field: \<^verbatim>\<open>rc\<close> and the serial type, or \<^verbatim>\<open>None\<close> when a length runs over
  the end of the record.
\<close>

definition compareField ::
  "key_info \<Rightarrow> (nat \<Rightarrow> u8) \<Rightarrow> nat \<Rightarrow> nat \<Rightarrow> cell \<Rightarrow> u32 \<Rightarrow> u32 \<Rightarrow> (int \<times> u32) option" where
  "compareField ki aKey1 nKey1 i pRhs d1 idx1 =
     (let data = (\<lambda>k. aKey1 (unat d1 + k)); byte = (ucast (aKey1 (unat idx1)) :: u32);
        var = snd (getVarint32 (\<lambda>k. aKey1 (unat idx1 + k)));
        n = (var - 12) div 2
      in case pRhs of
        MInt v \<Rightarrow>
          if 10 \<le> byte then Some (1, byte)
          else if byte = 0 then Some (- 1, byte)
          else if byte = 7 then Some (compareReal (snd (sqlite3VdbeSerialGet data byte)) (dbl_of_int v), byte)
          else let lhs = vdbeRecordDecodeInt byte data
            in Some (if lhs <s v then - 1 else if v <s lhs then 1 else 0, byte)
      | MReal v \<Rightarrow>
          if 10 \<le> byte then Some (1, byte)
          else if byte = 0 then Some (- 1, byte)
          else Some (compareReal (snd (sqlite3VdbeSerialGet data byte)) v, byte)
      | MStr z \<Rightarrow>
          if var < 12 then Some (- 1, var)
          else if var AND 1 = 0 then Some (1, var)
          else if nKey1 < unat (d1 + n) then None
          else let y = map data [0..<unat n]
            in Some (case ki_aColl ki ! i of Some xCmp \<Rightarrow> xCmp y z | None \<Rightarrow> sqlite3BlobCompare y z, var)
      | MBlob z _ \<Rightarrow>
          if var < 12 \<or> var AND 1 \<noteq> 0 then Some (- 1, var)
          else if nKey1 < unat (d1 + n) then None
          else Some (sqlite3BlobCompare (map data [0..<unat n]) z, var)
      | MNull \<Rightarrow> Some (if byte \<noteq> 0 then 1 else 0, byte))"

function compareLoop :: "key_info \<Rightarrow> (nat \<Rightarrow> u8) \<Rightarrow> nat \<Rightarrow> unpacked \<Rightarrow> u32 \<Rightarrow> nat \<Rightarrow> u32 \<Rightarrow> u32 \<Rightarrow> int \<times> unpacked" where
  "compareLoop ki aKey1 nKey1 p szHdr1 i d1 idx1 =
     (case compareField ki aKey1 nKey1 i (up_aMem p ! i) d1 idx1 of
        None \<Rightarrow> (0, p\<lparr>up_errCode := SQLITE_CORRUPT\<rparr>)
      | Some (rc, serial_type) \<Rightarrow>
          if rc \<noteq> 0 then (if ki_aSortOrder ki ! i then - rc else rc, p)
          else let i = i + 1; d1 = d1 + sqlite3VdbeSerialTypeLen serial_type;
                 idx1 = idx1 + of_nat (sqlite3VarintLen (ucast serial_type))
            in if idx1 < szHdr1 \<and> i < up_nField p \<and> unat d1 \<le> nKey1
               then compareLoop ki aKey1 nKey1 p szHdr1 i d1 idx1
               else (up_default_rc p, p))"
  by pat_completeness auto
termination by (relation "measure (\<lambda>(ki, aKey1, nKey1, p, szHdr1, i, d1, idx1). up_nField p - i)") auto

declare compareLoop.simps [simp del]

definition sqlite3VdbeRecordCompareWithSkip ::
  "key_info \<Rightarrow> nat \<Rightarrow> (nat \<Rightarrow> u8) \<Rightarrow> unpacked \<Rightarrow> bool \<Rightarrow> int \<times> unpacked" where
  "sqlite3VdbeRecordCompareWithSkip ki nKey1 aKey1 p bSkip =
     (if bSkip
      then case getVarint32 (\<lambda>k. aKey1 (1 + k)) of (n, s1) \<Rightarrow>
        let szHdr1 = ucast (aKey1 0)
        in compareLoop ki aKey1 nKey1 p szHdr1 1 (szHdr1 + sqlite3VdbeSerialTypeLen s1) (1 + of_nat n)
      else case getVarint32 aKey1 of (idx1, szHdr1) \<Rightarrow>
        if nKey1 < unat szHdr1 then (0, p\<lparr>up_errCode := SQLITE_CORRUPT\<rparr>)
        else compareLoop ki aKey1 nKey1 p szHdr1 0 szHdr1 (of_nat idx1))"

definition sqlite3VdbeRecordCompare :: "key_info \<Rightarrow> nat \<Rightarrow> (nat \<Rightarrow> u8) \<Rightarrow> unpacked \<Rightarrow> int \<times> unpacked" where
  "sqlite3VdbeRecordCompare ki nKey1 aKey1 p = sqlite3VdbeRecordCompareWithSkip ki nKey1 aKey1 p False"

text \<open>The \<^verbatim>\<open>switch\<close> of \<^verbatim>\<open>vdbeRecordCompareInt\<close>; \<^verbatim>\<open>None\<close> is its last two branches, which call the general routine.\<close>

definition compareIntField :: "u8 \<Rightarrow> (nat \<Rightarrow> u8) \<Rightarrow> i64 option" where
  "compareIntField serial_type aKey =
     (if serial_type = 1 then Some (scast (ONE_BYTE_INT aKey))
      else if serial_type = 2 then Some (scast (TWO_BYTE_INT aKey))
      else if serial_type = 3 then Some (scast (THREE_BYTE_INT aKey))
      else if serial_type = 4 then Some (scast (FOUR_BYTE_UINT aKey))
      else if serial_type = 5 then Some (SIX_BYTE_INT aKey)
      else if serial_type = 6
      then Some (push_bit 32 (ucast (FOUR_BYTE_UINT aKey)) OR ucast (FOUR_BYTE_UINT (\<lambda>i. aKey (i + 4))))
      else if serial_type = 8 then Some 0
      else if serial_type = 9 then Some 1
      else None)"

definition vdbeRecordCompareInt :: "key_info \<Rightarrow> nat \<Rightarrow> (nat \<Rightarrow> u8) \<Rightarrow> unpacked \<Rightarrow> int \<times> unpacked" where
  "vdbeRecordCompareInt ki nKey1 pKey1 p =
     (case compareIntField (pKey1 1) (\<lambda>k. pKey1 (unat (pKey1 0 AND 0x3F) + k)) of
        None \<Rightarrow> sqlite3VdbeRecordCompare ki nKey1 pKey1 p
      | Some lhs \<Rightarrow>
          let v = cell_u (up_aMem p ! 0)
          in if lhs <s v then (up_r1 p, p)
             else if v <s lhs then (up_r2 p, p)
             else if 1 < up_nField p then sqlite3VdbeRecordCompareWithSkip ki nKey1 pKey1 p True
             else (up_default_rc p, p))"

definition vdbeRecordCompareString :: "key_info \<Rightarrow> nat \<Rightarrow> (nat \<Rightarrow> u8) \<Rightarrow> unpacked \<Rightarrow> int \<times> unpacked" where
  "vdbeRecordCompareString ki nKey1 aKey1 p =
     (let serial_type = snd (getVarint32 (\<lambda>k. aKey1 (1 + k)))
      in if serial_type <s 12 then (up_r1 p, p)
         else if serial_type AND 1 = 0 then (up_r2 p, p)
         else let szHdr = unat (aKey1 0); nStr = unat ((serial_type - 12) div 2); z = cell_z (up_aMem p ! 0)
           in if nKey1 < szHdr + nStr then (0, p\<lparr>up_errCode := SQLITE_CORRUPT\<rparr>)
              else let nCmp = min (length z) nStr;
                     res = memcmp (map (\<lambda>k. aKey1 (szHdr + k)) [0..<nCmp]) (take nCmp z)
                in if res = 0
                   then let res = int nStr - int (length z)
                     in if res = 0
                        then if 1 < up_nField p then sqlite3VdbeRecordCompareWithSkip ki nKey1 aKey1 p True
                             else (up_default_rc p, p)
                        else if 0 < res then (up_r2 p, p) else (up_r1 p, p)
                   else if 0 < res then (up_r2 p, p) else (up_r1 p, p))"

datatype comparer = CompareInt | CompareString | CompareRecord

fun run_comparer :: "comparer \<Rightarrow> key_info \<Rightarrow> nat \<Rightarrow> (nat \<Rightarrow> u8) \<Rightarrow> unpacked \<Rightarrow> int \<times> unpacked" where
  "run_comparer CompareInt = vdbeRecordCompareInt"
| "run_comparer CompareString = vdbeRecordCompareString"
| "run_comparer CompareRecord = sqlite3VdbeRecordCompare"

definition sqlite3VdbeFindCompare :: "key_info \<Rightarrow> unpacked \<Rightarrow> comparer \<times> unpacked" where
  "sqlite3VdbeFindCompare ki p =
     (if ki_nField ki + ki_nXField ki \<le> 13
      then let p = (if ki_aSortOrder ki ! 0 then p\<lparr>up_r1 := 1, up_r2 := - 1\<rparr> else p\<lparr>up_r1 := - 1, up_r2 := 1\<rparr>)
        in case up_aMem p ! 0 of
             MInt _ \<Rightarrow> (CompareInt, p)
           | MStr _ \<Rightarrow> (if ki_aColl ki ! 0 = None then CompareString else CompareRecord, p)
           | _ \<Rightarrow> (CompareRecord, p)
      else (CompareRecord, p))"


subsection \<open>Serial types in a header\<close>

lemma putVarint_not_Nil [simp]: "sqlite3PutVarint v \<noteq> []"
  using sqlite3PutVarint_bounds(1) [of v] by auto

lemma putVarint_1: "v \<le> 0x7f \<Longrightarrow> sqlite3PutVarint v = [ucast v]"
proof -
  assume v: "v \<le> 0x7f"
  have "v AND 0x7f = v" using u64_le_cases(1) [OF v] by (simp add: take_bit_eq_mask mask_numeral mask_Suc_exp)
  then show ?thesis using v by (simp add: sqlite3PutVarint_def)
qed

lemma putVarint_first_high:
  assumes v: "\<not> v \<le> 0x7f"
  shows "0x80 \<le> sqlite3PutVarint v ! 0"
proof -
  let ?p = "\<lambda>i. sqlite3PutVarint v ! i"
  have d: "sqlite3GetVarint ?p = (length (sqlite3PutVarint v), v)"
    by (rule sqlite3PutVarint_decodes) (simp add: holds_def)
  show "0x80 \<le> ?p 0"
  proof (rule ccontr)
    assume "\<not> 0x80 \<le> ?p 0"
    then have b: "?p 0 < 0x80" by simp
    then have "sqlite3GetVarint ?p = (1, ucast (?p 0))" by (intro getVarint_first_bytes(1)) (simp add: byte_less_iff)
    then have "v = ucast (?p 0)" using d by simp
    moreover have "unat (ucast (?p 0) :: u64) = unat (?p 0)"
    proof -
      have "unat (?p 0) < 2 ^ 8" using unsigned_less [of "?p 0"] by simp
      then show ?thesis by (simp add: unsigned_ucast_eq take_bit_nat_eq_self)
    qed
    ultimately show False using v b by (simp add: word_le_nat_alt word_less_nat_alt)
  qed
qed

lemma ucast_u32_le: "(ucast (t :: u32) :: u64) \<le> 0x7f \<longleftrightarrow> t < 0x80"
proof -
  have "unat t < 2 ^ 32" using unsigned_less [of t] by simp
  then have "unat (ucast t :: u64) = unat t" by (simp add: unsigned_ucast_eq take_bit_nat_eq_self)
  then show ?thesis by (auto simp: word_le_nat_alt word_less_nat_alt)
qed

lemma putVarint32_eq: "putVarint32 t = sqlite3PutVarint (ucast t)"
proof (cases "t < 0x80")
  case True
  have "(ucast (ucast t :: u64) :: u8) = ucast t"
    by (rule bit_word_eqI) (simp add: bit_simps)
  then show ?thesis using True by (simp add: putVarint32_def putVarint_1 ucast_u32_le)
qed (simp add: putVarint32_def)

lemma getVarint32_put:
  assumes "holds p (sqlite3PutVarint (ucast t))"
  shows "getVarint32 p = (length (sqlite3PutVarint (ucast t)), t)"
  using sqlite3PutVarint_decodes [OF assms] by (simp add: getVarint32_eq)

lemma header_byte:
  fixes t :: u32
  assumes "holds p (sqlite3PutVarint (ucast t))"
  shows "if t < 0x80 then ucast (p 0) = t else (0x80 :: u32) \<le> ucast (p 0)"
proof (cases "t < 0x80")
  case True
  have e: "(ucast (ucast t :: u64) :: u8) = ucast t"
    by (rule bit_word_eqI) (simp add: bit_simps)
  from True have "p 0 = ucast t" using assms by (simp add: putVarint_1 ucast_u32_le e)
  moreover have "unat (ucast t :: u8) = unat t"
    using True by (simp add: unsigned_ucast_eq word_less_nat_alt unsigned_take_bit_eq take_bit_nat_eq_self)
  then have "(ucast (ucast t :: u8) :: u32) = t"
    using True by (simp add: word_unat_eq_iff unsigned_ucast_eq unsigned_take_bit_eq word_less_nat_alt take_bit_nat_eq_self)
  ultimately show ?thesis using True by simp
next
  case False
  then have "0x80 \<le> sqlite3PutVarint (ucast t) ! 0" by (simp add: putVarint_first_high ucast_u32_le)
  moreover have "p 0 = sqlite3PutVarint (ucast t) ! 0"
    by (intro holds_nth(1) [OF assms]) simp
  moreover have "unat (ucast (p 0) :: u32) = unat (p 0)"
  proof -
    have "unat (p 0) < 2 ^ 8" using unsigned_less [of "p 0"] by simp
    then show ?thesis by (simp add: unsigned_ucast_eq take_bit_nat_eq_self)
  qed
  ultimately show ?thesis using False by (simp add: word_le_nat_alt)
qed

text \<open>The length of a varint of up to four bytes, and the length of a header.\<close>

lemma varintLenLoop_nat:
  assumes "n < 2 ^ 32" "i < 8"
  shows "sqlite3VarintLenLoop i (of_nat n) = (if n < 128 then i + 1 else sqlite3VarintLenLoop (i + 1) (of_nat (n div 128)))"
proof -
  have u: "unat (of_nat n :: u64) = n" using assms by (simp add: unsigned_of_nat take_bit_nat_eq_self)
  have "n div 128 < 2 ^ 32" using assms by (simp add: div_less_dividend less_mult_imp_div_less)
  then have v: "unat (of_nat (n div 128) :: u64) = n div 128" by (simp add: unsigned_of_nat take_bit_nat_eq_self)
  have d: "drop_bit 7 (of_nat n :: u64) = of_nat (n div 128)"
    by (simp add: word_unat_eq_iff u v drop_bit_eq_div unat_div)
  have "(of_nat (n div 128) :: u64) = 0 \<longleftrightarrow> n < 128" by (metis v div_eq_0_iff unat_eq_zero zero_neq_numeral)
  then show ?thesis using assms(2) by (subst sqlite3VarintLenLoop.simps) (auto simp: d Let_def)
qed

lemma varintLen_small:
  "n < 0x80 \<Longrightarrow> sqlite3VarintLen (of_nat n) = 1"
  "0x80 \<le> n \<Longrightarrow> n < 0x4000 \<Longrightarrow> sqlite3VarintLen (of_nat n) = 2"
  "0x4000 \<le> n \<Longrightarrow> n < 0x200000 \<Longrightarrow> sqlite3VarintLen (of_nat n) = 3"
proof -
  have q: "n < 0x4000 \<Longrightarrow> n div 128 < 128" "n < 0x200000 \<Longrightarrow> n div 128 div 128 < 128"
      "0x4000 \<le> n \<Longrightarrow> \<not> n div 128 < 128" by auto
  show "n < 0x80 \<Longrightarrow> sqlite3VarintLen (of_nat n) = 1"
    by (simp add: sqlite3VarintLen_def varintLenLoop_nat)
  show "0x80 \<le> n \<Longrightarrow> n < 0x4000 \<Longrightarrow> sqlite3VarintLen (of_nat n) = 2"
    using q(1) by (simp add: sqlite3VarintLen_def varintLenLoop_nat)
  show "0x4000 \<le> n \<Longrightarrow> n < 0x200000 \<Longrightarrow> sqlite3VarintLen (of_nat n) = 3"
    using q(2,3) by (simp add: sqlite3VarintLen_def varintLenLoop_nat div_less_dividend)
qed

lemma recordHdr_consistent:
  assumes "n < 0x1FFFF0"
  shows "recordHdr n = length (sqlite3PutVarint (of_nat (recordHdr n))) + n"
proof -
  consider "n \<le> 126" | "n = 127" | "128 \<le> n" "n < 16382" | "16382 \<le> n" "n < 16384" | "16384 \<le> n" by linarith
  then have "recordHdr n = sqlite3VarintLen (of_nat (recordHdr n)) + n"
  proof cases
    case 1
    then show ?thesis using varintLen_small(1) [of "n + 1"] by (simp add: recordHdr_def add.commute)
  next
    case 2
    then show ?thesis using varintLen_small(1) [of 127] varintLen_small(2) [of 128] varintLen_small(2) [of 129]
      by (simp add: recordHdr_def add.commute)
  next
    case 3
    then show ?thesis using varintLen_small(2) [of n] varintLen_small(2) [of "n + 2"] by (simp add: recordHdr_def add.commute)
  next
    case 4
    then show ?thesis using varintLen_small(2) [of n] varintLen_small(3) [of "n + 2"] varintLen_small(3) [of "n + 3"]
      by (simp add: recordHdr_def add.commute)
  next
    case 5
    then show ?thesis using assms varintLen_small(3) [of n] varintLen_small(3) [of "n + 3"]
      by (simp add: recordHdr_def add.commute)
  qed
  then show ?thesis by (simp add: sqlite3VarintLen_eq)
qed


subsection \<open>One field\<close>

abbreviation ser :: "int \<Rightarrow> cell \<Rightarrow> u32" where "ser ff m \<equiv> sqlite3VdbeSerialType m ff"

abbreviation type_bytes :: "int \<Rightarrow> cell \<Rightarrow> u8 list" where
  "type_bytes ff m \<equiv> sqlite3PutVarint (ucast (ser ff m))"

abbreviation data_bytes :: "int \<Rightarrow> cell \<Rightarrow> u8 list" where
  "data_bytes ff m \<equiv> sqlite3VdbeSerialPut m (ser ff m)"

text \<open>A cell as it is stored: without a tail of zeros, storable.\<close>

definition plain :: "cell \<Rightarrow> bool" where
  "plain m \<longleftrightarrow> storable m \<and> cell_zeros m = 0"

lemma four_byte_same: "FOUR_BYTE_INT p = FOUR_BYTE_UINT p"
  by (rule u32_bits_eqI) (simp add: byte_ints bit_simps del: One_nat_def)

lemma serial_type_class:
  assumes "storable m"
  shows "m = MNull \<Longrightarrow> ser ff m = 0" "\<exists>i. m = MInt i \<Longrightarrow> ser ff m \<in> {1, 2, 3, 4, 5, 6, 8, 9}"
    "\<exists>r. m = MReal r \<Longrightarrow> ser ff m = 7"
    "m = MStr z \<Longrightarrow> 12 \<le> ser ff m \<and> ser ff m AND 1 \<noteq> 0 \<and> unat ((ser ff m - 12) div 2) = length z"
    "m = MBlob z n \<Longrightarrow> 12 \<le> ser ff m \<and> ser ff m AND 1 = 0 \<and> unat ((ser ff m - 12) div 2) = length z + n"
proof -
  show "m = MNull \<Longrightarrow> ser ff m = 0" "\<exists>r. m = MReal r \<Longrightarrow> ser ff m = 7"
    by (auto simp: sqlite3VdbeSerialType_def)
  show "\<exists>i. m = MInt i \<Longrightarrow> ser ff m \<in> {1, 2, 3, 4, 5, 6, 8, 9}"
    using type_of_int(1) by blast
  show "12 \<le> ser ff m \<and> ser ff m AND 1 \<noteq> 0 \<and> unat ((ser ff m - 12) div 2) = length z" if "m = MStr z"
    using long_type_len [where k = 1, OF trans [OF long_type(2) [of z ff]], of "length z"] assms that by auto
  show "12 \<le> ser ff m \<and> ser ff m AND 1 = 0 \<and> unat ((ser ff m - 12) div 2) = length z + n" if "m = MBlob z n"
    using long_type_len [where k = 0, OF trans [OF long_type(1) [of z n ff]], of "length z + n"] assms that by auto
qed

lemma decode_int:
  assumes "holds p (data_bytes ff (MInt i))"
  shows "vdbeRecordDecodeInt (ser ff (MInt i)) p = i"
proof -
  have get: "snd (sqlite3VdbeSerialGet p (ser ff (MInt i))) = MInt i"
    using SerialGet_put [OF _ _ assms] by simp
  have six: "push_bit 32 (ucast (FOUR_BYTE_UINT p)) OR ucast (FOUR_BYTE_UINT q) =
      push_bit 32 (ucast (FOUR_BYTE_UINT p)) + (ucast (FOUR_BYTE_UINT q) :: u64)" for q
    by (rule disjunctive_add [symmetric]) (auto simp: bit_simps dest: bit_imp_le_length)
  have "ser ff (MInt i) \<in> {1, 2, 3, 4, 5, 6, 8, 9}" using type_of_int(1) by blast
  then show ?thesis using get
    by (auto simp: vdbeRecordDecodeInt_def sqlite3VdbeSerialGet_def serialGet_def four_byte_same six Let_def)
qed

lemma compareField_MemCompare:
  assumes x: "plain x" and t: "holds (\<lambda>k. p (unat idx1 + k)) (type_bytes ff x)"
    and d: "holds (\<lambda>k. p (unat d1 + k)) (data_bytes ff x)"
    and fits: "unat d1 + length (data_bytes ff x) \<le> nKey1" "nKey1 < 2 ^ 31"
  shows "\<exists>st. compareField ki p nKey1 i y d1 idx1 = Some (sqlite3MemCompare x y (ki_aColl ki ! i), st) \<and>
    (sqlite3MemCompare x y (ki_aColl ki ! i) = 0 \<longrightarrow> st = ser ff x)"
proof -
  let ?t = "ser ff x"
  have st: "storable x" "cell_zeros x = 0" using x by (auto simp: plain_def)
  note cls = serial_type_class [OF st(1)]
  have var: "snd (getVarint32 (\<lambda>k. p (unat idx1 + k))) = ?t" using getVarint32_put [OF t] by simp
  have byte: "if ?t < 0x80 then ucast (p (unat idx1)) = ?t else (0x80 :: u32) \<le> ucast (p (unat idx1))"
    using header_byte [OF t] unfolding add_0_right .
  have get: "snd (sqlite3VdbeSerialGet (\<lambda>k. p (unat d1 + k)) ?t) = x"
    using SerialGet_put [OF st d] by simp
  have small: "(ucast (p (unat idx1)) :: u32) = ?t" if "?t < 0x80" using byte that by simp
  have long: "(10 :: u32) \<le> ucast (p (unat idx1))" if "12 \<le> ?t"
  proof (cases "?t < 0x80")
    case True
    then show ?thesis using small that by (simp add: word_le_nat_alt)
  next
    case False
    then show ?thesis using byte by (simp add: word_le_nat_alt)
  qed
  have z: "map (\<lambda>k. p (unat d1 + k)) [0..<length z] = z" "\<not> nKey1 < unat (d1 + (?t - 12) div 2)"
    if "unat ((?t - 12) div 2) = length z" "12 \<le> ?t" "cell_z x = z" for z
  proof -
    have db: "data_bytes ff x = z" using SerialGet_long(2) [OF that(2)] that(3) by simp
    show "map (\<lambda>k. p (unat d1 + k)) [0..<length z] = z" using map_holds [OF d] by (simp add: db)
    have "unat d1 + unat ((?t - 12) div 2) \<le> nKey1" using fits(1) that(1) by (simp add: db)
    then have "unat (d1 + (?t - 12) div 2) = unat d1 + unat ((?t - 12) div 2)"
      using fits(2) by (subst unat_add_lem [THEN iffD1]) auto
    then show "\<not> nKey1 < unat (d1 + (?t - 12) div 2)"
      using \<open>unat d1 + unat ((?t - 12) div 2) \<le> nKey1\<close> by simp
  qed
  note defs = compareField_def sqlite3MemCompare_def Let_def
  show ?thesis
  proof (cases x)
    case MNull
    then have "?t = 0" using cls by simp
    then show ?thesis using MNull small var by (cases y) (auto simp: defs)
  next
    case (MInt i)
    then have t: "?t \<in> {1, 2, 3, 4, 5, 6, 8, 9}" using cls by blast
    have dec: "vdbeRecordDecodeInt ?t (\<lambda>k. p (unat d1 + k)) = i" using d decode_int by (simp add: MInt)
    have "?t < 0x80" "\<not> 10 \<le> ?t" "?t \<noteq> 0" "?t \<noteq> 7" "?t < 12" using t by (auto simp: word_le_nat_alt)
    then show ?thesis using MInt small var dec get by (cases y) (auto simp: defs compareReal_def)
  next
    case (MReal r)
    then have t: "?t = 7" using cls by blast
    then show ?thesis using MReal small var get by (cases y) (auto simp: defs compareReal_def)
  next
    case (MStr z')
    then have t: "12 \<le> ?t" "?t AND 1 \<noteq> 0" "unat ((?t - 12) div 2) = length z'" using cls by auto
    have "\<not> ?t < 12" "(ucast (p (unat idx1)) :: u32) \<noteq> 0" using t(1) long by (simp, auto simp: word_le_nat_alt)
    then show ?thesis using MStr t long var z [OF t(3,1)] by (cases y) (auto simp: defs split: option.split)
  next
    case (MBlob z' n)
    then have t: "12 \<le> ?t" "?t AND 1 = 0" "unat ((?t - 12) div 2) = length z'" using cls st(2) by auto
    have "\<not> ?t < 12" "(ucast (p (unat idx1)) :: u32) \<noteq> 0" using t(1) long by (simp, auto simp: word_le_nat_alt)
    then show ?thesis using MBlob t long var z [OF t(3,1)] by (cases y) (auto simp: defs split: option.split)
  qed
qed


subsection \<open>Positions in a record\<close>

definition header_len :: "int \<Rightarrow> cell list \<Rightarrow> nat" where
  "header_len ff xs = recordHdr (length (concat (map (type_bytes ff) xs)))"

definition record_bytes :: "int \<Rightarrow> cell list \<Rightarrow> u8 list" where
  "record_bytes ff xs =
     sqlite3PutVarint (of_nat (header_len ff xs)) @ concat (map (type_bytes ff) xs) @ concat (map (data_bytes ff) xs)"

text \<open>The rest of a record: types from offset \<^verbatim>\<open>a\<close> to the end \<^verbatim>\<open>h\<close> of the header, data from \<^verbatim>\<open>b\<close> on.\<close>

definition rest_at :: "int \<Rightarrow> (nat \<Rightarrow> u8) \<Rightarrow> nat \<Rightarrow> nat \<Rightarrow> nat \<Rightarrow> nat \<Rightarrow> cell list \<Rightarrow> bool" where
  "rest_at ff p nKey h a b xs \<longleftrightarrow>
     holds (\<lambda>k. p (a + k)) (concat (map (type_bytes ff) xs)) \<and> a + length (concat (map (type_bytes ff) xs)) = h \<and>
     holds (\<lambda>k. p (b + k)) (concat (map (data_bytes ff) xs)) \<and> b + length (concat (map (data_bytes ff) xs)) \<le> nKey \<and>
     list_all plain xs \<and> h \<le> nKey \<and> nKey < 2 ^ 31"

lemma rest_at_Cons:
  assumes "rest_at ff p nKey h a b (x # xs)"
  shows "holds (\<lambda>k. p (a + k)) (type_bytes ff x)" "holds (\<lambda>k. p (b + k)) (data_bytes ff x)" "plain x"
    "rest_at ff p nKey h (a + length (type_bytes ff x)) (b + length (data_bytes ff x)) xs"
    "b + length (data_bytes ff x) \<le> nKey" "a + length (type_bytes ff x) \<le> h" "h \<le> nKey" "nKey < 2 ^ 31"
  using assms by (auto simp: rest_at_def holds_append add.assoc)

lemma rest_at_header: "rest_at ff p nKey h a b xs \<Longrightarrow> a < h \<longleftrightarrow> xs \<noteq> []"
proof (cases xs)
  case (Cons x ys)
  assume "rest_at ff p nKey h a b xs"
  from rest_at_Cons(6) [OF this [unfolded Cons]] sqlite3PutVarint_bounds(1) [of "ucast (ser ff x)"] Cons
  show ?thesis by auto
qed (simp add: rest_at_def)

lemma sint_small: "n < 2 ^ 31 \<Longrightarrow> sint (of_nat n :: i32) = int n"
  by (simp add: signed_of_nat signed_take_bit_int_eq_self)

lemma unat_small: "n < 2 ^ 31 \<Longrightarrow> unat (of_nat n :: u32) = n"
  by (simp add: unsigned_of_nat take_bit_nat_eq_self)

lemma record_rest:
  assumes "holds p (record_bytes ff xs)" "list_all plain xs" "length (record_bytes ff xs) \<le> nKey" "nKey < 2 ^ 31"
    "length (concat (map (type_bytes ff) xs)) < 0x1FFFF0"
  defines "h \<equiv> header_len ff xs" and "a \<equiv> length (sqlite3PutVarint (of_nat (header_len ff xs)))"
  shows "rest_at ff p nKey h a h xs" "getVarint32 p = (a, of_nat h)" "0 < a" "a \<le> 9" "h < 2 ^ 31"
proof -
  have h: "h = a + length (concat (map (type_bytes ff) xs))"
    using recordHdr_consistent [OF assms(5)] by (simp add: h_def a_def header_len_def)
  note rb = record_bytes_def [of ff xs, folded h_def]
  have "length (sqlite3PutVarint (of_nat h)) = a" by (simp add: a_def h_def)
  then show "rest_at ff p nKey h a h xs"
    using assms(1-4) unfolding rest_at_def rb holds_append length_append h
    by (simp add: add.assoc)
  have "h \<le> length (record_bytes ff xs)" by (simp add: h a_def record_bytes_def)
  then show "h < 2 ^ 31" using assms(3,4) by simp
  have "holds p (sqlite3PutVarint (of_nat h))" using assms(1) by (simp add: record_bytes_def holds_append h_def)
  moreover have "of_nat h = (ucast (of_nat h :: u32) :: u64)"
    using \<open>h < 2 ^ 31\<close> by (simp add: word_unat_eq_iff unsigned_ucast_eq unsigned_of_nat take_bit_nat_eq_self)
  ultimately show "getVarint32 p = (a, of_nat h)" using getVarint32_put [of p "of_nat h"] by (simp add: a_def h_def)
  show "0 < a" "a \<le> 9" using sqlite3PutVarint_bounds [of "of_nat h"] by (simp_all add: a_def h_def)
qed

subsection \<open>Unpacking gives the cells back\<close>

lemma TypeLen_plain: "plain x \<Longrightarrow> unat (sqlite3VdbeSerialTypeLen (ser ff x)) = length (data_bytes ff x)"
  using length_SerialPut [of x ff] by (simp add: plain_def)

lemma of_nat_add_len:
  "plain x \<Longrightarrow> (of_nat b :: u32) + sqlite3VdbeSerialTypeLen (ser ff x) = of_nat (b + length (data_bytes ff x))"
  using TypeLen_plain [of x ff] by (metis of_nat_add of_nat_unat ucast_id)

lemma unpackLoop_rest:
  assumes "rest_at ff p nKey h a b xs" "u < nField"
  shows "unpackLoop p nKey (of_nat h) nField u (of_nat a) (of_nat b) = Done (take (nField - u) xs)"
  using assms
proof (induction xs arbitrary: a b u)
  case Nil
  then have "a = h" by (simp add: rest_at_def)
  then show ?case by (subst unpackLoop.simps) simp
next
  case (Cons x xs)
  note r = rest_at_Cons [OF Cons.prems(1)]
  have ah: "a < h" using rest_at_header [OF Cons.prems(1)] by simp
  have u: "unat (of_nat a :: u32) = a" "unat (of_nat b :: u32) = b" "unat (of_nat h :: u32) = h"
    using r ah by (simp_all add: unat_small)
  have bn: "b < 2 ^ 31" using r by simp
  then have s: "sint (of_nat b :: i32) = int b" by (rule sint_small)
  then have sn: "\<not> (of_nat b :: i32) <s 0" by (simp add: word_sless_alt)
  have hd: "getVarint32 (\<lambda>k. p (a + k)) = (length (type_bytes ff x), ser ff x)"
    by (rule getVarint32_put) (rule r)
  have dt: "sqlite3VdbeSerialGet (\<lambda>k. p (b + k)) (ser ff x) = (sqlite3VdbeSerialTypeLen (ser ff x), x)"
    by (rule SerialGet_put) (use r in \<open>auto simp: plain_def\<close>)
  have "unpackLoop p nKey (of_nat h) nField u (of_nat a) (of_nat b) =
      (if nField \<le> u + 1 then Done [x]
       else exec_bind (unpackLoop p nKey (of_nat h) nField (u + 1) (of_nat (a + length (type_bytes ff x)))
         (of_nat (b + length (data_bytes ff x)))) (\<lambda>ms. Done (x # ms)))"
    using ah s sn u hd dt r(5) of_nat_add_len [OF r(3), of b]
    by (subst unpackLoop.simps) (simp add: word_less_nat_alt del: of_nat_add, simp)
  then show ?case using Cons.IH [OF r(4), of "u + 1"] Cons.prems(2)
    by (auto simp: take_Cons')
qed


subsection \<open>Comparing field by field\<close>

fun compare_cells :: "key_info \<Rightarrow> int \<Rightarrow> nat \<Rightarrow> cell list \<Rightarrow> cell list \<Rightarrow> int" where
  "compare_cells ki dflt i (x # xs) (y # ys) =
     (let c = sqlite3MemCompare x y (ki_aColl ki ! i)
      in if c \<noteq> 0 then (if ki_aSortOrder ki ! i then - c else c) else compare_cells ki dflt (i + 1) xs ys)"
| "compare_cells ki dflt i _ _ = dflt"

lemma varintLen_ser: "sqlite3VarintLen (ucast (ser ff x)) = length (type_bytes ff x)"
  by (rule sqlite3VarintLen_eq)

lemma compareLoop_rest:
  assumes "rest_at ff p nKey h a b xs" "xs \<noteq> []" "i < up_nField up" "up_nField up \<le> length (up_aMem up)"
  shows "compareLoop ki p nKey up (of_nat h) i (of_nat b) (of_nat a) =
    (compare_cells ki (up_default_rc up) i xs (drop i (take (up_nField up) (up_aMem up))), up)"
  using assms
proof (induction xs arbitrary: a b i)
  case Nil
  then show ?case by simp
next
  case (Cons x xs)
  note r = rest_at_Cons [OF Cons.prems(1)]
  have u: "unat (of_nat a :: u32) = a" "unat (of_nat b :: u32) = b"
    using r by (simp_all add: unat_small)
  let ?y = "up_aMem up ! i"
  obtain st where st: "compareField ki p nKey i ?y (of_nat b) (of_nat a) = Some (sqlite3MemCompare x ?y (ki_aColl ki ! i), st)"
    "sqlite3MemCompare x ?y (ki_aColl ki ! i) = 0 \<longrightarrow> st = ser ff x"
    using compareField_MemCompare [where p = p and ff = ff and x = x and ?idx1.0 = "of_nat a" and ?d1.0 = "of_nat b" and ?nKey1.0 = nKey
        and i = i and y = ?y and ki = ki] r u by auto
  have drop: "drop i (take (up_nField up) (up_aMem up)) = ?y # drop (i + 1) (take (up_nField up) (up_aMem up))"
    using Cons.prems(3,4) by (subst Cons_nth_drop_Suc [symmetric]) auto
  have next_b: "unat (of_nat b + sqlite3VdbeSerialTypeLen (ser ff x) :: u32) = b + length (data_bytes ff x)"
    using of_nat_add_len [OF r(3), of b] r(5,8) by (simp add: unat_small del: of_nat_add)
  have next_a: "(of_nat a :: u32) + of_nat (sqlite3VarintLen (ucast (ser ff x))) = of_nat (a + length (type_bytes ff x))"
    by (simp add: varintLen_ser)
  have more: "(of_nat (a + length (type_bytes ff x)) :: u32) < of_nat h \<longleftrightarrow> xs \<noteq> []"
    using rest_at_header [OF r(4)] r(6-8) by (simp add: word_less_nat_alt unat_small del: of_nat_add)
  show ?case
  proof (cases "sqlite3MemCompare x ?y (ki_aColl ki ! i) = 0")
    case False
    then show ?thesis using st by (subst compareLoop.simps) (simp add: drop Let_def)
  next
    case True
    then have "compareLoop ki p nKey up (of_nat h) i (of_nat b) (of_nat a) =
        (if xs \<noteq> [] \<and> i + 1 < up_nField up
         then compareLoop ki p nKey up (of_nat h) (i + 1) (of_nat (b + length (data_bytes ff x))) (of_nat (a + length (type_bytes ff x)))
         else (up_default_rc up, up))"
      using st next_b next_a more r(5) of_nat_add_len [OF r(3), of b]
      by (subst compareLoop.simps) (simp add: Let_def del: of_nat_add)
    moreover have "drop (i + 1) (take (up_nField up) (up_aMem up)) = []" if "\<not> i + 1 < up_nField up"
      using that by simp
    ultimately show ?thesis using True Cons.IH [OF r(4), of "i + 1"] Cons.prems(4)
      by (cases "xs = []") (auto simp: drop)
  qed
qed


text \<open>What the comparison routines are given: a record and a key.\<close>

definition comparable :: "int \<Rightarrow> (nat \<Rightarrow> u8) \<Rightarrow> nat \<Rightarrow> cell list \<Rightarrow> unpacked \<Rightarrow> bool" where
  "comparable ff p nKey xs up \<longleftrightarrow>
     holds p (record_bytes ff xs) \<and> list_all plain xs \<and> length (record_bytes ff xs) \<le> nKey \<and> nKey < 2 ^ 31 \<and>
     length (concat (map (type_bytes ff) xs)) < 0x1FFFF0 \<and> xs \<noteq> [] \<and>
     0 < up_nField up \<and> up_nField up \<le> length (up_aMem up) \<and> up_nField up \<le> length xs"

definition key_cells :: "unpacked \<Rightarrow> cell list" where
  "key_cells up = take (up_nField up) (up_aMem up)"

lemma RecordCompare_cells:
  assumes "comparable ff p nKey xs up"
  shows "sqlite3VdbeRecordCompare ki nKey p up = (compare_cells ki (up_default_rc up) 0 xs (key_cells up), up)"
proof -
  note c = assms [unfolded comparable_def]
  note r = record_rest [of p ff xs nKey]
  have "\<not> nKey < unat (of_nat (header_len ff xs) :: u32)"
    using r(1,5) c by (simp add: unat_small rest_at_def)
  then show ?thesis using compareLoop_rest [OF r(1), of 0 up ki] r(2) c
    by (simp add: sqlite3VdbeRecordCompare_def sqlite3VdbeRecordCompareWithSkip_def key_cells_def)
qed

text \<open>A header of less than 128 bytes: its length is the first byte, and the first type follows.\<close>

lemma short_header:
  assumes "comparable ff p nKey (x # xs) up" "header_len ff (x # xs) < 0x80"
  shows "p 0 = of_nat (header_len ff (x # xs))"
    "rest_at ff p nKey (header_len ff (x # xs)) 1 (header_len ff (x # xs)) (x # xs)"
proof -
  let ?h = "header_len ff (x # xs)"
  note c = assms(1) [unfolded comparable_def]
  have h: "(of_nat ?h :: u64) \<le> 0x7f" using assms(2)
    by (simp add: word_le_nat_alt unsigned_of_nat take_bit_nat_eq_self)
  then have put: "sqlite3PutVarint (of_nat ?h) = [ucast (of_nat ?h :: u64)]" by (rule putVarint_1)
  then have "p 0 = ucast (of_nat ?h :: u64)" using c by (simp add: record_bytes_def)
  then show "p 0 = of_nat ?h"
    using assms(2) by (simp add: word_unat_eq_iff unsigned_ucast_eq unsigned_of_nat take_bit_nat_eq_self)
  show "rest_at ff p nKey ?h 1 ?h (x # xs)" using record_rest(1) [of p ff "x # xs" nKey] c put by simp
qed

lemma CompareWithSkip_cells:
  assumes "comparable ff p nKey (x # xs) up" "header_len ff (x # xs) < 0x80" "1 < up_nField up"
  shows "sqlite3VdbeRecordCompareWithSkip ki nKey p up True =
    (compare_cells ki (up_default_rc up) 1 xs (drop 1 (key_cells up)), up)"
proof -
  let ?h = "header_len ff (x # xs)"
  note c = assms(1) [unfolded comparable_def]
  note s = short_header [OF assms(1,2)]
  note r = rest_at_Cons [OF s(2)]
  have hd: "getVarint32 (\<lambda>k. p (1 + k)) = (length (type_bytes ff x), ser ff x)"
    by (rule getVarint32_put) (rule r)
  have h: "(ucast (p 0) :: u32) = of_nat ?h"
    using assms(2) by (simp add: s(1) word_unat_eq_iff unsigned_ucast_eq unsigned_of_nat take_bit_nat_eq_self)
  have "xs \<noteq> []" using c assms(3) by auto
  then show ?thesis using compareLoop_rest [OF r(4), of 1 up ki] c assms(3) hd h of_nat_add_len [OF r(3), of ?h]
    by (simp add: sqlite3VdbeRecordCompareWithSkip_def key_cells_def)
qed

lemma key_cells_Cons:
  "comparable ff p nKey xs up \<Longrightarrow> key_cells up = up_aMem up ! 0 # drop 1 (key_cells up)"
  by (cases "up_aMem up") (auto simp: comparable_def key_cells_def take_Cons')

lemma drop_key_cells: "\<not> 1 < up_nField up \<Longrightarrow> drop 1 (key_cells up) = []"
  by (simp add: key_cells_def)

text \<open>The first type of a short header, as the fast routines read it.\<close>

lemma first_type:
  assumes "comparable ff p nKey (x # xs) up" "header_len ff (x # xs) < 0x80"
  shows "if ser ff x < 0x80 then unat (p 1) = unat (ser ff x) else 0x80 \<le> unat (p 1)"
    "getVarint32 (\<lambda>k. p (1 + k)) = (length (type_bytes ff x), ser ff x)"
    "holds (\<lambda>k. p (header_len ff (x # xs) + k)) (data_bytes ff x)"
    "header_len ff (x # xs) + length (data_bytes ff x) \<le> nKey"
proof -
  note r = rest_at_Cons [OF short_header(2) [OF assms]]
  have "unat (p 1) < 2 ^ 8" using unsigned_less [of "p 1"] by simp
  then have "unat (ucast (p 1) :: u32) = unat (p 1)" by (simp add: unsigned_ucast_eq take_bit_nat_eq_self)
  then show "if ser ff x < 0x80 then unat (p 1) = unat (ser ff x) else 0x80 \<le> unat (p 1)"
    using header_byte [OF r(1)] by (auto simp: word_le_nat_alt split: if_splits)
  show "getVarint32 (\<lambda>k. p (1 + k)) = (length (type_bytes ff x), ser ff x)" by (rule getVarint32_put) (rule r)
  show "holds (\<lambda>k. p (header_len ff (x # xs) + k)) (data_bytes ff x)"
    "header_len ff (x # xs) + length (data_bytes ff x) \<le> nKey" by (rule r)+
qed

lemma CompareInt_lhs:
  assumes "comparable ff p nKey (x # xs) up" "header_len ff (x # xs) < 0x80" "(\<exists>i. x = MInt i) \<longrightarrow> header_len ff (x # xs) \<le> 0x3F"
  shows "compareIntField (p 1) (\<lambda>k. p (unat (p 0 AND 0x3F) + k)) = (case x of MInt i \<Rightarrow> Some i | _ \<Rightarrow> None)"
proof -
  note f = first_type [OF assms(1,2)]
  have pl: "storable x" using assms(1) by (simp add: comparable_def plain_def)
  note cls = serial_type_class [OF pl]
  have p1: "p 1 = k \<longleftrightarrow> unat (p 1) = unat k" for k by (rule word_unat_eq_iff)
  have other: ?thesis if "ser ff x = 0 \<or> ser ff x = 7 \<or> 12 \<le> ser ff x" "\<And>i. x \<noteq> MInt i"
  proof -
    have "unat (p 1) \<notin> {1, 2, 3, 4, 5, 6, 8, 9}" using f(1) that(1) by (auto simp: word_le_nat_alt split: if_splits)
    then show ?thesis using that(2) by (cases x) (auto simp: p1 compareIntField_def)
  qed
  show ?thesis
  proof (cases "\<exists>i. x = MInt i")
    case True
    then obtain i where MInt: "x = MInt i" by blast
    let ?h = "header_len ff (x # xs)"
    have "?h < 64" using assms(3) MInt by auto
    moreover have "p 0 AND 0x3F = take_bit 6 (p 0)" by (simp add: take_bit_eq_mask mask_numeral mask_Suc_exp)
    ultimately have "unat (p 0 AND 0x3F) = ?h"
      using short_header(1) [OF assms(1,2)] by (simp add: unsigned_take_bit_eq unsigned_of_nat take_bit_nat_eq_self)
    then have key: "(\<lambda>k. p (unat (p 0 AND 0x3F) + k)) = (\<lambda>k. p (?h + k))" by simp
    have dec: "vdbeRecordDecodeInt (ser ff x) (\<lambda>k. p (?h + k)) = i" using f(3) decode_int MInt by simp
    have t: "ser ff x \<in> {1, 2, 3, 4, 5, 6, 8, 9}" using cls MInt by blast
    then have "p 1 = ucast (ser ff x)" using f(1) by (auto simp: p1 simp del: One_nat_def)
    then show ?thesis using t dec type_of_int(7,8) [of i ff] MInt unfolding key
      by (auto simp: vdbeRecordDecodeInt_def compareIntField_def simp del: One_nat_def)
  next
    case False
    then have "ser ff x = 0 \<or> ser ff x = 7 \<or> 12 \<le> ser ff x" using cls by (cases x) auto
    then show ?thesis using False by (intro other) auto
  qed
qed

lemma CompareInt_cells:
  assumes "comparable ff p nKey (x # xs) up" "header_len ff (x # xs) < 0x80" "(\<exists>i. x = MInt i) \<longrightarrow> header_len ff (x # xs) \<le> 0x3F"
    "up_aMem up ! 0 = MInt v"
    "up_r1 up = (if ki_aSortOrder ki ! 0 then 1 else - 1)" "up_r2 up = (if ki_aSortOrder ki ! 0 then - 1 else 1)"
  shows "vdbeRecordCompareInt ki nKey p up = (compare_cells ki (up_default_rc up) 0 (x # xs) (key_cells up), up)"
proof (cases "\<exists>i. x = MInt i")
  case True
  then obtain i where x: "x = MInt i" by blast
  obtain rest where rest: "rest = drop 1 (key_cells up)" by blast
  have k: "key_cells up = MInt v # rest" using key_cells_Cons [OF assms(1)] assms(4) rest by simp
  have skip: "1 < up_nField up \<Longrightarrow> sqlite3VdbeRecordCompareWithSkip ki nKey p up True =
      (compare_cells ki (up_default_rc up) 1 xs rest, up)"
    using CompareWithSkip_cells [OF assms(1,2), of ki] rest by simp
  have nil: "\<not> 1 < up_nField up \<Longrightarrow> rest = []" using drop_key_cells [of up] rest by simp
  have lhs: "(case x of MInt i \<Rightarrow> Some i | _ \<Rightarrow> None) = Some i" by (simp add: x)
  have "vdbeRecordCompareInt ki nKey p up =
      (if i <s v then (up_r1 up, up) else if v <s i then (up_r2 up, up)
       else if 1 < up_nField up then sqlite3VdbeRecordCompareWithSkip ki nKey p up True else (up_default_rc up, up))"
    unfolding vdbeRecordCompareInt_def Let_def CompareInt_lhs [OF assms(1-3)] lhs
    by (simp add: assms(4))
  also have "\<dots> = (compare_cells ki (up_default_rc up) 0 (x # xs) (key_cells up), up)"
  proof -
    have c: "sqlite3MemCompare (MInt i) (MInt v) (ki_aColl ki ! 0) = (if i <s v then - 1 else if v <s i then 1 else 0)"
      by (simp add: sqlite3MemCompare_def)
    have "compare_cells ki dflt 1 xs [] = dflt" for dflt by (cases xs) simp_all
    then show ?thesis using skip nil assms(5,6) unfolding k x compare_cells.simps(1) Let_def c
      by (cases "i <s v"; cases "v <s i"; cases "1 < up_nField up") (simp_all del: One_nat_def)
  qed
  finally show ?thesis .
next
  case False
  then have "(case x of MInt i \<Rightarrow> Some i | _ \<Rightarrow> None) = (None :: i64 option)" by (cases x) auto
  then show ?thesis
    unfolding vdbeRecordCompareInt_def Let_def CompareInt_lhs [OF assms(1-3)]
    using RecordCompare_cells [OF assms(1)] by simp
qed

lemma sgn_memcmp_compare:
  fixes y z :: "u8 list"
  defines "n \<equiv> min (length y) (length z)"
  shows "sqlite3BlobCompare y z =
    (if memcmp (take n y) (take n z) = 0 then int (length y) - int (length z) else memcmp (take n y) (take n z))"
  by (simp add: sqlite3BlobCompare_def n_def Let_def)

lemma ser_signed: "storable x \<Longrightarrow> ser ff x <s 12 \<longleftrightarrow> ser ff x < 12"
proof -
  assume x: "storable x"
  have b: "unat (ser ff x) < 2 ^ 31"
  proof (cases x)
    case (MInt i)
    then have "ser ff x \<in> {1, 2, 3, 4, 5, 6, 8, 9}" using serial_type_class(2) [OF x] by blast
    then show ?thesis by auto
  qed (use x serial_type_class [OF x] long_type in auto)
  then have "sint (ser ff x) = int (unat (ser ff x))"
    by (metis of_nat_unat sint_small ucast_id)
  then show ?thesis by (simp add: word_sless_alt word_less_def)
qed

text \<open>One step of the comparison, by the sign of the first field.\<close>

lemma compare_cells_step:
  assumes "sgn c = sgn (sqlite3MemCompare x y (ki_aColl ki ! i))"
  shows "sgn (compare_cells ki dflt i (x # xs) (y # ys)) =
    (if c = 0 then sgn (compare_cells ki dflt (i + 1) xs ys) else if ki_aSortOrder ki ! i then - sgn c else sgn c)"
  using assms by (auto simp: Let_def sgn_minus sgn_0_0)

lemma CompareString_cells:
  assumes "comparable ff p nKey (x # xs) up" "header_len ff (x # xs) < 0x80"
    "up_aMem up ! 0 = MStr z" "ki_aColl ki ! 0 = None"
    "up_r1 up = (if ki_aSortOrder ki ! 0 then 1 else - 1)" "up_r2 up = (if ki_aSortOrder ki ! 0 then - 1 else 1)"
  shows "sgn (fst (vdbeRecordCompareString ki nKey p up)) =
      sgn (compare_cells ki (up_default_rc up) 0 (x # xs) (key_cells up)) \<and>
    snd (vdbeRecordCompareString ki nKey p up) = up"
proof -
  let ?t = "ser ff x"
  note f = first_type [OF assms(1,2)]
  have st: "storable x" and pl: "cell_zeros x = 0" using assms(1) by (auto simp: comparable_def plain_def)
  note cls = serial_type_class [OF st]
  define rest where "rest = drop 1 (key_cells up)"
  have k: "key_cells up = MStr z # rest" using key_cells_Cons [OF assms(1)] assms(3) by (simp add: rest_def)
  have tail: "(if 1 < up_nField up then sqlite3VdbeRecordCompareWithSkip ki nKey p up True else (up_default_rc up, up)) =
      (compare_cells ki (up_default_rc up) 1 xs rest, up)"
  proof (cases "1 < up_nField up")
    case True
    then show ?thesis using CompareWithSkip_cells [OF assms(1,2), of ki] by (simp add: rest_def)
  next
    case False
    then have "rest = []" using drop_key_cells by (simp add: rest_def)
    then show ?thesis using False by (cases xs) simp_all
  qed
  have h: "unat (p 0) = header_len ff (x # xs)"
    using short_header(1) [OF assms(1,2)] assms(2) by (simp add: unsigned_of_nat take_bit_nat_eq_self)
  define c where "c = (case x of MStr y \<Rightarrow>
      (let r = memcmp (take (min (length z) (length y)) y) (take (min (length z) (length y)) z)
       in if r = 0 then int (length y) - int (length z) else r)
    | MBlob _ _ \<Rightarrow> 1 | _ \<Rightarrow> - 1)"
  have cmp: "sgn c = sgn (sqlite3MemCompare x (MStr z) (ki_aColl ki ! 0))"
    using assms(4) by (cases x) (auto simp: c_def sqlite3MemCompare_def sgn_memcmp_compare Let_def min.commute)
  have run: "vdbeRecordCompareString ki nKey p up =
      (if c < 0 then (up_r1 up, up) else if 0 < c then (up_r2 up, up)
       else (compare_cells ki (up_default_rc up) 1 xs rest, up))"
  proof (cases "\<exists>y. x = MStr y")
    case True
    then obtain y where x: "x = MStr y" by blast
    have t: "12 \<le> ?t" "?t AND 1 \<noteq> 0" "unat ((?t - 12) div 2) = length y" using cls(4) [OF x] by auto
    have d: "data_bytes ff x = y" using SerialGet_long(2) [OF t(1)] by (simp add: x)
    have m: "map (\<lambda>k. p (header_len ff (x # xs) + k)) [0..<min (length z) (length y)] = take (min (length z) (length y)) y"
    proof -
      have all: "map (\<lambda>k. p (header_len ff (x # xs) + k)) [0..<length y] = y" using map_holds [OF f(3)] by (simp add: d)
      show ?thesis by (subst (2) all [symmetric]) (simp add: take_map)
    qed
    have "\<not> ?t <s 12" using ser_signed [OF st] t(1) by (simp add: not_less)
    then show ?thesis using t f(2,4) h m tail d
      by (simp add: vdbeRecordCompareString_def assms(3) c_def x Let_def)
  next
    case False
    show ?thesis
    proof (cases "\<exists>y n. x = MBlob y n")
      case True
      then obtain y n where x: "x = MBlob y n" by blast
      then have t: "12 \<le> ?t" "?t AND 1 = 0" using cls(5) [OF x] by auto
      then have "\<not> ?t <s 12" using ser_signed [OF st] by (simp add: not_less)
      then show ?thesis using t f(2) by (simp add: vdbeRecordCompareString_def c_def x Let_def)
    next
      case False
      then have "?t \<in> {0, 1, 2, 3, 4, 5, 6, 7, 8, 9}" using \<open>\<nexists>y. x = MStr y\<close> cls(1-3) by (cases x) auto
      then have "?t < 12" by auto
      then have "?t <s 12" using ser_signed [OF st] by simp
      moreover have "c = - 1" using False \<open>\<nexists>y. x = MStr y\<close> by (cases x) (auto simp: c_def)
      ultimately show ?thesis using f(2) by (simp add: vdbeRecordCompareString_def)
    qed
  qed
  have "sgn (compare_cells ki (up_default_rc up) 0 (x # xs) (key_cells up)) = sgn (fst (vdbeRecordCompareString ki nKey p up))"
    unfolding k run compare_cells_step [OF cmp] assms(5,6)
    by (cases c "0 :: int" rule: linorder_cases) simp_all
  then show ?thesis by (simp add: run)
qed

subsection \<open>Making a record\<close>

text \<open>A cell with its tail of zeros written out, as \<^verbatim>\<open>sqlite3VdbeMemExpandBlob\<close> makes it.\<close>

definition cell_bytes :: "cell \<Rightarrow> u8 list" where
  "cell_bytes m = cell_z m @ replicate (cell_zeros m) 0"

fun expand :: "cell \<Rightarrow> cell" where
  "expand (MBlob z n) = MBlob (z @ replicate n 0) 0"
| "expand m = m"

lemma expand_plain: "storable m \<Longrightarrow> plain (expand m)"
  by (cases m) (auto simp: plain_def)

lemma ser_expand: "ser ff (expand m) = ser ff m"
  by (cases m) (simp_all add: sqlite3VdbeSerialType_def)

lemma expand_id: "cell_zeros m = 0 \<Longrightarrow> expand m = m"
  by (cases m) auto

lemma data_bytes_blob: "storable (MBlob z n) \<Longrightarrow> sqlite3VdbeSerialPut m (ser ff (MBlob z n)) = cell_z m"
  using serial_type_class(5) [of "MBlob z n" z n ff] by (intro SerialGet_long(2)) auto

text \<open>What the first loop finds out, over the cells with their zeros written out.\<close>

lemma recordSpace_spec:
  assumes "list_all storable xs" "recordSpace ff xs = (nData, nHdr, nZero, plan)"
  shows "nHdr = length (concat (map (type_bytes ff) (map expand xs)))"
    "map snd plan = map (ser ff) (map expand xs)"
    "concat (map (\<lambda>(r, t). sqlite3VdbeSerialPut r t) plan) @ replicate nZero 0 = concat (map (data_bytes ff) (map expand xs))"
    "nData = length (concat (map (\<lambda>(r, t). sqlite3VdbeSerialPut r t) plan))"
proof -
  have "nHdr = length (concat (map (type_bytes ff) (map expand xs))) \<and>
    map snd plan = map (ser ff) (map expand xs) \<and>
    concat (map (\<lambda>(r, t). sqlite3VdbeSerialPut r t) plan) @ replicate nZero 0 = concat (map (data_bytes ff) (map expand xs)) \<and>
    nData = length (concat (map (\<lambda>(r, t). sqlite3VdbeSerialPut r t) plan))"
    using assms
  proof (induction xs arbitrary: nData nHdr nZero plan)
    case Nil
    then show ?case by simp
  next
    case (Cons x xs)
    obtain nd nh nz pl where r: "recordSpace ff xs = (nd, nh, nz, pl)" by (metis prod_cases4)
    have x: "storable x" "list_all storable xs" using Cons.prems(1) by simp_all
    note IH = Cons.IH [OF x(2) r]
    have hd: "(if ser ff x \<le> 127 then 1 else sqlite3VarintLen (ucast (ser ff x))) = length (type_bytes ff x)"
    proof (cases "ser ff x \<le> 127")
      case True
      then have "ser ff x < 0x80" by (simp add: word_le_nat_alt word_less_nat_alt)
      then show ?thesis using True putVarint_1 ucast_u32_le [of "ser ff x"] by simp
    qed (simp add: sqlite3VarintLen_eq)
    note len = length_SerialPut [OF x(1), of ff]
    have hd': "length (type_bytes ff x) = length (type_bytes ff (expand x))" by (simp add: ser_expand)
    show ?case
    proof (cases "cell_zeros x = 0")
      case True
      have "recordSpace ff (x # xs) =
          (nd + unat (sqlite3VdbeSerialTypeLen (ser ff x)), nh + length (type_bytes ff x), nz, (x, ser ff x) # pl)"
        by (simp only: recordSpace.simps r prod.case Let_def True hd) simp
      then show ?thesis using Cons.prems(2) IH len True by (auto simp: expand_id)
    next
      case False
      then obtain z n where m: "x = MBlob z n" "n \<noteq> 0" by (cases x) auto
      have e: "storable (MBlob z n)" "storable (MBlob (z @ replicate n 0) 0)" using x(1) m by simp_all
      have ser: "ser ff (MBlob (z @ replicate n 0) 0) = ser ff (MBlob z n)" using ser_expand [where ff = ff and m = x] by (simp add: m)
      note put = data_bytes_blob [OF e(1), where ff = ff]
      have l: "unat (sqlite3VdbeSerialTypeLen (ser ff (MBlob z n))) = length z + n"
        using len put by (simp add: m)
      have "recordSpace ff (x # xs) =
          (if nd \<noteq> 0 then (nd + (length z + n), nh + length (type_bytes ff x), nz, (MBlob (z @ replicate n 0) 0, ser ff x) # pl)
           else (length z, nh + length (type_bytes ff x), nz + n, (x, ser ff x) # pl))"
        by (simp only: recordSpace.simps r prod.case Let_def hd) (simp add: m l)
      moreover have "concat (map (\<lambda>(r, t). sqlite3VdbeSerialPut r t) pl) = []" if "nd = 0"
        using IH that by simp
      moreover have "concat (map (data_bytes ff) (map expand xs)) =
          concat (map (\<lambda>(r, t). sqlite3VdbeSerialPut r t) pl) @ replicate nz 0" using IH by simp
      ultimately show ?thesis using Cons.prems(2) IH hd' put ser m
        by (cases "nd = 0") (auto simp: add.commute replicate_add simp del: map_map concat_eq_Nil_conv)
    qed
  qed
  then show "nHdr = length (concat (map (type_bytes ff) (map expand xs)))"
    "map snd plan = map (ser ff) (map expand xs)"
    "concat (map (\<lambda>(r, t). sqlite3VdbeSerialPut r t) plan) @ replicate nZero 0 = concat (map (data_bytes ff) (map expand xs))"
    "nData = length (concat (map (\<lambda>(r, t). sqlite3VdbeSerialPut r t) plan))"
    by blast+
qed

lemma type_bytes_max: "length (type_bytes ff x) \<le> 5"
proof -
  have "unat (ser ff x) < 2 ^ 32" using unsigned_less [of "ser ff x"] by simp
  then have "unat (ucast (ser ff x) :: u64) < 128 ^ 5" by (simp add: unsigned_ucast_eq take_bit_nat_eq_self)
  then show ?thesis using putVarintBuf_length [of "ucast (ser ff x)" 5] by (simp add: sqlite3PutVarint_length)
qed

lemma types_max: "length (concat (map (type_bytes ff) xs)) \<le> 5 * length xs"
proof (induction xs)
  case (Cons x xs)
  then show ?case using type_bytes_max [of x ff] by simp
qed simp

text \<open>All columns a table may have, so that the header is below the limit of \<^verbatim>\<open>recordHdr_consistent\<close>.\<close>

lemma columns_fit: "length xs \<le> 32767 \<Longrightarrow> length (concat (map (type_bytes ff) xs)) < 0x1FFFF0"
  using types_max [where ff = ff and xs = xs] by simp

lemma splice_two:
  "length hdr + length dat \<le> length buf \<Longrightarrow> n = length hdr + length dat \<Longrightarrow>
   file_splice (file_splice (take n buf) 0 hdr) (length hdr) dat = hdr @ dat"
  by (cases "hdr = []"; cases "dat = []") (auto simp: file_splice_def min_def)



text \<open>All the memory that a record needs: its blobs expanded, and its buffer.\<close>

definition record_memory :: "int \<Rightarrow> cell list \<Rightarrow> bool list \<Rightarrow> bool" where
  "record_memory ff xs ms \<longleftrightarrow>
     (case expandBlobs (blobsToExpand ff xs) ms of (expanded, ms) \<Rightarrow> expanded \<and> fst (alloc ms))"

lemma makeRecord_eq:
  assumes "list_all storable xs" "length xs \<le> 32767"
  obtains z n where "z @ replicate n 0 = record_bytes ff (map expand xs)"
    "fst (makeRecord ff limit xs junk ms) =
      (if limit < length (record_bytes ff (map expand xs)) then Inl SQLITE_TOOBIG
       else if record_memory ff xs ms then Inr (MBlob z n) else Inl SQLITE_NOMEM)"
proof -
  obtain nd nh nz pl where r: "recordSpace ff xs = (nd, nh, nz, pl)" by (metis prod_cases4)
  note sp = recordSpace_spec [OF assms(1) r]
  let ?h = "header_len ff (map expand xs)"
  let ?types = "concat (map (type_bytes ff) (map expand xs))"
  let ?dat = "concat (map (\<lambda>(r, t). sqlite3VdbeSerialPut r t) pl)"
  have fit: "length ?types < 0x1FFFF0" using assms(2) by (intro columns_fit) simp
  have h: "recordHdr nh = ?h" by (simp add: sp(1) header_len_def)
  have hl: "?h = length (sqlite3PutVarint (of_nat ?h)) + length ?types"
    using recordHdr_consistent [OF fit] by (simp add: header_len_def)
  then have "?h < 0x100000000" using fit sqlite3PutVarint_bounds(2) [of "of_nat ?h"] by linarith
  then have u: "(ucast (of_nat ?h :: u32) :: u64) = of_nat ?h"
    by (simp add: word_unat_eq_iff unsigned_ucast_eq unsigned_of_nat take_bit_nat_eq_self)
  have "map (\<lambda>(r, t). putVarint32 t) pl = map (type_bytes ff) (map expand xs)"
  proof -
    have "map (\<lambda>(r, t). putVarint32 t) pl = map putVarint32 (map snd pl)" by (auto simp: case_prod_beta)
    also have "\<dots> = map (type_bytes ff) (map expand xs)" by (simp add: sp(2) putVarint32_eq)
    finally show ?thesis .
  qed
  then have hdr: "putVarint32 (of_nat ?h) @ concat (map (\<lambda>(r, t). putVarint32 t) pl) = sqlite3PutVarint (of_nat ?h) @ ?types"
    by (simp add: putVarint32_eq u)
  let ?z = "(sqlite3PutVarint (of_nat ?h) @ ?types) @ ?dat"
  have z: "?z @ replicate nz 0 = record_bytes ff (map expand xs)"
    using sp(3) by (simp add: record_bytes_def)
  have len: "length (record_bytes ff (map expand xs)) = ?h + nd + nz"
    unfolding z [symmetric] using hl sp(4) by simp
  have splice: "file_splice (file_splice (take (?h + nd) (junk @ replicate (?h + nd) 0)) 0
      (sqlite3PutVarint (of_nat ?h) @ ?types)) ?h ?dat = ?z"
    using splice_two [of "sqlite3PutVarint (of_nat ?h) @ ?types" ?dat "junk @ replicate (?h + nd) 0" "?h + nd"] hl sp(4) by simp
  obtain ok ms' where e: "expandBlobs (blobsToExpand ff xs) ms = (ok, ms')" by fastforce
  have "fst (makeRecord ff limit xs junk ms) =
      (if limit < length (record_bytes ff (map expand xs)) then Inl SQLITE_TOOBIG
       else if record_memory ff xs ms then Inr (MBlob ?z nz) else Inl SQLITE_NOMEM)"
    unfolding makeRecord_def r prod.case Let_def h hdr splice len e
    by (simp add: case_prod_beta record_memory_def e)
  then show thesis using that z by blast
qed

lemma makeRecord_Inr:
  assumes "list_all storable xs" "length xs \<le> 32767" "fst (makeRecord ff limit xs junk ms) = Inr m"
  shows "cell_bytes m = record_bytes ff (map expand xs)" "length (record_bytes ff (map expand xs)) \<le> limit"
proof -
  obtain z n where zn: "z @ replicate n 0 = record_bytes ff (map expand xs)"
    "fst (makeRecord ff limit xs junk ms) =
      (if limit < length (record_bytes ff (map expand xs)) then Inl SQLITE_TOOBIG
       else if record_memory ff xs ms then Inr (MBlob z n) else Inl SQLITE_NOMEM)"
    by (rule makeRecord_eq [OF assms(1,2)])
  from zn(2) assms(3) have m: "m = MBlob z n" "length (record_bytes ff (map expand xs)) \<le> limit"
    by (auto split: if_splits)
  then show "cell_bytes m = record_bytes ff (map expand xs)" "length (record_bytes ff (map expand xs)) \<le> limit"
    using zn(1) by (simp_all add: cell_bytes_def)
qed

text \<open>The whole way: made, then taken apart.\<close>

lemma makeRecord_unpack:
  assumes "list_all storable xs" "length xs \<le> 32767" "limit \<le> 1000000000" "0 < up_nField up"
    "fst (makeRecord ff limit xs junk ms) = Inr m" "holds p (cell_bytes m)"
  shows "sqlite3VdbeRecordUnpack (length (cell_bytes m)) p up =
    Done (up\<lparr>up_default_rc := 0, up_aMem := take (up_nField up) (map expand xs),
      up_nField := min (up_nField up) (length xs)\<rparr>)"
proof -
  note b = makeRecord_Inr [OF assms(1,2,5)]
  have pl: "list_all plain (map expand xs)" using assms(1) expand_plain by (simp add: list_all_iff)
  have fit: "length (concat (map (type_bytes ff) (map expand xs))) < 0x1FFFF0" using assms(2) by (intro columns_fit) simp
  have "length (record_bytes ff (map expand xs)) < 2 ^ 31" using b(2) assms(3) by simp
  note r = record_rest [OF assms(6) [unfolded b(1)] pl order_refl this fit]
  show ?thesis
    using unpackLoop_rest [OF r(1) assms(4)] r(2)
    by (simp add: sqlite3VdbeRecordUnpack_def b(1) min.commute take_map)
qed

lemma header_short:
  assumes "length xs \<le> 13"
  shows "header_len ff xs \<le> 66" "xs = x # ys \<Longrightarrow> length (type_bytes ff x) = 1 \<Longrightarrow> header_len ff xs \<le> 0x3F"
proof -
  have t: "length (concat (map (type_bytes ff) xs)) \<le> 65" using types_max [where ff = ff and xs = xs] assms by simp
  then show "header_len ff xs \<le> 66" by (simp add: header_len_def recordHdr_def)
  show "header_len ff xs \<le> 0x3F" if "xs = x # ys" "length (type_bytes ff x) = 1"
    using types_max [where ff = ff and xs = ys] assms that by (simp add: header_len_def recordHdr_def)
qed

text \<open>The routine that \<^verbatim>\<open>sqlite3VdbeFindCompare\<close> chooses, on a record.\<close>

lemma FindCompare_cells:
  assumes c: "comparable ff p nKey xs up" and n: "ki_nField ki + ki_nXField ki \<le> 13 \<longrightarrow> length xs \<le> 13"
    and f: "sqlite3VdbeFindCompare ki up = (f, up')"
  shows "sgn (fst (run_comparer f ki nKey p up')) = sgn (compare_cells ki (up_default_rc up) 0 xs (key_cells up)) \<and>
    snd (run_comparer f ki nKey p up') = up'"
proof -
  obtain x ys where xs: "xs = x # ys" using c by (cases xs) (auto simp: comparable_def)
  have same: "comparable ff p nKey xs up'" "up_default_rc up' = up_default_rc up" "key_cells up' = key_cells up"
    "up_aMem up' = up_aMem up"
    using c f by (auto simp: sqlite3VdbeFindCompare_def comparable_def key_cells_def Let_def split: if_splits cell.splits)
  show ?thesis
  proof (cases f)
    case CompareRecord
    then show ?thesis using RecordCompare_cells [OF same(1), of ki] same by simp
  next
    case CompareInt
    then obtain v where v: "up_aMem up ! 0 = MInt v" "length xs \<le> 13"
      "up_r1 up' = (if ki_aSortOrder ki ! 0 then 1 else - 1)" "up_r2 up' = (if ki_aSortOrder ki ! 0 then - 1 else 1)"
      using f n by (auto simp: sqlite3VdbeFindCompare_def Let_def split: if_splits cell.splits)
    have h: "header_len ff (x # ys) < 0x80" using header_short(1) [OF v(2), where ff = ff] by (simp add: xs)
    have i: "(\<exists>i. x = MInt i) \<longrightarrow> header_len ff (x # ys) \<le> 0x3F"
    proof
      assume "\<exists>i. x = MInt i"
      moreover have "storable x" using c xs by (simp add: comparable_def plain_def)
      ultimately have "ser ff x \<in> {1, 2, 3, 4, 5, 6, 8, 9}" by (intro serial_type_class(2))
      then have "ser ff x < 0x80" by auto
      then have "length (type_bytes ff x) = 1" using ucast_u32_le [of "ser ff x"] by (simp add: putVarint_1)
      then show "header_len ff (x # ys) \<le> 0x3F" using header_short(2) [OF v(2) xs] xs by simp
    qed
    show ?thesis
      using CompareInt_cells [OF same(1) [unfolded xs] h i, of v ki] v same CompareInt by (simp add: xs)
  next
    case CompareString
    then obtain z where z: "up_aMem up ! 0 = MStr z" "length xs \<le> 13" "ki_aColl ki ! 0 = None"
      "up_r1 up' = (if ki_aSortOrder ki ! 0 then 1 else - 1)" "up_r2 up' = (if ki_aSortOrder ki ! 0 then - 1 else 1)"
      using f n by (auto simp: sqlite3VdbeFindCompare_def Let_def split: if_splits cell.splits)
    have h: "header_len ff (x # ys) < 0x80" using header_short(1) [OF z(2), where ff = ff] by (simp add: xs)
    show ?thesis
      using CompareString_cells [OF same(1) [unfolded xs] h, of z ki] z same CompareString by (simp add: xs)
  qed
qed


text \<open>A header size of 2 GB or more is a negative offset of the data.\<close>

lemma unpack_header_overflow:
  assumes "getVarint32 p = (n, h)" "2 ^ 31 \<le> unat h" "n \<le> 9"
  shows "sqlite3VdbeRecordUnpack nKey p up = Undefined"
proof -
  have "unat h < 2 ^ 32" using unsigned_less [of h] by simp
  then have "unat h div 2 ^ 31 = 1" using assms(2) by (intro div_nat_eqI) simp_all
  then have "bit (unat h) 31" by (simp add: bit_iff_odd)
  then have "bit h 31" by (simp add: bit_unsigned_iff)
  then have neg: "h <s 0" by (simp add: word_sless_alt sint_uint bit_uint_iff)
  then have "sint h \<le> int nKey" by (simp add: word_sless_alt)
  moreover have "(of_nat n :: u32) < h" using assms(2,3) by (simp add: word_less_nat_alt unat_small)
  ultimately have "unpackLoop p nKey h (up_nField up) 0 (of_nat n) h = Undefined"
    using neg by (subst unpackLoop.simps) simp
  then show ?thesis using assms(1) by (simp add: sqlite3VdbeRecordUnpack_def)
qed

subsection \<open>The properties\<close>

text \<open>
  Property C15.  A record is taken apart into what it was made of.  \<^verbatim>\<open>OP_MakeRecord\<close> (on cells to which
  the affinities have been applied, with an output register that has no buffer) reports
  \<^verbatim>\<open>SQLITE_TOOBIG\<close> exactly when the record is longer than the limit; otherwise it reports
  \<^verbatim>\<open>SQLITE_NOMEM\<close> exactly when the expansion of a blob or the buffer of the record is refused memory;
  otherwise it makes the record in the file format, the unstored zeros at its end included.
  \<^verbatim>\<open>sqlite3VdbeRecordUnpack\<close> on its bytes gives the first cells up to the number asked for, each blob
  with its zeros written out, and counts them.
\<close>

theorem record_roundtrip:
  fixes ff :: int
  assumes "list_all storable xs" "length xs \<le> 32767" "limit \<le> 1000000000" "0 < up_nField up"
  defines "bytes \<equiv> record_bytes ff (map expand xs)"
  shows "if limit < length bytes then fst (makeRecord ff limit xs junk ms) = Inl SQLITE_TOOBIG
    else if \<not> record_memory ff xs ms then fst (makeRecord ff limit xs junk ms) = Inl SQLITE_NOMEM
    else \<exists>m. fst (makeRecord ff limit xs junk ms) = Inr m \<and> cell_bytes m = bytes \<and>
      (\<forall>p. holds p bytes \<longrightarrow>
        sqlite3VdbeRecordUnpack (length bytes) p up =
          Done (up\<lparr>up_default_rc := 0, up_aMem := take (up_nField up) (map expand xs),
            up_nField := min (up_nField up) (length xs)\<rparr>))"
proof (cases "limit < length bytes \<or> \<not> record_memory ff xs ms")
  case True
  then show ?thesis
    unfolding bytes_def by (rule_tac makeRecord_eq [OF assms(1,2), of ff limit junk ms]) auto
next
  case False
  then obtain m where m: "fst (makeRecord ff limit xs junk ms) = Inr m"
    unfolding bytes_def by (rule_tac makeRecord_eq [OF assms(1,2), of ff limit junk ms]) simp
  moreover have "cell_bytes m = bytes" using makeRecord_Inr [OF assms(1,2) m] by (simp add: bytes_def)
  ultimately show ?thesis using False makeRecord_unpack [OF assms(1-4) m] by auto
qed

lemma record_roundtrip_witness:
  "(\<exists>m. fst (makeRecord 4 100 [MInt 300, MNull, MBlob [1] 2, MStr [97, 98]] [] [True, True]) = Inr m \<and>
     sqlite3VdbeRecordUnpack (length (cell_bytes m)) (\<lambda>k. cell_bytes m ! k)
       \<lparr>up_aMem = [], up_nField = 3, up_default_rc = 1, up_errCode = 0, up_r1 = 0, up_r2 = 0\<rparr> =
     Done \<lparr>up_aMem = [MInt 300, MNull, MBlob [1, 0, 0] 0], up_nField = 3, up_default_rc = 0, up_errCode = 0, up_r1 = 0, up_r2 = 0\<rparr>) \<and>
   fst (makeRecord 4 100 [MInt 300, MNull, MBlob [1] 2, MStr [97, 98]] [] [False, True]) = Inl SQLITE_NOMEM \<and>
   fst (makeRecord 4 100 [MInt 300, MNull, MBlob [1] 2, MStr [97, 98]] [] [True, False]) = Inl SQLITE_NOMEM \<and>
   fst (makeRecord 4 11 [MInt 300, MNull, MBlob [1] 2, MStr [97, 98]] [] [True, True]) = Inl SQLITE_TOOBIG"
proof -
  let ?xs = "[MInt 300, MNull, MBlob [1] 2, MStr [97, 98]]"
  let ?up = "\<lparr>up_aMem = [], up_nField = 3, up_default_rc = 1, up_errCode = 0, up_r1 = 0, up_r2 = 0\<rparr>"
  have bytes: "record_bytes 4 (map expand ?xs) = [5, 2, 0, 18, 17, 1, 44, 1, 0, 0, 97, 98]" by code_simp
  have mem: "record_memory 4 ?xs [True, True]" "\<not> record_memory 4 ?xs [False, True]" "\<not> record_memory 4 ?xs [True, False]"
    by code_simp+
  have "list_all storable ?xs" by simp
  note made = record_roundtrip [OF this, of _ ?up 4 "[]"]
  show ?thesis
    using made [of 100 "[True, True]"] made [of 100 "[False, True]"] made [of 100 "[True, False]"] made [of 11 "[True, True]"] mem
    unfolding bytes by (auto simp: holds_def numeral_2_eq_2)
qed

text \<open>
  Property C16.  The comparison that \<^verbatim>\<open>sqlite3VdbeFindCompare\<close> picks for a key (integers, text with the
  default collation, or the general one) gives, on a record that \<^verbatim>\<open>OP_MakeRecord\<close> made with at least as
  many cells as the key has fields, the sign of comparing the cells with the fields of the key one by one with \<^verbatim>\<open>sqlite3MemCompare\<close>, each with its
  collation and its sort order, and the default when all are equal.  No error is reported.
\<close>

theorem record_compare_fields:
  assumes "list_all storable xs" "limit \<le> 1000000000"
    "fst (makeRecord ff limit xs junk ms) = Inr m" "holds p (cell_bytes m)"
    "0 < up_nField up" "up_nField up \<le> length (up_aMem up)" "up_nField up \<le> length xs"
    "length xs \<le> (if ki_nField ki + ki_nXField ki \<le> 13 then 13 else 32767)"
    "sqlite3VdbeFindCompare ki up = (f, up')"
  shows "sgn (fst (run_comparer f ki (length (cell_bytes m)) p up')) =
      sgn (compare_cells ki (up_default_rc up) 0 (map expand xs) (take (up_nField up) (up_aMem up))) \<and>
    snd (run_comparer f ki (length (cell_bytes m)) p up') = up'"
proof -
  have len: "length xs \<le> 32767" using assms(8) by (simp split: if_splits)
  note b = makeRecord_Inr [OF assms(1) len assms(3)]
  have "list_all plain (map expand xs)" using assms(1) expand_plain by (simp add: list_all_iff)
  moreover have "length (concat (map (type_bytes ff) (map expand xs))) < 0x1FFFF0" using len by (intro columns_fit) simp
  ultimately have "comparable ff p (length (cell_bytes m)) (map expand xs) up"
    using assms(2,4-7) b by (auto simp: comparable_def)
  from FindCompare_cells [OF this _ assms(9)] assms(8) show ?thesis by (auto simp: key_cells_def split: if_splits)
qed

lemma record_compare_fields_witness:
  "sgn (fst (run_comparer CompareInt \<lparr>ki_aColl = [None, None], ki_aSortOrder = [False, True], ki_nField = 2, ki_nXField = 0\<rparr> 5
      (\<lambda>k. [3, 1, 15, 5, 97] ! k)
      \<lparr>up_aMem = [MInt 5, MStr [98]], up_nField = 2, up_default_rc = 0, up_errCode = 0, up_r1 = - 1, up_r2 = 1\<rparr>)) = 1"
proof -
  let ?ki = "\<lparr>ki_aColl = [None, None], ki_aSortOrder = [False, True], ki_nField = 2, ki_nXField = 0\<rparr> :: key_info"
  let ?up = "\<lparr>up_aMem = [MInt 5, MStr [98]], up_nField = 2, up_default_rc = 0, up_errCode = 0, up_r1 = - 1, up_r2 = 1\<rparr>"
  have m: "fst (makeRecord 4 100 [MInt 5, MStr [97]] [] []) = Inr (MBlob [3, 1, 15, 5, 97] 0)" by code_simp
  let ?p = "\<lambda>k. [3, 1, 15, 5, 97] ! k :: u8"
  have five: "length (cell_bytes (MBlob [3, 1, 15, 5, 97] 0)) = 5" by (simp add: cell_bytes_def)
  have h: "holds ?p (cell_bytes (MBlob [3, 1, 15, 5, 97] 0))" by (simp add: cell_bytes_def)
  have c: "compare_cells ?ki 0 0 [MInt 5, MStr [97]] [MInt 5, MStr [98]] = 1" by code_simp
  have f: "sqlite3VdbeFindCompare ?ki ?up = (CompareInt, ?up)" by (simp add: sqlite3VdbeFindCompare_def)
  have "sgn (fst (run_comparer CompareInt ?ki (length (cell_bytes (MBlob [3, 1, 15, 5, 97] 0))) ?p ?up)) =
      sgn (compare_cells ?ki (up_default_rc ?up) 0 (map expand [MInt 5, MStr [97]]) (take (up_nField ?up) (up_aMem ?up)))"
    by (rule conjunct1 [OF record_compare_fields [OF _ _ m h _ _ _ _ f]]) simp_all
  then show ?thesis unfolding five using c by (simp del: compare_cells.simps run_comparer.simps)
qed


subsection \<open>The order of cells\<close>

lemma memcmp_antisym: "length x = length y \<Longrightarrow> memcmp y x = - memcmp x y"
  by (induction x y rule: memcmp.induct) auto

lemma BlobCompare_antisym: "sqlite3BlobCompare y x = - sqlite3BlobCompare x y"
  using memcmp_antisym [of "take (min (length x) (length y)) x" "take (min (length x) (length y)) y"]
  by (simp add: sqlite3BlobCompare_def Let_def min.commute)

lemma dbl_less_asym: "dbl_less a b \<Longrightarrow> \<not> dbl_less b a"
  by (auto simp: dbl_less_def)

lemma MemCompare_antisym: "sqlite3MemCompare y x None = - sqlite3MemCompare x y None"
proof -
  have 1: "sqlite3BlobCompare (cell_z y) (cell_z x) = - sqlite3BlobCompare (cell_z x) (cell_z y)" by (rule BlobCompare_antisym)
  have 2: "\<not> (dbl_less a b \<and> dbl_less b a)" for a b using dbl_less_asym by blast
  have 3: "\<not> (a <s b \<and> b <s a)" for a b :: i64 by (auto simp: word_sless_alt)
  show ?thesis
  proof (cases x)
    case (MInt i)
    then show ?thesis using 2 3 by (cases y) (auto simp: sqlite3MemCompare_def)
  next
    case (MReal r)
    then show ?thesis using 2 by (cases y) (auto simp: sqlite3MemCompare_def)
  qed (use 1 in \<open>cases y; simp add: sqlite3MemCompare_def\<close>)+
qed

lemma top_bit_eq: "2 ^ e \<le> n \<Longrightarrow> n < 2 ^ Suc e \<Longrightarrow> e \<le> k \<Longrightarrow> top_bit k n = e"
proof (induction k)
  case (Suc k)
  show ?case
  proof (cases "e = Suc k")
    case False
    then have "(2 :: nat) ^ Suc e \<le> 2 ^ Suc k" using Suc.prems by (intro power_increasing) auto
    then have "n < 2 ^ Suc k" using Suc.prems(2) by (rule less_le_trans [rotated])
    then show ?thesis using Suc False by simp
  qed (use Suc in simp)
qed simp

lemma dbl_of_2_53: "dbl_of_int (2 ^ 53) = 0x4340000000000000" "dbl_of_int (2 ^ 53 + 1) = 0x4340000000000000"
proof -
  have "top_bit 63 (2 ^ 53) = 53" "top_bit 63 (2 ^ 53 + 1) = 53" by (rule top_bit_eq; simp)+
  then have t: "top_bit 63 9007199254740992 = 53" "top_bit 63 9007199254740993 = 53" by simp_all
  have d: "dbl_of_nat 9007199254740992 = 0x4340000000000000" "dbl_of_nat 9007199254740993 = 0x4340000000000000"
    by (simp_all add: dbl_of_nat_def t)
  show "dbl_of_int (2 ^ 53) = 0x4340000000000000" "dbl_of_int (2 ^ 53 + 1) = 0x4340000000000000"
    by (simp_all add: dbl_of_int_def word_sless_alt d)
qed

text \<open>
  Property C35.  With the default collation the comparison of cells is antisymmetric, whatever the two
  cells are.  It is not transitive, because an integer is rounded to a double before it is compared
  with a real: the real 2^53 equals both the integers 2^53 and 2^53 + 1, of which the first is less
  than the second.
\<close>

theorem mem_compare_order:
  "sqlite3MemCompare (MInt (2 ^ 53)) (MReal 0x4340000000000000) None = 0 \<and>
   sqlite3MemCompare (MReal 0x4340000000000000) (MInt (2 ^ 53 + 1)) None = 0 \<and>
   sqlite3MemCompare (MInt (2 ^ 53)) (MInt (2 ^ 53 + 1)) None = - 1 \<and>
   sqlite3MemCompare y x None = - sqlite3MemCompare x y None"
proof -
  have "\<not> dbl_less a a" for a by (simp add: dbl_less_def)
  then show ?thesis
    using MemCompare_antisym [of y x] by (simp add: sqlite3MemCompare_def dbl_of_2_53 [simplified] word_sless_alt)
qed

end
