(* ===== verification/BtCell.thy ===== *)
theory BtCell
  imports Varint
begin

text \<open>
  Pages and cells of the B-tree (\<^verbatim>\<open>btree.c\<close> in \<^verbatim>\<open>sqlite/3.8.11/sqlite3.c\<close>): the in-memory header
  \<^verbatim>\<open>MemPage\<close> of a page, its flags, and the two routines that find the size of a cell, the full parser
  \<^verbatim>\<open>btreeParseCellPtr\<close> and the short \<^verbatim>\<open>cellSizePtr\<close>.

  The image of a page and the buffer of a cell are functions from offsets to bytes.  Offsets and sizes
  are natural numbers, with the truncation to \<^verbatim>\<open>u16\<close> or \<^verbatim>\<open>u8\<close> written out where the code stores them; a
  payload size is a 32-bit word.
\<close>

unbundle bit_operations_syntax

type_synonym memory = "nat \<Rightarrow> u8"

record bt_shared =
  usableSize :: nat
  pageSize :: nat
  bt_maxLocal :: nat
  bt_minLocal :: nat
  bt_maxLeaf :: nat
  bt_minLeaf :: nat
  bt_max1bytePayload :: nat
  secureDelete :: bool
  cellSizeCheck :: bool

text \<open>The pages of overflowing cells \<^verbatim>\<open>aiOvfl\<close>/\<^verbatim>\<open>apOvfl\<close> are a list of indexes and contents.\<close>

record mem_page =
  isInit :: bool
  apOvfl :: "(nat \<times> u8 list) list"
  intKey :: bool
  intKeyLeaf :: bool
  noPayload :: bool
  leaf :: nat
  hdrOffset :: nat
  childPtrSize :: nat
  max1bytePayload :: nat
  maxLocal :: nat
  minLocal :: nat
  cellOffset :: nat
  nFree :: nat
  nCell :: nat
  maskPage :: nat
  aData :: memory


definition PTF_INTKEY :: nat where "PTF_INTKEY = 1"
definition PTF_ZERODATA :: nat where "PTF_ZERODATA = 2"
definition PTF_LEAFDATA :: nat where "PTF_LEAFDATA = 4"
definition PTF_LEAF :: nat where "PTF_LEAF = 8"

definition u16of :: "nat \<Rightarrow> nat" where "u16of n = n mod 0x10000"

text \<open>How much payload a page keeps, from the usable size (\<^verbatim>\<open>lockBtree\<close>).\<close>

definition setLimits :: "bt_shared \<Rightarrow> bt_shared" where
  "setLimits bt =
     (let u = usableSize bt;
        bt = bt\<lparr>bt_maxLocal := u16of ((u - 12) * 64 div 255 - 23), bt_minLocal := u16of ((u - 12) * 32 div 255 - 23),
          bt_maxLeaf := u16of (u - 35), bt_minLeaf := u16of ((u - 12) * 32 div 255 - 23)\<rparr>
      in bt\<lparr>bt_max1bytePayload := (if 127 < bt_maxLocal bt then 127 else bt_maxLocal bt mod 256)\<rparr>)"

text \<open>The flags byte; on an unknown combination the fields set before the test keep their new values.\<close>

definition decodeFlags :: "bt_shared \<Rightarrow> mem_page \<Rightarrow> nat \<Rightarrow> int \<times> mem_page" where
  "decodeFlags bt pg flagByte =
     (let pg = pg\<lparr>leaf := drop_bit 3 flagByte mod 256\<rparr>;
        flagByte = flagByte - (flagByte AND PTF_LEAF);
        pg = pg\<lparr>childPtrSize := nat ((4 - 4 * int (leaf pg)) mod 256)\<rparr>
      in if flagByte = (PTF_LEAFDATA OR PTF_INTKEY)
         then (SQLITE_OK, pg\<lparr>intKey := True, intKeyLeaf := leaf pg \<noteq> 0, noPayload := leaf pg = 0,
           maxLocal := bt_maxLeaf bt, minLocal := bt_minLeaf bt, max1bytePayload := bt_max1bytePayload bt\<rparr>)
         else if flagByte = PTF_ZERODATA
         then (SQLITE_OK, pg\<lparr>intKey := False, intKeyLeaf := False, noPayload := False,
           maxLocal := bt_maxLocal bt, minLocal := bt_minLocal bt, max1bytePayload := bt_max1bytePayload bt\<rparr>)
         else (SQLITE_CORRUPT, pg))"

subsection \<open>Parsing a cell\<close>

record cell_info =
  nKey :: u64
  pPayload :: nat
  nPayload :: u32
  nLocal :: nat
  iOverflow :: nat
  nSize :: nat

text \<open>The payload that stays on the page when not all of it fits.\<close>

definition localPayload :: "bt_shared \<Rightarrow> mem_page \<Rightarrow> u32 \<Rightarrow> nat" where
  "localPayload bt pg n =
     (let surplus = of_nat (minLocal pg) + (n - of_nat (minLocal pg)) mod (of_nat (usableSize bt) - 4) :: u32
      in if unat surplus \<le> maxLocal pg then unat surplus else minLocal pg)"

definition btreeParseCellPtr :: "bt_shared \<Rightarrow> mem_page \<Rightarrow> memory \<Rightarrow> cell_info" where
  "btreeParseCellPtr bt pg pCell =
     (if \<not> intKeyLeaf pg \<and> noPayload pg
      then case sqlite3GetVarint (\<lambda>k. pCell (4 + k)) of (n, key) \<Rightarrow>
        \<lparr>nKey = key, pPayload = 0, nPayload = 0, nLocal = 0, iOverflow = 0, nSize = u16of (4 + n)\<rparr>
      else
        let (pIter, payload, key) =
            (if intKeyLeaf pg
             then case getVarint32 pCell of (n, payload) \<Rightarrow>
               case sqlite3GetVarint (\<lambda>k. pCell (n + k)) of (m, key) \<Rightarrow> (n + m, payload, key)
             else case getVarint32 (\<lambda>k. pCell (childPtrSize pg + k)) of (n, payload) \<Rightarrow>
               (childPtrSize pg + n, payload, ucast payload))
        in if unat payload \<le> maxLocal pg
           then let sz = u16of (unat payload + pIter)
             in \<lparr>nKey = key, pPayload = pIter, nPayload = payload, nLocal = u16of (unat payload), iOverflow = 0,
                 nSize = (if sz < 4 then 4 else sz)\<rparr>
           else let loc = u16of (localPayload bt pg payload); ovfl = u16of (pIter + loc)
             in \<lparr>nKey = key, pPayload = pIter, nPayload = payload, nLocal = loc, iOverflow = ovfl, nSize = u16of (ovfl + 4)\<rparr>)"

text \<open>The loops of \<^verbatim>\<open>cellSizePtr\<close>: over a varint up to the end \<^verbatim>\<open>pEnd\<close>, and over the payload size.\<close>

function skipVarint :: "memory \<Rightarrow> nat \<Rightarrow> nat \<Rightarrow> nat" where
  "skipVarint p pIter pEnd =
     (if p pIter AND 0x80 \<noteq> 0 \<and> pIter + 1 < pEnd then skipVarint p (pIter + 1) pEnd else pIter + 1)"
  by pat_completeness auto
termination by (relation "measure (\<lambda>(p, i, e). e - i)") auto

function sizeLoop :: "memory \<Rightarrow> nat \<Rightarrow> nat \<Rightarrow> u32 \<Rightarrow> nat \<times> u32" where
  "sizeLoop p pIter pEnd n =
     (let pIter = pIter + 1; n = push_bit 7 n OR (ucast (p pIter) AND 0x7f)
      in if 0x80 \<le> p pIter \<and> pIter < pEnd then sizeLoop p pIter pEnd n else (pIter, n))"
  by pat_completeness auto
termination by (relation "measure (\<lambda>(p, i, e, n). e - i)") auto

declare skipVarint.simps [simp del] sizeLoop.simps [simp del]

definition cellSizePtr :: "bt_shared \<Rightarrow> mem_page \<Rightarrow> memory \<Rightarrow> nat" where
  "cellSizePtr bt pg pCell =
     (let pIter = childPtrSize pg
      in if noPayload pg then u16of (skipVarint pCell pIter (pIter + 9))
         else
           let (pIter, n) =
               (if pCell pIter \<ge> 0x80 then sizeLoop pCell pIter (pIter + 9) (ucast (pCell pIter) AND 0x7f)
                else (pIter, ucast (pCell pIter)));
             pIter = pIter + 1;
             pIter = (if intKey pg then skipVarint pCell pIter (pIter + 9) else pIter)
           in if unat n \<le> maxLocal pg
              then let sz = unat n + pIter in u16of (if sz < 4 then 4 else sz)
              else u16of (localPayload bt pg n + 4 + u16of pIter))"

subsection \<open>The two sizes agree\<close>

lemma skipVarint_ref: "i \<le> 8 \<Longrightarrow> skipVarint p i 9 = fst (varint_ref p i acc)"
proof (induction "9 - i" arbitrary: i acc)
  case 0
  then show ?case by simp
next
  case (Suc k)
  have high: "p i AND 0x80 = 0 \<longleftrightarrow> \<not> bit (p i) 7" using and_exp_eq_0_iff_not_bit [of "p i" 7] by simp
  show ?case
  proof (cases "i = 8")
    case True
    then show ?thesis by (subst skipVarint.simps, subst varint_ref.simps) simp
  next
    case False
    then have "skipVarint p (i + 1) 9 = fst (varint_ref p (i + 1) (push_bit 7 acc OR ucast (p i AND 0x7f)))"
      using Suc by (intro Suc.hyps(1)) auto
    then show ?thesis using False Suc.prems high by (subst skipVarint.simps, subst varint_ref.simps) (simp add: Let_def)
  qed
qed

lemma skipVarint_shift: "skipVarint p (j + i) (j + e) = j + skipVarint (\<lambda>k. p (j + k)) i e"
proof (induction "e - i" arbitrary: i)
  case 0
  then show ?case by (subst skipVarint.simps, subst (2) skipVarint.simps) simp
next
  case (Suc k)
  have "skipVarint p (j + (i + 1)) (j + e) = j + skipVarint (\<lambda>k. p (j + k)) (i + 1) e" using Suc by (intro Suc.hyps) simp
  then show ?case by (subst skipVarint.simps, subst (2) skipVarint.simps) simp
qed

lemma skipVarint_len: "skipVarint p j (j + 9) = j + fst (sqlite3GetVarint (\<lambda>k. p (j + k)))"
  using skipVarint_shift [of p j 0 9] skipVarint_ref [of 0 "\<lambda>k. p (j + k)" 0] by (simp add: sqlite3GetVarint_eq_ref)

lemma sizeLoop_shift: "sizeLoop p (j + i) (j + e) n = (case sizeLoop (\<lambda>k. p (j + k)) i e n of (i', n') \<Rightarrow> (j + i', n'))"
proof (induction "e - i" arbitrary: i n)
  case 0
  then show ?case by (subst sizeLoop.simps, subst (2) sizeLoop.simps) (simp add: Let_def)
next
  case (Suc k)
  have "sizeLoop p (j + (i + 1)) (j + e) m = (case sizeLoop (\<lambda>k. p (j + k)) (i + 1) e m of (i', n') \<Rightarrow> (j + i', n'))" for m
    using Suc by (intro Suc.hyps) simp
  then show ?case by (subst sizeLoop.simps, subst (2) sizeLoop.simps) (simp add: Let_def)
qed

lemma sizeLoop_ref:
  assumes "i < 8" "fst (varint_ref p (i + 1) acc) \<le> 8"
  shows "sizeLoop p i 9 (ucast acc) = (fst (varint_ref p (i + 1) acc) - 1, ucast (snd (varint_ref p (i + 1) acc)))"
  using assms
proof (induction "8 - i" arbitrary: i acc)
  case 0
  then show ?case by simp
next
  case (Suc k)
  have high: "0x80 \<le> p (i + 1) \<longleftrightarrow> bit (p (i + 1)) 7" using byte_less_iff [of "p (i + 1)"] by (simp add: not_less [symmetric])
  let ?acc = "push_bit 7 acc OR ucast (p (i + 1) AND 0x7f)"
  have up: "push_bit 7 (ucast acc) OR (ucast (p (i + 1)) AND 0x7f) = (ucast ?acc :: u32)"
    by (rule u32_bits_eqI) (simp add: bit_simps byte_bit_high)
  show ?case
  proof (cases "i = 7")
    case True
    then show ?thesis using Suc.prems by (subst (asm) varint_ref.simps) simp
  next
    case False
    then have i: "i + 1 < 8" using Suc.prems by simp
    show ?thesis
    proof (cases "bit (p (i + 1)) 7")
      case True
      then have r: "varint_ref p (i + 1) acc = varint_ref p (i + 1 + 1) ?acc"
        using i by (subst varint_ref.simps) (simp add: Let_def)
      have "sizeLoop p (i + 1) 9 (ucast ?acc) = (fst (varint_ref p (i + 1 + 1) ?acc) - 1, ucast (snd (varint_ref p (i + 1 + 1) ?acc)))"
        using Suc i r by (intro Suc.hyps(1)) auto
      then show ?thesis using True i r high up by (subst sizeLoop.simps) (simp add: Let_def)
    next
      case False
      then have "varint_ref p (i + 1) acc = (i + 1 + 1, ?acc)"
        using i by (subst varint_ref.simps) (simp add: Let_def)
      then show ?thesis using False high up by (subst sizeLoop.simps) (simp add: Let_def)
    qed
  qed
qed

text \<open>What the flags and the limits say of a page.\<close>

definition page_kind :: "bt_shared \<Rightarrow> mem_page \<Rightarrow> bool" where
  "page_kind bt pg \<longleftrightarrow>
     leaf pg \<le> 1 \<and> childPtrSize pg = (if leaf pg = 0 then 4 else 0) \<and>
     intKeyLeaf pg = (intKey pg \<and> leaf pg = 1) \<and> noPayload pg = (intKey pg \<and> leaf pg = 0) \<and>
     maxLocal pg \<le> usableSize bt - 35 \<and> minLocal pg \<le> maxLocal pg"

lemma decodeFlags_cases:
  assumes "decodeFlags bt pg f = (SQLITE_OK, pg')"
  shows "f \<in> {2, 5, 10, 13}"
proof -
  have "int f AND 8 \<le> 8" by (rule AND_upper2) simp
  then have "f AND 8 \<le> 8" by (metis of_nat_and_eq of_nat_le_iff of_nat_numeral)
  have "f - (f AND 8) = 5 \<or> f - (f AND 8) = 2"
    using assms
    by (auto simp: decodeFlags_def Let_def PTF_LEAF_def PTF_LEAFDATA_def PTF_INTKEY_def PTF_ZERODATA_def SQLITE_CORRUPT_def
        SQLITE_OK_def split: if_splits)
  then have "f - (f AND 8) = 5 \<or> f - (f AND 8) = 2" "f \<le> 13" using \<open>f AND 8 \<le> 8\<close> by auto
  moreover from this have "f = 0 \<or> f = 1 \<or> f = 2 \<or> f = 3 \<or> f = 4 \<or> f = 5 \<or> f = 6 \<or> f = 7 \<or> f = 8 \<or> f = 9 \<or> f = 10 \<or> f = 11 \<or> f = 12 \<or> f = 13" by arith
  ultimately show ?thesis by (elim disjE) simp_all
qed

lemma setLimits_bounds:
  assumes "480 \<le> usableSize bt" "usableSize bt \<le> 65536"
  shows "bt_maxLeaf (setLimits bt) = usableSize bt - 35" "bt_maxLocal (setLimits bt) \<le> usableSize bt - 35"
    "bt_minLeaf (setLimits bt) \<le> bt_maxLeaf (setLimits bt)" "bt_minLocal (setLimits bt) \<le> bt_maxLocal (setLimits bt)"
    "usableSize (setLimits bt) = usableSize bt"
proof -
  define a where "a = (usableSize bt - 12) * 64 div 255"
  define b where "b = (usableSize bt - 12) * 32 div 255"
  have ab: "b \<le> a" "a \<le> usableSize bt - 12"
    by (simp_all add: a_def b_def div_le_mono less_eq_div_iff_mult_less_eq)
  then have "(a - 23) mod 0x10000 = a - 23" "(b - 23) mod 0x10000 = b - 23" "(usableSize bt - 35) mod 0x10000 = usableSize bt - 35"
    using assms(2) by (intro mod_less; linarith)+
  then show "bt_maxLeaf (setLimits bt) = usableSize bt - 35" "bt_maxLocal (setLimits bt) \<le> usableSize bt - 35"
    "bt_minLeaf (setLimits bt) \<le> bt_maxLeaf (setLimits bt)" "bt_minLocal (setLimits bt) \<le> bt_maxLocal (setLimits bt)"
    "usableSize (setLimits bt) = usableSize bt"
    using ab by (simp_all add: setLimits_def Let_def u16of_def flip: a_def b_def)
qed

lemma decodeFlags_kind:
  assumes "decodeFlags (setLimits bt) pg f = (SQLITE_OK, pg')" "480 \<le> usableSize bt" "usableSize bt \<le> 65536"
  shows "page_kind bt pg'"
proof -
  note l = setLimits_bounds [OF assms(2,3)]
  have "f \<in> {2, 5, 10, 13}" by (rule decodeFlags_cases [OF assms(1)])
  then consider "f = 2" | "f = 5" | "f = 10" | "f = 13" by auto
  then show ?thesis
    by cases (use assms(1) l in \<open>simp_all add: decodeFlags_def Let_def PTF_LEAF_def PTF_LEAFDATA_def PTF_INTKEY_def
        PTF_ZERODATA_def page_kind_def SQLITE_CORRUPT_def SQLITE_OK_def, auto\<close>)
qed

text \<open>
  Property C14.  \<^verbatim>\<open>cellSizePtr\<close> is the \<^verbatim>\<open>nSize\<close> of the full parse, on every kind of page.  On an interior
  page of a table (\<^verbatim>\<open>noPayload\<close>) this holds for every cell, whatever its 64-bit key, and the size is the
  child pointer and the one to nine bytes of the key; on the other pages it holds for every cell whose
  payload size is a varint of at most eight bytes with a value of 32 bits, whatever its key.
\<close>

theorem cell_size_agrees:
  assumes "decodeFlags (setLimits bt) pg0 f = (SQLITE_OK, pg)" "480 \<le> usableSize bt" "usableSize bt \<le> 65536"
    "sqlite3GetVarint (\<lambda>k. pCell (childPtrSize pg + k)) = (n, v)" "noPayload pg \<or> n \<le> 8 \<and> v \<le> 0xffffffff"
  shows "cellSizePtr bt pg pCell = nSize (btreeParseCellPtr bt pg pCell) \<and>
    (if noPayload pg then cellSizePtr bt pg pCell = 4 + n else True)"
proof -
  note k = decodeFlags_kind [OF assms(1-3), unfolded page_kind_def]
  let ?q = "\<lambda>k. pCell (childPtrSize pg + k)"
  show ?thesis
  proof (cases "noPayload pg")
    case True
    have "n \<le> 9" using varint_ref_bounds [of 0 0 ?q n v] assms(4) by (simp add: sqlite3GetVarint_eq_ref)
    then show ?thesis using True k assms(4) skipVarint_len [of pCell 4]
      by (simp add: cellSizePtr_def btreeParseCellPtr_def case_prod_beta u16of_def)
  next
    case False
    then have small_size: "n \<le> 8" "v \<le> 0xffffffff" using assms(5) by simp_all
    have g32: "getVarint32 ?q = (n, ucast v)" using assms(4) small_size by (simp add: getVarint32_eq saturate32_def)
    have n: "1 \<le> n" using varint_ref_bounds [of 0 0 ?q n v] assms(4) by (simp add: sqlite3GetVarint_eq_ref)
    have size: "(if pCell (childPtrSize pg) \<ge> 0x80
        then sizeLoop pCell (childPtrSize pg) (childPtrSize pg + 9) (ucast (pCell (childPtrSize pg)) AND 0x7f)
        else (childPtrSize pg, ucast (pCell (childPtrSize pg)))) = (childPtrSize pg + (n - 1), ucast v)"
    proof (cases "bit (?q 0) 7")
      case True
      then have "\<not> pCell (childPtrSize pg) < 0x80" using byte_less_iff by simp
      moreover have "varint_ref ?q 1 (ucast (?q 0 AND 0x7f)) = (n, v)"
        using True varint_ref_steps(1) [of ?q 0] assms(4) by (simp add: sqlite3GetVarint_eq_ref)
      moreover have "(ucast (?q 0) AND 0x7f) = (ucast (ucast (?q 0 AND 0x7f) :: u64) :: u32)"
        by (rule u32_bits_eqI) (simp add: bit_simps byte_bit_high)
      ultimately show ?thesis
        using sizeLoop_ref [of 0 ?q "ucast (?q 0 AND 0x7f)"] sizeLoop_shift [of pCell "childPtrSize pg" 0 9] small_size(1)
        by (simp add: not_less)
    next
      case False
      then have "pCell (childPtrSize pg) < 0x80" "sqlite3GetVarint ?q = (1, ucast (?q 0))"
        using byte_less_iff getVarint_first_bytes(1) [of ?q] by simp_all
      moreover have "(ucast (ucast (?q 0) :: u64) :: u32) = ucast (?q 0)" by (rule u32_bits_eqI) (simp add: bit_simps)
      ultimately show ?thesis using assms(4) by (auto simp: not_le)
    qed
    define h where "h = childPtrSize pg + n"
    have h1: "childPtrSize pg + (n - 1) + 1 = h" using n by (simp add: h_def)
    define m where "m = fst (sqlite3GetVarint (\<lambda>k. pCell (h + k)))"
    have "m \<le> 9" using varint_ref_bounds [of 0 0 "\<lambda>k. pCell (h + k)"]
      by (cases "sqlite3GetVarint (\<lambda>k. pCell (h + k))") (simp add: m_def sqlite3GetVarint_eq_ref)
    then have hm: "h + m \<le> 21" using k small_size(1) by (simp add: h_def)
    have key: "skipVarint pCell h (h + 9) = h + m" by (simp add: skipVarint_len m_def)
    have small: "unat (ucast v :: u32) + (h + m) < 65536" if "unat (ucast v :: u32) \<le> maxLocal pg"
    proof -
      have "maxLocal pg \<le> usableSize bt - 35" using k by simp
      then show ?thesis using that hm assms(2,3) by linarith
    qed
    let ?w = "ucast v :: u32"
    have wrap: "u16of (u16of (x + u16of y) + 4) = u16of (y + 4 + u16of x)" for x y
    proof -
      have "u16of (u16of (x + u16of y) + 4) = (x + y + 4) mod 0x10000" by (simp add: u16of_def mod_simps)
      moreover have "u16of (y + 4 + u16of x) = (y + 4 + x) mod 0x10000" by (simp add: u16of_def mod_simps)
      ultimately show ?thesis by (simp add: ac_simps)
    qed
    have fits: "u16of (if x < 4 then 4 else x) = (if u16of x < 4 then 4 else u16of x)" if "x < 65536" for x
      using that by (simp add: u16of_def)
    show ?thesis
    proof (cases "intKey pg")
      case True
      then have i: "intKeyLeaf pg" "childPtrSize pg = 0" "h = n" using False k by (auto simp: h_def)
      have "cellSizePtr bt pg pCell =
          (if unat ?w \<le> maxLocal pg then u16of (if unat ?w + (h + m) < 4 then 4 else unat ?w + (h + m))
           else u16of (localPayload bt pg ?w + 4 + u16of (h + m)))"
        unfolding cellSizePtr_def Let_def using False size h1 key True by simp
      moreover have "nSize (btreeParseCellPtr bt pg pCell) =
          (if unat ?w \<le> maxLocal pg then if u16of (unat ?w + (h + m)) < 4 then 4 else u16of (unat ?w + (h + m))
           else u16of (u16of (h + m + u16of (localPayload bt pg ?w)) + 4))"
        using i g32 by (simp add: btreeParseCellPtr_def m_def case_prod_beta Let_def)
      ultimately show ?thesis
        using small fits [of "unat ?w + (h + m)"] fits [of "unat ?w + h"] hm
        by (cases "unat ?w \<le> maxLocal pg") (simp add: False, simp only: wrap if_False False)
    next
      case no: False
      then have i: "\<not> intKeyLeaf pg" "\<not> noPayload pg" using k by auto
      have "cellSizePtr bt pg pCell =
          (if unat ?w \<le> maxLocal pg then u16of (if unat ?w + h < 4 then 4 else unat ?w + h)
           else u16of (localPayload bt pg ?w + 4 + u16of h))"
        unfolding cellSizePtr_def Let_def using False size h1 no by simp
      moreover have "nSize (btreeParseCellPtr bt pg pCell) =
          (if unat ?w \<le> maxLocal pg then if u16of (unat ?w + h) < 4 then 4 else u16of (unat ?w + h)
           else u16of (u16of (h + u16of (localPayload bt pg ?w)) + 4))"
        using i g32 by (simp add: btreeParseCellPtr_def h_def case_prod_beta Let_def)
      ultimately show ?thesis
        using small fits [of "unat ?w + (h + m)"] fits [of "unat ?w + h"] hm
        by (cases "unat ?w \<le> maxLocal pg") (simp add: False, simp only: wrap if_False False)
    qed
  qed
qed

text \<open>Pages of a table in a database of 1024-byte pages, a leaf (flags 13) and an interior one (flags 5).\<close>

definition leaf_bt :: bt_shared where
  "leaf_bt = \<lparr>usableSize = 1024, pageSize = 1024, bt_maxLocal = 0, bt_minLocal = 0, bt_maxLeaf = 0,
     bt_minLeaf = 0, bt_max1bytePayload = 0, secureDelete = False, cellSizeCheck = False\<rparr>"

definition blank_page :: mem_page where
  "blank_page = \<lparr>isInit = False, apOvfl = [], intKey = False, intKeyLeaf = False,
     noPayload = False, leaf = 0, hdrOffset = 0, childPtrSize = 0, max1bytePayload = 0, maxLocal = 0, minLocal = 0,
     cellOffset = 0, nFree = 0, nCell = 0, maskPage = 0, aData = (\<lambda>_. 0)\<rparr>"

definition flags_page :: "nat \<Rightarrow> mem_page" where
  "flags_page f = snd (decodeFlags (setLimits leaf_bt) blank_page f)"

theorem cell_size_agrees_witness:
  "cellSizePtr leaf_bt (flags_page 13) (\<lambda>k. if k = 0 then 3 else 7) =
     nSize (btreeParseCellPtr leaf_bt (flags_page 13) (\<lambda>k. if k = 0 then 3 else 7)) \<and>
   cellSizePtr leaf_bt (flags_page 5) (\<lambda>_. 0xff) = nSize (btreeParseCellPtr leaf_bt (flags_page 5) (\<lambda>_. 0xff)) \<and>
   cellSizePtr leaf_bt (flags_page 5) (\<lambda>_. 0xff) = 13"
proof -
  have flags: "decodeFlags (setLimits leaf_bt) blank_page 13 = (SQLITE_OK, flags_page 13)"
    "decodeFlags (setLimits leaf_bt) blank_page 5 = (SQLITE_OK, flags_page 5)"
    "childPtrSize (flags_page 13) = 0" "childPtrSize (flags_page 5) = 4" "noPayload (flags_page 5)"
    by (simp_all add: flags_page_def blank_page_def decodeFlags_def Let_def PTF_LEAF_def PTF_LEAFDATA_def PTF_INTKEY_def PTF_ZERODATA_def)
  have size: "480 \<le> usableSize leaf_bt" "usableSize leaf_bt \<le> 65536" by (simp_all add: leaf_bt_def)
  have "\<not> bit (3 :: u8) 7" by code_simp
  then have 1: "sqlite3GetVarint (\<lambda>k. if childPtrSize (flags_page 13) + k = 0 then 3 else 7) = (1, 3)"
    using getVarint_first_bytes(1) [of "\<lambda>k. if k = 0 then 3 else 7"] flags(3) by simp
  have 2: "sqlite3GetVarint (\<lambda>k. 0xff) = (9, 0xffffffffffffffff)"
    by code_simp
  show ?thesis
    using cell_size_agrees [OF flags(1) size 1] cell_size_agrees [OF flags(2) size, of "\<lambda>_. 0xff", OF 2] flags(5) by simp
qed

end
