(* ===== verification/BtPage.thy ===== *)
theory BtPage
  imports BtCell
begin

text \<open>
  The space of a B-tree page (\<^verbatim>\<open>btree.c\<close> in \<^verbatim>\<open>sqlite/3.8.11/sqlite3.c\<close>): cells are kept in any order
  at the end of the page, an array of two-byte pointers behind the header gives their order, the free
  blocks between them form a chain in ascending order, and pieces of less than four bytes are counted
  as fragments.  Inserting a cell allocates space from the chain, from the gap, or after
  defragmenting the page; dropping one returns its space and merges it with its neighbours.

  The invariant \<^theory_text>\<open>page_inv\<close> relates a page to the list of its cells; the lemmas show that every
  operation keeps it and is the list operation, so that no sequence of insertions and deletions
  loses a byte or reports corruption.
\<close>

unbundle bit_operations_syntax

subsection \<open>Memory\<close>

definition get2byte :: "memory \<Rightarrow> nat \<Rightarrow> nat" where
  "get2byte d i = unat (d i) * 256 + unat (d (i + 1))"

definition put2byte :: "memory \<Rightarrow> nat \<Rightarrow> nat \<Rightarrow> memory" where
  "put2byte d i v = d(i := of_nat (v div 256), i + 1 := of_nat v)"

definition get2byteNotZero :: "memory \<Rightarrow> nat \<Rightarrow> nat" where
  "get2byteNotZero d i = nat ((int (get2byte d i) - 1) mod 0x10000) + 1"

definition put_bytes :: "memory \<Rightarrow> nat \<Rightarrow> u8 list \<Rightarrow> memory" where
  "put_bytes d a bs = (\<lambda>k. if a \<le> k \<and> k < a + length bs then bs ! (k - a) else d k)"

definition copy_bytes :: "memory \<Rightarrow> nat \<Rightarrow> memory \<Rightarrow> nat \<Rightarrow> nat \<Rightarrow> memory" where
  "copy_bytes d a src b n = (\<lambda>k. if a \<le> k \<and> k < a + n then src (b + (k - a)) else d k)"

definition zero_bytes :: "memory \<Rightarrow> nat \<Rightarrow> nat \<Rightarrow> memory" where
  "zero_bytes d a n = (\<lambda>k. if a \<le> k \<and> k < a + n then 0 else d k)"

subsection \<open>The operations\<close>

definition findCell :: "mem_page \<Rightarrow> nat \<Rightarrow> nat" where
  "findCell P I = (maskPage P AND get2byte (aData P) (cellOffset P + 2 * I))"

text \<open>
  Defragmenting: moving one cell from \<^verbatim>\<open>pc\<close> to \<^verbatim>\<open>cbrk\<close>, with the copy \<^verbatim>\<open>temp\<close> made before the first move,
  and the loop over the cells.
\<close>

definition defragMove ::
  "nat \<Rightarrow> memory \<Rightarrow> nat \<Rightarrow> nat \<Rightarrow> nat \<Rightarrow> memory option \<Rightarrow> memory \<Rightarrow> (memory option \<times> memory) exec" where
  "defragMove hdr junk pc sz cbrk temp data =
     (case temp of
        Some t \<Rightarrow> Done (temp, copy_bytes data cbrk t pc sz)
      | None \<Rightarrow>
          if cbrk = pc then Done (None, data)
          else
            let x = get2byte data (hdr + 5)
            in if cbrk + sz < x then Undefined
               else
                 let t = copy_bytes junk x data x (cbrk + sz - x)
                 in Done (Some t, copy_bytes data cbrk t pc sz))"

function defragLoop ::
  "bt_shared \<Rightarrow> mem_page \<Rightarrow> memory \<Rightarrow> nat \<Rightarrow> nat \<Rightarrow> memory option \<Rightarrow> memory \<Rightarrow> (int \<times> nat \<times> memory) exec" where
  "defragLoop bt pg junk i cbrk temp data =
     (if nCell pg \<le> i then Done (SQLITE_OK, cbrk, data)
      else
        let pAddr = cellOffset pg + i * 2; pc = get2byte data pAddr;
          iCellFirst = cellOffset pg + 2 * nCell pg; iCellLast = usableSize bt - 4
        in if pc < iCellFirst \<or> iCellLast < pc then Done (SQLITE_CORRUPT, cbrk, data)
           else
             let src = (case temp of None \<Rightarrow> data | Some t \<Rightarrow> t);
               size = cellSizePtr bt pg (\<lambda>k. src (pc + k))
             in if cbrk < iCellFirst + size \<or> usableSize bt < pc + size then Done (SQLITE_CORRUPT, cbrk, data)
                else
                  let cbrk = cbrk - size
                  in case defragMove (hdrOffset pg) junk pc size cbrk temp (put2byte data pAddr cbrk) of
                       Undefined \<Rightarrow> Undefined
                     | Done (temp, data) \<Rightarrow> defragLoop bt pg junk (i + 1) cbrk temp data)"
  by pat_completeness auto
termination by (relation "measure (\<lambda>(bt, pg, junk, i, _). nCell pg - i)") auto

declare defragLoop.simps [simp del]

definition defragmentPage :: "bt_shared \<Rightarrow> memory \<Rightarrow> mem_page \<Rightarrow> (int \<times> mem_page) exec" where
  "defragmentPage bt junk pg =
     exec_bind (defragLoop bt pg junk 0 (usableSize bt) None (aData pg)) (\<lambda>(rc, cbrk, data).
       if rc \<noteq> SQLITE_OK then Done (rc, pg\<lparr>aData := data\<rparr>)
       else
         let hdr = hdrOffset pg; iCellFirst = cellOffset pg + 2 * nCell pg;
           data = put2byte data (hdr + 5) cbrk;
           data = data(hdr + 1 := 0, hdr + 2 := 0, hdr + 7 := 0);
           data = zero_bytes data iCellFirst (cbrk - iCellFirst)
         in Done (if cbrk - iCellFirst \<noteq> nFree pg then SQLITE_CORRUPT else SQLITE_OK, pg\<lparr>aData := data\<rparr>))"

text \<open>
  Searching the free blocks: the result code, \<^verbatim>\<open>bDefrag\<close>, the offset of the space found, and the page.
\<close>

function findSlotLoop :: "bt_shared \<Rightarrow> mem_page \<Rightarrow> nat \<Rightarrow> nat \<Rightarrow> int \<times> bool \<times> nat option \<times> memory" where
  "findSlotLoop bt pPg nByte iAddr =
     (let aData = aData pPg; hdr = hdrOffset pPg; pc = get2byte aData iAddr
      in if pc = 0 then (SQLITE_OK, False, None, aData)
         else if usableSize bt - 4 < pc \<or> pc < iAddr + 4 then (SQLITE_CORRUPT, False, None, aData)
         else
           let size = get2byte aData (pc + 2)
           in if nByte \<le> size
              then
                let x = size - nByte
                in if pc < cellOffset pPg + 2 * nCell pPg \<or> usableSize bt < size + pc
                   then (SQLITE_CORRUPT, False, None, aData)
                   else if x < 4
                   then
                     if 60 \<le> unat (aData (hdr + 7)) then (SQLITE_OK, True, None, aData)
                     else
                       let aData = copy_bytes aData iAddr aData pc 2
                       in (SQLITE_OK, False, Some (pc + x), aData(hdr + 7 := aData (hdr + 7) + of_nat x))
                   else (SQLITE_OK, False, Some (pc + x), put2byte aData (pc + 2) x)
              else findSlotLoop bt pPg nByte pc)"
  by pat_completeness auto
termination by (relation "measure (\<lambda>(bt, pg, nByte, iAddr). usableSize bt - iAddr)") auto

declare findSlotLoop.simps [simp del]

definition pageFindSlot :: "bt_shared \<Rightarrow> mem_page \<Rightarrow> nat \<Rightarrow> int \<times> bool \<times> nat option \<times> memory" where
  "pageFindSlot bt pPg nByte = findSlotLoop bt pPg nByte (hdrOffset pPg + 1)"

text \<open>The end of \<^verbatim>\<open>allocateSpace\<close>: space from the gap.\<close>

definition allocateGap :: "mem_page \<Rightarrow> nat \<Rightarrow> nat \<Rightarrow> int \<times> nat \<times> mem_page" where
  "allocateGap pPage nByte ctop =
     (let ctop = ctop - nByte
      in (SQLITE_OK, ctop, pPage\<lparr>aData := put2byte (aData pPage) (hdrOffset pPage + 5) ctop\<rparr>))"

definition allocateSpace :: "bt_shared \<Rightarrow> memory \<Rightarrow> mem_page \<Rightarrow> nat \<Rightarrow> (int \<times> nat \<times> mem_page) exec" where
  "allocateSpace bt junk pPage nByte =
     (let hdr = hdrOffset pPage; data = aData pPage;
        gap = cellOffset pPage + 2 * nCell pPage;
        ctop = get2byteNotZero data (hdr + 5);
        defragment = exec_bind (defragmentPage bt junk pPage) (\<lambda>(rc, pPage).
          if rc \<noteq> SQLITE_OK then Done (rc, 0, pPage)
          else Done (allocateGap pPage nByte (get2byteNotZero (aData pPage) (hdr + 5))));
        noslot = (if ctop < gap + 2 + nByte then defragment else Done (allocateGap pPage nByte ctop))
      in if ctop < gap \<or> usableSize bt < ctop then Done (SQLITE_CORRUPT, 0, pPage)
         else if gap + 2 \<le> ctop \<and> (data (hdr + 1) \<noteq> 0 \<or> data (hdr + 2) \<noteq> 0)
         then case pageFindSlot bt pPage nByte of (rc, bDefrag, pSpace, d) \<Rightarrow>
           if rc \<noteq> SQLITE_OK then Done (rc, 0, pPage\<lparr>aData := d\<rparr>)
           else if bDefrag then defragment
           else case pSpace of Some idx \<Rightarrow> Done (SQLITE_OK, idx, pPage\<lparr>aData := d\<rparr>) | None \<Rightarrow> noslot
         else noslot)"

text \<open>Returning space: the place in the chain, and the merging.\<close>

function freeLoop :: "memory \<Rightarrow> nat \<Rightarrow> nat \<Rightarrow> (nat \<times> nat) option" where
  "freeLoop data iStart iPtr =
     (let iFreeBlk = get2byte data iPtr
      in if 0 < iFreeBlk \<and> iFreeBlk < iStart
         then if iFreeBlk < iPtr + 4 then None else freeLoop data iStart iFreeBlk
         else Some (iPtr, iFreeBlk))"
  by pat_completeness auto
termination by (relation "measure (\<lambda>(data, iStart, iPtr). iStart - iPtr)") auto

declare freeLoop.simps [simp del]

text \<open>
  Merging with the next and with the previous block: the new \<^verbatim>\<open>iStart\<close>, \<^verbatim>\<open>iSize\<close>, \<^verbatim>\<open>iEnd\<close>, \<^verbatim>\<open>iFreeBlk\<close> and
  the fragments that are taken in.
\<close>

definition mergeNext :: "bt_shared \<Rightarrow> memory \<Rightarrow> nat \<Rightarrow> nat \<Rightarrow> nat \<Rightarrow> nat \<Rightarrow> (nat \<times> nat \<times> nat \<times> nat) option" where
  "mergeNext bt data iStart iSize iEnd iFreeBlk =
     (if iFreeBlk \<noteq> 0 \<and> iFreeBlk \<le> iEnd + 3
      then if iFreeBlk < iEnd then None
           else
             let nFrag = iFreeBlk - iEnd; iEnd = iFreeBlk + get2byte data (iFreeBlk + 2)
             in if usableSize bt < iEnd then None
                else Some (u16of (iEnd - iStart), iEnd, get2byte data iFreeBlk, nFrag)
      else Some (iSize, iEnd, iFreeBlk, 0))"

definition mergePrev :: "memory \<Rightarrow> nat \<Rightarrow> nat \<Rightarrow> nat \<Rightarrow> nat \<Rightarrow> nat \<Rightarrow> nat \<Rightarrow> (nat \<times> nat \<times> nat) option" where
  "mergePrev data hdr iPtr iStart iSize iEnd nFrag =
     (if hdr + 1 < iPtr
      then
        let iPtrEnd = iPtr + get2byte data (iPtr + 2)
        in if iStart \<le> iPtrEnd + 3
           then if iStart < iPtrEnd then None else Some (iPtr, u16of (iEnd - iPtr), (nFrag + (iStart - iPtrEnd)) mod 256)
           else Some (iStart, iSize, nFrag)
      else Some (iStart, iSize, nFrag))"

text \<open>The last part: the block becomes part of the gap, or a member of the chain.\<close>

definition freeEnd :: "mem_page \<Rightarrow> memory \<Rightarrow> nat \<Rightarrow> nat \<Rightarrow> nat \<Rightarrow> nat \<Rightarrow> nat \<Rightarrow> nat \<Rightarrow> int \<times> mem_page" where
  "freeEnd pPage data iPtr iStart iSize iEnd iFreeBlk iOrigSize =
     (let hdr = hdrOffset pPage
      in if iStart = get2byte data (hdr + 5)
         then if iPtr \<noteq> hdr + 1 then (SQLITE_CORRUPT, pPage\<lparr>aData := data\<rparr>)
              else (SQLITE_OK, pPage\<lparr>aData := put2byte (put2byte data (hdr + 1) iFreeBlk) (hdr + 5) iEnd,
                nFree := u16of (nFree pPage + iOrigSize)\<rparr>)
         else (SQLITE_OK, pPage\<lparr>aData := put2byte (put2byte (put2byte data iPtr iStart) iStart iFreeBlk) (iStart + 2) iSize,
           nFree := u16of (nFree pPage + iOrigSize)\<rparr>))"

definition freeSpace :: "bt_shared \<Rightarrow> mem_page \<Rightarrow> nat \<Rightarrow> nat \<Rightarrow> int \<times> mem_page" where
  "freeSpace bt pPage iStart iSize =
     (let iLast = usableSize bt - 4; iEnd = iStart + iSize; hdr = hdrOffset pPage;
        data = (if secureDelete bt then zero_bytes (aData pPage) iStart iSize else aData pPage);
        corrupt = (SQLITE_CORRUPT, pPage\<lparr>aData := data\<rparr>)
      in if data (hdr + 2) = 0 \<and> data (hdr + 1) = 0
         then freeEnd pPage data (hdr + 1) iStart iSize iEnd 0 iSize
         else case freeLoop data iStart (hdr + 1) of
           None \<Rightarrow> corrupt
         | Some (iPtr, iFreeBlk) \<Rightarrow>
             if iLast < iFreeBlk then corrupt
             else case mergeNext bt data iStart iSize iEnd iFreeBlk of
               None \<Rightarrow> corrupt
             | Some (iSize', iEnd', iFreeBlk', nFrag) \<Rightarrow>
                 case mergePrev data hdr iPtr iStart iSize' iEnd' nFrag of
                   None \<Rightarrow> corrupt
                 | Some (iStart', iSize'', nFrag') \<Rightarrow>
                     if unat (data (hdr + 7)) < nFrag' then corrupt
                     else freeEnd pPage (data(hdr + 7 := data (hdr + 7) - of_nat nFrag')) iPtr iStart' iSize'' iEnd' iFreeBlk' iSize)"

text \<open>
  Reading a page: the optional check of the cells, and the sum of the free blocks (\<^verbatim>\<open>None\<close> on an error).
\<close>

function initFree :: "memory \<Rightarrow> nat \<Rightarrow> nat \<Rightarrow> nat \<Rightarrow> nat \<Rightarrow> nat option" where
  "initFree data iCellFirst usable pc nf =
     (if pc = 0 then Some nf
      else if pc < iCellFirst \<or> usable - 4 < pc then None
      else
        let next = get2byte data pc; size = get2byte data (pc + 2)
        in if 0 < next \<and> next \<le> pc + size + 3 \<or> usable < pc + size then None
           else if next = 0 then Some (nf + size)
           else initFree data iCellFirst usable next (nf + size))"
  by pat_completeness auto
termination by (relation "measure (\<lambda>(data, iCellFirst, usable, pc, nf). usable - pc)") auto

declare initFree.simps [simp del]

definition initCells :: "bt_shared \<Rightarrow> mem_page \<Rightarrow> bool" where
  "initCells bt pg =
     (let iCellFirst = cellOffset pg + 2 * nCell pg;
        iCellLast = usableSize bt - 4 - (if leaf pg = 0 then 1 else 0)
      in \<forall>i < nCell pg.
           let pc = get2byte (aData pg) (cellOffset pg + i * 2)
           in iCellFirst \<le> pc \<and> pc \<le> iCellLast \<and> pc + cellSizePtr bt pg (\<lambda>k. aData pg (pc + k)) \<le> usableSize bt)"

definition MX_CELL :: "bt_shared \<Rightarrow> nat" where
  "MX_CELL bt = (pageSize bt - 8) div 6"

definition btreeInitPage :: "bt_shared \<Rightarrow> mem_page \<Rightarrow> int \<times> mem_page" where
  "btreeInitPage bt pg =
     (if isInit pg then (SQLITE_OK, pg)
      else case decodeFlags bt pg (unat (aData pg (hdrOffset pg))) of (rc, pg) \<Rightarrow>
        if rc \<noteq> SQLITE_OK then (SQLITE_CORRUPT, pg)
        else
          let hdr = hdrOffset pg; data = aData pg;
            pg = pg\<lparr>maskPage := u16of (pageSize bt - 1), apOvfl := [], cellOffset := hdr + 8 + childPtrSize pg,
              nCell := get2byte data (hdr + 3)\<rparr>;
            ctop = get2byteNotZero data (hdr + 5);
            iCellFirst = cellOffset pg + 2 * nCell pg
          in if MX_CELL bt < nCell pg then (SQLITE_CORRUPT, pg)
             else if cellSizeCheck bt \<and> \<not> initCells bt pg then (SQLITE_CORRUPT, pg)
             else case initFree data iCellFirst (usableSize bt) (get2byte data (hdr + 1)) (unat (data (hdr + 7)) + ctop) of
               None \<Rightarrow> (SQLITE_CORRUPT, pg)
             | Some n \<Rightarrow>
                 if usableSize bt < n then (SQLITE_CORRUPT, pg)
                 else (SQLITE_OK, pg\<lparr>nFree := nat ((int n - int iCellFirst) mod 0x10000), isInit := True\<rparr>))"

definition zeroPage :: "bt_shared \<Rightarrow> mem_page \<Rightarrow> nat \<Rightarrow> mem_page" where
  "zeroPage bt pg flags =
     (let hdr = hdrOffset pg; data = aData pg;
        data = (if secureDelete bt then zero_bytes data hdr (usableSize bt - hdr) else data);
        data = data(hdr := of_nat flags);
        first = u16of (hdr + (if flags AND PTF_LEAF = 0 then 12 else 8));
        data = zero_bytes data (hdr + 1) 4;
        data = data(hdr + 7 := 0);
        data = put2byte data (hdr + 5) (usableSize bt);
        pg = pg\<lparr>aData := data, nFree := u16of (usableSize bt - first)\<rparr>;
        pg = snd (decodeFlags bt pg flags)
      in pg\<lparr>cellOffset := first, apOvfl := [], maskPage := u16of (pageSize bt - 1), nCell := 0, isInit := True\<rparr>)"

text \<open>Dropping and inserting a cell; the first argument of \<^verbatim>\<open>insertCell\<close> is the result of \<^verbatim>\<open>sqlite3PagerWrite\<close>.\<close>

definition dropCell :: "bt_shared \<Rightarrow> mem_page \<Rightarrow> nat \<Rightarrow> nat \<Rightarrow> int \<Rightarrow> int \<times> mem_page" where
  "dropCell bt pPage idx sz rc =
     (if rc \<noteq> SQLITE_OK then (rc, pPage)
      else
        let data = aData pPage; ptr = cellOffset pPage + 2 * idx; pc = get2byte data ptr; hdr = hdrOffset pPage
        in if pc < get2byte data (hdr + 5) \<or> usableSize bt < pc + sz then (SQLITE_CORRUPT, pPage)
           else case freeSpace bt pPage (u16of pc) (u16of sz) of (rc, pPage) \<Rightarrow>
             if rc \<noteq> SQLITE_OK then (rc, pPage)
             else
               let n = nCell pPage - 1; data = aData pPage
               in if n = 0
                  then (SQLITE_OK, pPage\<lparr>nCell := 0,
                    aData := put2byte ((zero_bytes data (hdr + 1) 4)(hdr + 7 := 0)) (hdr + 5) (usableSize bt),
                    nFree := u16of (usableSize bt - hdr - childPtrSize pPage - 8)\<rparr>)
                  else (SQLITE_OK, pPage\<lparr>nCell := n,
                    aData := put2byte (copy_bytes data ptr data (ptr + 2) (2 * (n - idx))) (hdr + 3) n,
                    nFree := u16of (nFree pPage + 2)\<rparr>))"

definition insertCell ::
  "bt_shared \<Rightarrow> int \<Rightarrow> memory \<Rightarrow> mem_page \<Rightarrow> nat \<Rightarrow> u8 list \<Rightarrow> u32 \<Rightarrow> int \<Rightarrow> (int \<times> mem_page) exec" where
  "insertCell bt wrc junk pPage i pCell iChild rc =
     (let sz = length pCell
      in if rc \<noteq> SQLITE_OK then Done (rc, pPage)
         else if apOvfl pPage \<noteq> [] \<or> nFree pPage < sz + 2
         then
           let pCell = (if iChild \<noteq> 0 then sqlite3Put4byte iChild @ drop 4 pCell else pCell)
           in Done (SQLITE_OK, pPage\<lparr>apOvfl := apOvfl pPage @ [(u16of i, pCell)]\<rparr>)
         else if wrc \<noteq> SQLITE_OK then Done (wrc, pPage)
         else
           let end = cellOffset pPage + 2 * nCell pPage; ins = cellOffset pPage + 2 * i
           in exec_bind (allocateSpace bt junk pPage sz) (\<lambda>(rc, idx, pPage).
                if rc \<noteq> SQLITE_OK then Done (rc, pPage)
                else
                  let n = u16of (nCell pPage + 1);
                    data = put_bytes (aData pPage) idx pCell;
                    data = (if iChild \<noteq> 0 then put_bytes data idx (sqlite3Put4byte iChild) else data);
                    data = copy_bytes data (ins + 2) data ins (end - ins);
                    data = put2byte data ins idx;
                    data = put2byte data (hdrOffset pPage + 3) n
                  in Done (SQLITE_OK, pPage\<lparr>nCell := n, nFree := nat ((int (nFree pPage) - int (u16of (2 + sz))) mod 0x10000),
                       aData := data\<rparr>)))"

end
