(* ===== verification/BtRefine.thy ===== *)
theory BtRefine
  imports BtPage
begin

text \<open>
  The space of a page is a list of cells: the invariant of a page, and that the operations of
  \<^theory_text>\<open>BtPage\<close> keep it.
\<close>

unbundle bit_operations_syntax

subsection \<open>Memory\<close>

lemma unat_byte: "unat (of_nat n :: u8) = n mod 256"
  by (simp add: unsigned_of_nat take_bit_eq_mod)

lemma unat_u8: "unat (b :: u8) < 256"
  using unsigned_less [of b] by simp

lemma get2byte_bound: "get2byte d i < 65536"
  using unat_u8 [of "d i"] unat_u8 [of "d (i + 1)"] by (simp add: get2byte_def)

lemma get2byte_cong: "d' i = d i \<Longrightarrow> d' (i + 1) = d (i + 1) \<Longrightarrow> get2byte d' i = get2byte d i"
  by (simp add: get2byte_def)

lemma get2byte_put2byte: "get2byte (put2byte d i v) i = v mod 65536"
proof -
  have "(v div 256) mod 256 * 256 + v mod 256 = v mod 65536"
    using mod_mult2_eq [of v 256 256] by simp
  then show ?thesis by (simp add: get2byte_def put2byte_def unat_byte)
qed

lemma put2byte_other: "k \<noteq> i \<Longrightarrow> k \<noteq> i + 1 \<Longrightarrow> put2byte d i v k = d k"
  by (simp add: put2byte_def)

lemma get2byte_put2byte_other: "j + 1 < i \<or> i + 1 < j \<Longrightarrow> get2byte (put2byte d i v) j = get2byte d j"
  by (auto simp: get2byte_def put2byte_def)

lemma get2byteNotZero_eq: "get2byteNotZero d i = (if get2byte d i = 0 then 65536 else get2byte d i)"
proof (cases "get2byte d i = 0")
  case False
  then have "(int (get2byte d i) - 1) mod 65536 = int (get2byte d i) - 1"
    using get2byte_bound [of d i] by (intro mod_pos_pos_trivial) auto
  then show ?thesis using False by (simp add: get2byteNotZero_def)
qed (simp add: get2byteNotZero_def)

lemma get2byteNotZero_put: "0 < v \<Longrightarrow> v \<le> 65536 \<Longrightarrow> get2byteNotZero (put2byte d i v) i = v"
  by (cases "v = 65536") (auto simp: get2byteNotZero_eq get2byte_put2byte)

lemma get2byte_zero: "get2byte d i = 0 \<longleftrightarrow> d i = 0 \<and> d (i + 1) = 0"
  by (auto simp: get2byte_def unat_eq_0)

lemma get2byte_copy: "a \<le> i \<Longrightarrow> i + 1 < a + n \<Longrightarrow> get2byte (copy_bytes d a s b n) i = get2byte s (b + (i - a))"
  by (simp add: get2byte_def copy_bytes_def Suc_diff_le)

lemma copy_bytes_other: "k < a \<or> a + n \<le> k \<Longrightarrow> copy_bytes d a s b n k = d k"
  by (auto simp: copy_bytes_def)

lemma put_bytes_other: "k < a \<or> a + length bs \<le> k \<Longrightarrow> put_bytes d a bs k = d k"
  by (auto simp: put_bytes_def)

lemma zero_bytes_other: "k < a \<or> a + n \<le> k \<Longrightarrow> zero_bytes d a n k = d k"
  by (auto simp: zero_bytes_def)

lemma holds_put_bytes: "holds (\<lambda>k. put_bytes d a bs (a + k)) bs"
  by (simp add: holds_def put_bytes_def)

lemma holds_cong: "(\<And>k. k < length c \<Longrightarrow> p' k = p k) \<Longrightarrow> holds p c \<Longrightarrow> holds p' c"
  by (simp add: holds_def)

subsection \<open>Blocks of bytes\<close>

definition apart :: "nat \<times> nat \<Rightarrow> nat \<times> nat \<Rightarrow> bool" where
  "apart x y \<longleftrightarrow> fst x + snd x \<le> fst y \<or> fst y + snd y \<le> fst x"

lemma apart_sym: "apart x y = apart y x"
  by (auto simp: apart_def)

definition packed :: "nat \<Rightarrow> nat \<Rightarrow> (nat \<times> nat) list \<Rightarrow> bool" where
  "packed lo hi bs \<longleftrightarrow> sorted_wrt apart bs \<and> (\<forall>(a, n) \<in> set bs. 4 \<le> n \<and> lo \<le> a \<and> a + n \<le> hi)"

lemma packed_Nil [simp]: "packed lo hi []"
  by (simp add: packed_def)

lemma packed_Cons:
  "packed lo hi ((a, n) # bs) \<longleftrightarrow> 4 \<le> n \<and> lo \<le> a \<and> a + n \<le> hi \<and> (\<forall>b \<in> set bs. apart (a, n) b) \<and> packed lo hi bs"
  by (auto simp: packed_def)

lemma packed_append:
  "packed lo hi (xs @ ys) \<longleftrightarrow> packed lo hi xs \<and> packed lo hi ys \<and> (\<forall>x \<in> set xs. \<forall>y \<in> set ys. apart x y)"
  by (auto simp: packed_def sorted_wrt_append)

lemma packed_move: "packed lo hi (xs @ b # ys) \<longleftrightarrow> packed lo hi (b # xs @ ys)"
  by (cases b) (auto simp: packed_append packed_Cons apart_sym)

lemma packed_in: "packed lo hi bs \<Longrightarrow> (a, n) \<in> set bs \<Longrightarrow> 4 \<le> n \<and> lo \<le> a \<and> a + n \<le> hi"
  by (auto simp: packed_def)

lemma packed_mono: "packed lo hi bs \<Longrightarrow> (\<forall>(a, n) \<in> set bs. lo' \<le> a \<and> a + n \<le> hi') \<Longrightarrow> packed lo' hi' bs"
  by (auto simp: packed_def)

text \<open>Blocks that do not overlap take no more room than there is.\<close>

definition block :: "nat \<times> nat \<Rightarrow> nat set" where
  "block b = {fst b..<fst b + snd b}"

lemma card_blocks:
  "sorted_wrt apart bs \<Longrightarrow> card (\<Union> (block ` set bs)) = sum_list (map snd bs)"
proof (induction bs)
  case (Cons b bs)
  have "block b \<inter> \<Union> (block ` set bs) = {}"
    using Cons.prems by (fastforce simp: block_def apart_def)
  moreover have "finite (\<Union> (block ` set bs))" by (simp add: block_def)
  ultimately show ?case using Cons by (simp add: card_Un_disjoint block_def)
qed simp

lemma packed_sum: "packed lo hi bs \<Longrightarrow> sum_list (map snd bs) \<le> hi - lo"
proof -
  assume p: "packed lo hi bs"
  have "\<Union> (block ` set bs) \<subseteq> {lo..<hi}" using p by (fastforce simp: packed_def block_def)
  then have "card (\<Union> (block ` set bs)) \<le> card {lo..<hi}" by (intro card_mono) auto
  then show ?thesis using p card_blocks by (simp add: packed_def)
qed

text \<open>A gap of at most three bytes between two blocks holds no block, so all three can be joined.\<close>

lemma packed_join:
  assumes "packed lo hi ((a, n) # (b, m) # bs)" "a + n \<le> b" "b \<le> a + n + 3"
  shows "packed lo hi ((a, b + m - a) # bs)"
proof -
  have "apart (a, b + m - a) x" if x: "x \<in> set bs" for x
  proof -
    have "4 \<le> snd x" using packed_in [of lo hi bs "fst x" "snd x"] assms(1) x by (simp add: packed_Cons)
    moreover have "apart (a, n) x" "apart (b, m) x" "4 \<le> n" "4 \<le> m" using assms(1) x by (auto simp: packed_Cons)
    ultimately show ?thesis using assms(2,3) by (auto simp: apart_def)
  qed
  then show ?thesis using assms by (auto simp: packed_Cons)
qed

subsection \<open>The chain of free blocks\<close>

text \<open>Ascending, with at least four bytes between a block and the next.\<close>

fun asc :: "nat \<Rightarrow> (nat \<times> nat) list \<Rightarrow> bool" where
  "asc lo [] = True"
| "asc lo ((a, n) # bs) = (lo \<le> a \<and> 4 \<le> n \<and> asc (a + n + 4) bs)"

definition next_of :: "(nat \<times> nat) list \<Rightarrow> nat \<Rightarrow> nat" where
  "next_of bs t = (case bs of [] \<Rightarrow> t | (a, n) # _ \<Rightarrow> a)"

lemma next_of_simps [simp]: "next_of [] t = t" "next_of ((a, n) # bs) t = a"
  by (simp_all add: next_of_def)

fun fbody :: "memory \<Rightarrow> nat \<Rightarrow> (nat \<times> nat) list \<Rightarrow> bool" where
  "fbody d t [] = True"
| "fbody d t ((a, n) # bs) = (0 < a \<and> get2byte d (a + 2) = n \<and> get2byte d a = next_of bs t \<and> fbody d t bs)"

definition chain :: "memory \<Rightarrow> nat \<Rightarrow> (nat \<times> nat) list \<Rightarrow> bool" where
  "chain d a bs \<longleftrightarrow> get2byte d a = next_of bs 0 \<and> fbody d 0 bs"

definition last_of :: "nat \<Rightarrow> (nat \<times> nat) list \<Rightarrow> nat" where
  "last_of a bs = (if bs = [] then a else fst (last bs))"

lemma next_of_append: "next_of (xs @ ys) t = next_of xs (next_of ys t)"
  by (cases xs) auto

lemma fbody_append: "fbody d t (xs @ ys) \<longleftrightarrow> fbody d (next_of ys t) xs \<and> fbody d t ys"
  by (induction xs) (auto simp: next_of_append)

lemma fbody_cong:
  "(\<And>a n k. (a, n) \<in> set bs \<Longrightarrow> k < 4 \<Longrightarrow> d' (a + k) = d (a + k)) \<Longrightarrow> fbody d' t bs = fbody d t bs"
proof (induction bs)
  case (Cons b bs)
  obtain a n where b: "b = (a, n)" by (cases b)
  have "d' (a + 0) = d (a + 0)" "d' (a + 1) = d (a + 1)" "d' (a + 2) = d (a + 2)" "d' (a + 3) = d (a + 3)"
    by (rule Cons.prems [of a n]; simp add: b)+
  then have "get2byte d' a = get2byte d a" "get2byte d' (a + 2) = get2byte d (a + 2)"
    by (simp_all add: get2byte_def eval_nat_numeral)
  moreover have "fbody d' t bs = fbody d t bs" by (rule Cons.IH) (rule Cons.prems, auto)
  ultimately show ?case by (simp add: b)
qed simp

text \<open>Linking the last block of a part of the chain to another one.\<close>

lemma fbody_relink:
  assumes "fbody d t (xs @ [(a, n)])" "\<And>b m k. (b, m) \<in> set xs \<Longrightarrow> k < 4 \<Longrightarrow> d' (b + k) = d (b + k)"
    "d' (a + 2) = d (a + 2)" "d' (a + 3) = d (a + 3)" "get2byte d' a = s"
  shows "fbody d' s (xs @ [(a, n)])"
proof -
  have "fbody d' a xs = fbody d a xs" using assms(2) by (rule fbody_cong)
  moreover have "get2byte d' (a + 2) = get2byte d (a + 2)" using assms(3,4) by (simp add: get2byte_def eval_nat_numeral)
  ultimately show ?thesis using assms(1,5) by (simp add: fbody_append)
qed

subsection \<open>The invariant\<close>

text \<open>A cell that \<^verbatim>\<open>cellSizePtr\<close> measures by its own bytes.\<close>

definition good :: "bt_shared \<Rightarrow> mem_page \<Rightarrow> u8 list \<Rightarrow> bool" where
  "good bt pg c \<longleftrightarrow> 4 \<le> length c \<and> childPtrSize pg < length c \<and> (\<forall>p. holds p c \<longrightarrow> cellSizePtr bt pg p = length c)"

abbreviation total :: "(nat \<times> nat) list \<Rightarrow> nat" where
  "total bs \<equiv> sum_list (map snd bs)"

definition ivls :: "(nat \<times> u8 list) list \<Rightarrow> (nat \<times> nat) list" where
  "ivls cs = map (\<lambda>(a, c). (a, length c)) cs"

definition cells_at :: "memory \<Rightarrow> (nat \<times> u8 list) list \<Rightarrow> bool" where
  "cells_at d cs \<longleftrightarrow> (\<forall>(a, c) \<in> set cs. holds (\<lambda>k. d (a + k)) c)"

definition ptrs_at :: "memory \<Rightarrow> nat \<Rightarrow> (nat \<times> u8 list) list \<Rightarrow> bool" where
  "ptrs_at d off cs \<longleftrightarrow> (\<forall>i < length cs. get2byte d (off + 2 * i) = fst (cs ! i))"

abbreviation content :: "mem_page \<Rightarrow> nat" where
  "content pg \<equiv> get2byteNotZero (aData pg) (hdrOffset pg + 5)"

abbreviation gap :: "mem_page \<Rightarrow> nat" where
  "gap pg \<equiv> cellOffset pg + 2 * nCell pg"

text \<open>The geometry of a page: \<^verbatim>\<open>xs\<close> is space taken but not yet filled with a cell.\<close>

definition shape :: "bt_shared \<Rightarrow> mem_page \<Rightarrow> bool" where
  "shape bt pg \<longleftrightarrow> 480 \<le> usableSize bt \<and> usableSize bt \<le> 65536 \<and> hdrOffset pg \<le> 100 \<and> childPtrSize pg \<le> 4 \<and>
     cellOffset pg = hdrOffset pg + 8 + childPtrSize pg"

definition page_space ::
  "bt_shared \<Rightarrow> mem_page \<Rightarrow> (nat \<times> u8 list) list \<Rightarrow> (nat \<times> nat) list \<Rightarrow> (nat \<times> nat) list \<Rightarrow> bool" where
  "page_space bt pg cs xs fb \<longleftrightarrow>
     shape bt pg \<and> nCell pg = length cs \<and>
     ptrs_at (aData pg) (cellOffset pg) cs \<and> cells_at (aData pg) cs \<and> (\<forall>(a, c) \<in> set cs. good bt pg c) \<and>
     chain (aData pg) (hdrOffset pg + 1) fb \<and> asc (content pg + 1) fb \<and>
     packed (content pg) (usableSize bt) (ivls cs @ xs @ fb) \<and>
     unat (aData pg (hdrOffset pg + 7)) + total (ivls cs) + total xs + total fb = usableSize bt - content pg \<and>
     gap pg \<le> content pg \<and> content pg \<le> usableSize bt \<and>
     nFree pg + gap pg + total (ivls cs) = usableSize bt"

definition page_inv :: "bt_shared \<Rightarrow> mem_page \<Rightarrow> (nat \<times> u8 list) list \<Rightarrow> (nat \<times> nat) list \<Rightarrow> bool" where
  "page_inv bt pg cs fb \<longleftrightarrow>
     page_space bt pg cs [] fb \<and> apOvfl pg = [] \<and> get2byte (aData pg) (hdrOffset pg + 3) = nCell pg"

lemma ivls_simps [simp]: "ivls [] = []" "ivls ((a, c) # cs) = (a, length c) # ivls cs" "ivls (cs @ cs') = ivls cs @ ivls cs'"
  by (simp_all add: ivls_def)

lemma cells_at_frame:
  "cells_at d cs \<Longrightarrow> (\<And>a n k. (a, n) \<in> set (ivls cs) \<Longrightarrow> a \<le> k \<Longrightarrow> k < a + n \<Longrightarrow> d' k = d k) \<Longrightarrow> cells_at d' cs"
  by (fastforce simp: cells_at_def ivls_def holds_def)

lemma ptrs_at_frame:
  "ptrs_at d off cs \<Longrightarrow> (\<And>k. off \<le> k \<Longrightarrow> k < off + 2 * length cs \<Longrightarrow> d' k = d k) \<Longrightarrow> ptrs_at d' off cs"
  by (auto simp: ptrs_at_def get2byte_def)

lemma localPayload_update [simp]:
  "localPayload bt (pg\<lparr>aData := x\<rparr>) = localPayload bt pg" "localPayload bt (pg\<lparr>nFree := n\<rparr>) = localPayload bt pg"
  "localPayload bt (pg\<lparr>nCell := n\<rparr>) = localPayload bt pg"
  by (simp_all add: fun_eq_iff localPayload_def Let_def)

lemma cellSizePtr_update [simp]:
  "cellSizePtr bt (pg\<lparr>aData := x\<rparr>) = cellSizePtr bt pg" "cellSizePtr bt (pg\<lparr>nFree := n\<rparr>) = cellSizePtr bt pg"
  "cellSizePtr bt (pg\<lparr>nCell := n\<rparr>) = cellSizePtr bt pg"
  by (simp_all add: fun_eq_iff cellSizePtr_def Let_def case_prod_beta)

lemma good_update [simp]:
  "good bt (pg\<lparr>aData := x\<rparr>) = good bt pg" "good bt (pg\<lparr>nFree := n\<rparr>) = good bt pg" "good bt (pg\<lparr>nCell := n\<rparr>) = good bt pg"
  by (simp_all add: fun_eq_iff good_def)

lemma shape_update [simp]:
  "shape bt (pg\<lparr>aData := x\<rparr>) = shape bt pg" "shape bt (pg\<lparr>nFree := n\<rparr>) = shape bt pg" "shape bt (pg\<lparr>nCell := n\<rparr>) = shape bt pg"
  by (simp_all add: shape_def)

subsection \<open>Searching a slot\<close>

lemma of_nat_unat_byte: "(of_nat (unat (b :: u8) * 256 + unat (c :: u8)) :: u8) = c"
  using unat_u8 [of c] by (simp only: word_unat_eq_iff unat_byte) simp

lemma of_nat_unat_high: "(of_nat ((unat (b :: u8) * 256 + unat (c :: u8)) div 256) :: u8) = b"
  using unat_u8 [of b] unat_u8 [of c] by (simp only: word_unat_eq_iff unat_byte) simp

lemma copy_is_put: "a \<noteq> p + 1 \<Longrightarrow> copy_bytes d a d p 2 = put2byte d a (get2byte d p)"
proof
  fix k
  consider "k = a" | "k = a + 1" | "k < a \<or> a + 1 < k" by linarith
  then show "copy_bytes d a d p 2 k = put2byte d a (get2byte d p) k"
    using of_nat_unat_high [of "d p" "d (p + 1)"] of_nat_unat_byte [of "d p" "d (p + 1)"]
    by cases (simp_all add: copy_bytes_def put2byte_def get2byte_def)
qed

lemma findSlotLoop_chain:
  assumes "d = aData pg" "get2byte d a = next_of fb 0" "fbody d 0 fb" "asc (a + 4) fb"
    "\<forall>(p, n) \<in> set fb. gap pg \<le> p \<and> p + n \<le> usableSize bt \<and> 4 \<le> n"
  shows "(findSlotLoop bt pg nByte a = (SQLITE_OK, False, None, d) \<and> (\<forall>(p, n) \<in> set fb. n < nByte)) \<or>
    (\<exists>L p n R. fb = L @ (p, n) # R \<and> nByte \<le> n \<and> findSlotLoop bt pg nByte a =
       (if n - nByte < 4
        then if 60 \<le> unat (d (hdrOffset pg + 7)) then (SQLITE_OK, True, None, d)
             else (SQLITE_OK, False, Some (p + (n - nByte)),
               let d' = copy_bytes d (last_of a L) d p 2
               in d'(hdrOffset pg + 7 := d' (hdrOffset pg + 7) + of_nat (n - nByte)))
        else (SQLITE_OK, False, Some (p + (n - nByte)), put2byte d (p + 2) (n - nByte))))"
  using assms
proof (induction fb arbitrary: a)
  case Nil
  then show ?case by (subst findSlotLoop.simps) (simp add: Let_def)
next
  case (Cons b fb)
  obtain p n where b: "b = (p, n)" by (cases b)
  have pc: "get2byte d a = p" "0 < p" "get2byte d (p + 2) = n" "a + 4 \<le> p" "p + n \<le> usableSize bt" "4 \<le> n" "gap pg \<le> p"
    using Cons.prems by (auto simp: b)
  have ok: "\<not> (usableSize bt - 4 < p \<or> p < a + 4)" "\<not> (p < gap pg \<or> usableSize bt < n + p)" using pc by auto
  show ?case
  proof (cases "nByte \<le> n")
    case True
    then show ?thesis using pc ok Cons.prems(1)
      by (intro disjI2 exI [of _ "[]"] exI [of _ p] exI [of _ n] exI [of _ fb], subst findSlotLoop.simps)
        (simp add: Let_def b last_of_def)
  next
    case False
    have step: "findSlotLoop bt pg nByte a = findSlotLoop bt pg nByte p"
      using False pc ok Cons.prems(1) by (subst findSlotLoop.simps) (simp add: Let_def)
    have "asc (p + 4) fb" using Cons.prems(4) by (cases fb) (auto simp: b)
    with Cons.IH [of p] Cons.prems consider
        "findSlotLoop bt pg nByte p = (SQLITE_OK, False, None, d)" "\<forall>(p, n) \<in> set fb. n < nByte"
      | L p' n' R where "fb = L @ (p', n') # R" "nByte \<le> n'" "findSlotLoop bt pg nByte p =
       (if n' - nByte < 4
        then if 60 \<le> unat (d (hdrOffset pg + 7)) then (SQLITE_OK, True, None, d)
             else (SQLITE_OK, False, Some (p' + (n' - nByte)),
               let d' = copy_bytes d (last_of p L) d p' 2
               in d'(hdrOffset pg + 7 := d' (hdrOffset pg + 7) + of_nat (n' - nByte)))
        else (SQLITE_OK, False, Some (p' + (n' - nByte)), put2byte d (p' + 2) (n' - nByte)))"
      by (auto simp: b)
    then show ?thesis
    proof cases
      case 1
      then show ?thesis using False by (auto simp: step b)
    next
      case 2
      have "last_of a (b # L) = last_of p L" by (simp add: last_of_def b)
      then show ?thesis using 2
        by (intro disjI2 exI [of _ "b # L"] exI [of _ p'] exI [of _ n'] exI [of _ R]) (simp add: step)
    qed
  qed
qed

subsection \<open>Taking a slot\<close>

lemma asc_mono: "asc lo bs \<Longrightarrow> lo' \<le> lo \<Longrightarrow> asc lo' bs"
  by (cases bs) auto

lemma asc_shrink: "asc lo (L @ (p, n) # R) \<Longrightarrow> 4 \<le> x \<Longrightarrow> x \<le> n \<Longrightarrow> asc lo (L @ (p, x) # R)"
  by (induction L arbitrary: lo) (auto intro: asc_mono)

lemma asc_remove: "asc lo (L @ (p, n) # R) \<Longrightarrow> asc lo (L @ R)"
  by (induction L arbitrary: lo) (auto intro: asc_mono)

lemma asc_step: "asc lo (B @ (a, m) # (p, n) # R) \<Longrightarrow> a + m + 4 \<le> p"
  by (induction B arbitrary: lo) auto

lemma asc_le: "asc lo (B @ x # R) \<Longrightarrow> lo \<le> fst x"
proof (induction B arbitrary: lo)
  case Nil
  then show ?case by (cases x) simp
next
  case (Cons y B)
  then show ?case by (cases y) fastforce
qed

lemma asc_lt: "asc lo (B @ x # R) \<Longrightarrow> (b, n) \<in> set B \<Longrightarrow> b + n + 4 \<le> fst x"
proof (induction B arbitrary: lo)
  case (Cons y B)
  show ?case
  proof (cases "(b, n) = y")
    case True
    then have "asc (b + n + 4) (B @ x # R)" using Cons.prems by auto
    then show ?thesis using asc_le by blast
  next
    case False
    then show ?thesis using Cons by (cases y) auto
  qed
qed simp

lemma asc_tail: "asc lo (L @ (p, m) # R) \<Longrightarrow> asc (p + m + 4) R"
  by (induction L arbitrary: lo) auto

lemma packed_two: "packed lo hi bs \<Longrightarrow> (a, n) \<in> set bs \<Longrightarrow> (b, m) \<in> set bs \<Longrightarrow> a \<noteq> b \<Longrightarrow> apart (a, n) (b, m)"
proof (induction bs)
  case (Cons x bs)
  then show ?case by (cases x) (auto simp: packed_Cons apart_sym)
qed simp

lemma asc_bounds: "asc lo bs \<Longrightarrow> (a, n) \<in> set bs \<Longrightarrow> lo \<le> a \<and> 4 \<le> n"
proof (induction bs arbitrary: lo)
  case (Cons b bs)
  then show ?case by (cases b) force
qed simp

lemma apart_part: "apart (p, n) b \<Longrightarrow> p \<le> q \<Longrightarrow> q + m \<le> p + n \<Longrightarrow> apart (q, m) b"
  by (auto simp: apart_def)

lemma packed_split:
  assumes "packed lo hi (xs @ L @ (p, n) # R)" "4 \<le> x" "4 \<le> m" "x + m \<le> n"
  shows "packed lo hi (xs @ (p + (n - m), m) # L @ (p, x) # R)"
proof -
  have "packed lo hi ((p, n) # xs @ L @ R)" using assms(1) packed_move [of lo hi "xs @ L" "(p, n)" R] by simp
  moreover from this have "\<forall>b \<in> set (xs @ L @ R). apart (p + (n - m), m) b \<and> apart (p, x) b"
    using assms(4) by (auto simp: packed_Cons intro: apart_part)
  moreover have "apart (p + (n - m), m) (p, x)" using assms(4) unfolding apart_def fst_conv snd_conv by linarith
  ultimately have "packed lo hi ((p + (n - m), m) # (p, x) # xs @ L @ R)"
    using assms(2-4) by (simp add: packed_Cons; linarith)
  then show ?thesis
    by (auto simp: packed_append packed_Cons apart_sym)
qed

lemma packed_take:
  assumes "packed lo hi (xs @ L @ (p, n) # R)" "4 \<le> m" "m \<le> n"
  shows "packed lo hi (xs @ (p + (n - m), m) # L @ R)"
proof -
  have "packed lo hi ((p, n) # xs @ L @ R)" using assms(1) packed_move [of lo hi "xs @ L" "(p, n)" R] by simp
  moreover from this have "\<forall>b \<in> set (xs @ L @ R). apart (p + (n - m), m) b"
    using assms(3) by (auto simp: packed_Cons intro: apart_part)
  ultimately have "packed lo hi ((p + (n - m), m) # xs @ L @ R)"
    using assms(2,3) by (simp add: packed_Cons; linarith)
  then show ?thesis by (simp add: packed_move)
qed

lemma content_frame:
  "(\<And>k. hdrOffset pg + 5 \<le> k \<Longrightarrow> k < hdrOffset pg + 7 \<Longrightarrow> d' k = d k) \<Longrightarrow>
   get2byteNotZero d' (hdrOffset pg + 5) = get2byteNotZero d (hdrOffset pg + 5)"
  by (simp add: get2byteNotZero_def get2byte_def)

text \<open>The bytes of the header that allocation leaves alone: the flags and the number of cells.\<close>

definition same_head :: "mem_page \<Rightarrow> memory \<Rightarrow> bool" where
  "same_head pg d' \<longleftrightarrow> (\<forall>k \<in> {hdrOffset pg, hdrOffset pg + 3, hdrOffset pg + 4}. d' k = aData pg k)"

lemma page_space_data:
  assumes "page_space bt pg cs xs fb"
    "\<And>k. hdrOffset pg + 5 \<le> k \<Longrightarrow> k < hdrOffset pg + 7 \<Longrightarrow> d' k = aData pg k"
    "\<And>k. cellOffset pg \<le> k \<Longrightarrow> k < gap pg \<Longrightarrow> d' k = aData pg k"
    "\<And>a n k. (a, n) \<in> set (ivls cs) \<Longrightarrow> a \<le> k \<Longrightarrow> k < a + n \<Longrightarrow> d' k = aData pg k"
    "chain d' (hdrOffset pg + 1) fb'" "asc (content pg + 1) fb'"
    "packed (content pg) (usableSize bt) (ivls cs @ xs' @ fb')"
    "unat (d' (hdrOffset pg + 7)) + total xs' + total fb' = unat (aData pg (hdrOffset pg + 7)) + total xs + total fb"
  shows "page_space bt (pg\<lparr>aData := d'\<rparr>) cs xs' fb' \<and> content (pg\<lparr>aData := d'\<rparr>) = content pg"
proof -
  have c: "get2byteNotZero d' (hdrOffset pg + 5) = content pg" by (rule content_frame) (rule assms(2))
  have "cells_at d' cs" using assms(1,4) by (auto simp: page_space_def intro: cells_at_frame)
  moreover have "ptrs_at d' (cellOffset pg) cs" using assms(1,3) by (auto simp: page_space_def intro: ptrs_at_frame)
  ultimately show ?thesis
    using assms(1,5-8) c by (auto simp: page_space_def)
qed

text \<open>The bytes of a block of the chain and those of the header are not bytes of a cell.\<close>

lemma cell_not_block:
  assumes "packed lo hi (xs @ fb)" "(a, n) \<in> set xs" "(p, m) \<in> set fb" "a \<le> k" "k < a + n" "p \<le> k"
  shows "p + m \<le> k"
  using assms by (fastforce simp: packed_append apart_def)

lemma pageFindSlot_space:
  assumes s: "page_space bt pg cs [] fb" and n: "4 \<le> nByte" and r: "pageFindSlot bt pg nByte = (rc, bd, ps, d)"
  shows "rc = SQLITE_OK \<and> (ps = None \<and> d = aData pg \<or>
    (\<exists>idx fb'. \<not> bd \<and> ps = Some idx \<and> page_space bt (pg\<lparr>aData := d\<rparr>) cs [(idx, nByte)] fb' \<and>
      content (pg\<lparr>aData := d\<rparr>) = content pg \<and> same_head pg d))"
proof -
  let ?d = "aData pg" and ?h = "hdrOffset pg"
  note ps = s [unfolded page_space_def shape_def]
  have pk: "packed (content pg) (usableSize bt) (ivls cs @ fb)" and asc: "asc (content pg + 1) fb" using ps by simp_all
  have lo: "?h + 8 \<le> cellOffset pg" "cellOffset pg \<le> gap pg" "gap pg \<le> content pg" using ps by auto
  have blk: "gap pg \<le> p" "p + m \<le> usableSize bt" "4 \<le> m" "content pg < p" if "(p, m) \<in> set fb" for p m
    using packed_in [OF pk, of p m] asc_bounds [OF asc that] that lo by auto
  have chain: "get2byte ?d (?h + 1) = next_of fb 0" "fbody ?d 0 fb" using ps by (simp_all add: chain_def)
  have "asc (?h + 1 + 4) fb" by (rule asc_mono [OF asc]) (use lo in simp)
  moreover have "\<forall>(p, n) \<in> set fb. gap pg \<le> p \<and> p + n \<le> usableSize bt \<and> 4 \<le> n" using blk by auto
  ultimately consider
      "pageFindSlot bt pg nByte = (SQLITE_OK, False, None, ?d)"
    | L p m R where "fb = L @ (p, m) # R" "nByte \<le> m" "pageFindSlot bt pg nByte =
       (if m - nByte < 4
        then if 60 \<le> unat (?d (?h + 7)) then (SQLITE_OK, True, None, ?d)
             else (SQLITE_OK, False, Some (p + (m - nByte)),
               let d' = copy_bytes ?d (last_of (?h + 1) L) ?d p 2 in d'(?h + 7 := d' (?h + 7) + of_nat (m - nByte)))
        else (SQLITE_OK, False, Some (p + (m - nByte)), put2byte ?d (p + 2) (m - nByte)))"
    using findSlotLoop_chain [OF refl chain, of bt nByte] unfolding pageFindSlot_def by blast
  then show ?thesis
  proof cases
    case 1
    then show ?thesis using r by simp
  next
    case (2 L p m R)
    note slot = 2
    let ?x = "m - nByte"
    have p: "(p, m) \<in> set fb" using 2(1) by simp
    note bp = blk [OF p]
    have pk': "packed (content pg) (usableSize bt) (ivls cs @ L @ (p, m) # R)" using pk 2(1) by simp
    have ne: "k < p \<or> p + m \<le> k" if "(a, n) \<in> set (ivls cs)" "a \<le> k" "k < a + n" for a n k
      using cell_not_block [OF pk that(1) p that(2,3)] by linarith
    have other: "k < p \<or> p + m \<le> k" if "(a, n) \<in> set L \<union> set R" "a \<le> k" "k < a + n" for a n k
      using pk' that by (fastforce simp: packed_append packed_Cons apart_def)
    have u: "usableSize bt \<le> 65536" "m < 65536" using ps bp by auto
    consider "4 \<le> ?x" | "?x < 4" "60 \<le> unat (?d (?h + 7))" | "?x < 4" "unat (?d (?h + 7)) < 60" by linarith
    then show ?thesis
    proof cases
      case 1
      let ?d' = "put2byte ?d (p + 2) ?x"
      have same: "?d' k = ?d k" if "k < p + 2 \<or> p + m \<le> k" for k using that 1 by (intro put2byte_other) auto
      have hdr: "?d' k = ?d k" if "k < gap pg" for k by (rule same) (use that bp in simp)
      have "get2byte ?d' (p + 2) = ?x" using u by (simp add: get2byte_put2byte)
      moreover have "get2byte ?d' p = get2byte ?d p" by (rule get2byte_cong; rule same) auto
      moreover have fr: "?d' (a + k) = ?d (a + k)" if "(a, n) \<in> set L \<union> set R" "k < 4" for a n k
      proof (rule same)
        have "(a, n) \<in> set fb" using that(1) 2(1) by auto
        then have "4 \<le> n" using blk by blast
        then show "a + k < p + 2 \<or> p + m \<le> a + k" using other [OF that(1), of "a + k"] that(2) by auto
      qed
      have "fbody ?d' t L = fbody ?d t L" "fbody ?d' t R = fbody ?d t R" for t
        using fr by (auto intro!: fbody_cong)
      ultimately have fb': "fbody ?d' 0 (L @ (p, ?x) # R)"
        using chain(2) by (simp add: fbody_append 2(1))
      have "get2byte ?d' (?h + 1) = get2byte ?d (?h + 1)" by (rule get2byte_cong; rule hdr) (use lo in auto)
      then have ch': "chain ?d' (?h + 1) (L @ (p, ?x) # R)"
        using fb' chain(1) by (simp add: chain_def 2(1) next_of_append)
      have "page_space bt (pg\<lparr>aData := ?d'\<rparr>) cs [(p + ?x, nByte)] (L @ (p, ?x) # R) \<and> content (pg\<lparr>aData := ?d'\<rparr>) = content pg"
      proof (rule page_space_data [OF s _ _ _ ch'])
        show "?d' k = ?d k" if "?h + 5 \<le> k" "k < ?h + 7" for k by (rule hdr) (use that lo in simp)
        show "?d' k = ?d k" if "cellOffset pg \<le> k" "k < gap pg" for k by (rule hdr) (use that in simp)
        show "?d' k = ?d k" if "(a, n) \<in> set (ivls cs)" "a \<le> k" "k < a + n" for a n k by (rule same) (use ne [OF that] in auto)
        show "asc (content pg + 1) (L @ (p, ?x) # R)" using asc_shrink asc 1 unfolding 2(1) by simp
        show "packed (content pg) (usableSize bt) (ivls cs @ [(p + ?x, nByte)] @ L @ (p, ?x) # R)"
          using packed_split [OF pk', of ?x nByte] 1 n 2(2) by simp
        show "unat (?d' (?h + 7)) + total [(p + ?x, nByte)] + total (L @ (p, ?x) # R) = unat (?d (?h + 7)) + total [] + total fb"
          using hdr [of "?h + 7"] lo 2(1,2) by simp
      qed
      moreover have "same_head pg ?d'" unfolding same_head_def by (intro ballI hdr) (use lo in auto)
      ultimately show ?thesis using 2(3) r 1 by auto
    next
      case 2
      then show ?thesis using slot(3) r by simp
    next
      case 3
      define la where "la = last_of (?h + 1) L"
      let ?v = "get2byte ?d p"
      let ?d' = "(put2byte ?d la ?v)(?h + 7 := ?d (?h + 7) + of_nat ?x)"
      have v: "?v = next_of R 0" "fbody ?d p L" "fbody ?d 0 R" using chain(2) by (auto simp: 2(1) fbody_append)
      have a: "L = [] \<and> la = ?h + 1 \<or> (\<exists>B m'. L = B @ [(la, m')])" by (cases L rule: rev_cases) (auto simp: last_of_def la_def)
      have a_lt: "la + 4 \<le> p \<and> (la = ?h + 1 \<or> gap pg \<le> la)"
        using a
      proof (elim disjE conjE exE)
        fix B m' assume L: "L = B @ [(la, m')]"
        then have "(la, m') \<in> set fb" using 2(1) by simp
        note b = blk [OF this]
        have "asc (content pg + 1) (B @ (la, m') # (p, m) # R)" using asc L 2(1) by simp
        then have "la + m' + 4 \<le> p" by (rule asc_step)
        then show ?thesis using b by simp
      qed (use lo bp in auto)
      have same: "?d' k = ?d k" if "k \<noteq> la" "k \<noteq> la + 1" "k \<noteq> ?h + 7" for k using that by (simp add: put2byte_other)
      have copy: "(let d' = copy_bytes ?d (last_of (?h + 1) L) ?d p 2 in d'(?h + 7 := d' (?h + 7) + of_nat ?x)) = ?d'"
        unfolding la_def [symmetric] Let_def using a_lt lo by (auto simp: copy_is_put put2byte_other)
      have new: "get2byte ?d' la = ?v"
      proof -
        have "get2byte ?d' la = get2byte (put2byte ?d la ?v) la" by (rule get2byte_cong) (use a_lt lo in auto)
        then show ?thesis using get2byte_bound [of ?d p] by (simp add: get2byte_put2byte)
      qed
      have fr: "?d' (b + k) = ?d (b + k)" if "(b, n) \<in> set fb" "k < 4" "b \<noteq> la" for b n k
      proof (rule same)
        note b = blk [OF that(1)]
        show "b + k \<noteq> ?h + 7" using b lo by simp
        have "b + k < la \<or> la + 1 < b + k"
          using a
        proof (elim disjE conjE exE)
          fix B m' assume "L = B @ [(la, m')]"
          then have a': "(la, m') \<in> set fb" using 2(1) by simp
          have "packed (content pg) (usableSize bt) fb" using pk by (simp add: packed_append)
          from packed_two [OF this that(1) a' that(3)] blk [OF a'] b that(2) show ?thesis by (auto simp: apart_def)
        qed (use b lo in auto)
        then show "b + k \<noteq> la" "b + k \<noteq> la + 1" by auto
      qed
      have LR: "(b, n) \<in> set fb \<and> b \<noteq> la" if "(b, n) \<in> set R" for b n
      proof -
        have "(b, n) \<in> set fb" using that 2(1) by simp
        moreover have "p + m + 4 \<le> b"
          using asc_bounds [OF asc_tail that] asc unfolding 2(1) by blast
        ultimately show ?thesis using a_lt by simp
      qed
      have "fbody ?d' 0 R = fbody ?d 0 R"
      proof (rule fbody_cong)
        show "?d' (b + k) = ?d (b + k)" if "(b, n) \<in> set R" "k < 4" for b n k
          using LR [OF that(1)] fr that(2) by blast
      qed
      then have "fbody ?d' 0 R" using v(3) by simp
      moreover have "fbody ?d' ?v L" using a
      proof (elim disjE conjE exE)
        fix B m' assume L: "L = B @ [(la, m')]"
        have B: "(b, n) \<in> set fb \<and> b \<noteq> la" if "(b, n) \<in> set B" for b n
        proof -
          have "(b, n) \<in> set fb" using that 2(1) L by simp
          moreover have "b + n + 4 \<le> la" using asc that asc_lt [of "content pg + 1" B "(la, m')"] unfolding 2(1) L by simp
          ultimately show ?thesis by simp
        qed
        have "(la, m') \<in> set fb" using 2(1) L by simp
        then have "?h + 8 \<le> la" using blk lo by fastforce
        then have la23: "?d' (la + 2) = ?d (la + 2)" "?d' (la + 3) = ?d (la + 3)" by (rule_tac same; simp)+
        have "fbody ?d' ?v (B @ [(la, m')])"
        proof (rule fbody_relink [where d = ?d and t = p])
          show "fbody ?d p (B @ [(la, m')])" using v(2) L by simp
          show "?d' (b + k) = ?d (b + k)" if "(b, n) \<in> set B" "k < 4" for b n k using B [OF that(1)] fr that(2) by blast
        qed (rule la23 new)+
        then show ?thesis by (simp add: L)
      qed (use v in simp)
      ultimately have fb': "fbody ?d' 0 (L @ R)" using v(1) by (simp add: fbody_append)
      have ch': "chain ?d' (?h + 1) (L @ R)"
      proof -
        have "get2byte ?d' (?h + 1) = next_of (L @ R) 0" using a
        proof (elim disjE conjE exE)
          assume "L = []" "la = ?h + 1"
          then show ?thesis using new v(1) by simp
        next
          fix B m' assume L: "L = B @ [(la, m')]"
          then have "(la, m') \<in> set fb" using 2(1) by simp
          then have "?h + 8 \<le> la" using blk lo by fastforce
          then have "get2byte ?d' (?h + 1) = get2byte ?d (?h + 1)" by (intro get2byte_cong same) auto
          then show ?thesis using chain(1) by (simp add: 2(1) L next_of_append)
        qed
        then show ?thesis using fb' by (simp add: chain_def)
      qed
      have hdr: "?d' k = ?d k" if "k < gap pg" "?h + 3 \<le> k \<or> k = ?h" "k \<noteq> ?h + 7" for k
        by (rule same) (use that a_lt in auto)
      have ne': "k \<noteq> la \<and> k \<noteq> la + 1" if "(b, n) \<in> set (ivls cs)" "b \<le> k" "k < b + n" for b n k
        using a
      proof (elim disjE conjE exE)
        fix B m' assume L: "L = B @ [(la, m')]"
        then have "(la, m') \<in> set fb" using 2(1) by simp
        then show ?thesis using cell_not_block [OF pk that(1) _ that(2,3)] blk by fastforce
      next
        assume "la = ?h + 1"
        then show ?thesis using packed_in [of "content pg" "usableSize bt" "ivls cs" b n] pk that lo by (auto simp: packed_append)
      qed
      have "page_space bt (pg\<lparr>aData := ?d'\<rparr>) cs [(p + ?x, nByte)] (L @ R) \<and> content (pg\<lparr>aData := ?d'\<rparr>) = content pg"
      proof (rule page_space_data [OF s _ _ _ ch'])
        show "?d' k = ?d k" if "?h + 5 \<le> k" "k < ?h + 7" for k by (rule hdr) (use that lo in auto)
        show "?d' k = ?d k" if "cellOffset pg \<le> k" "k < gap pg" for k by (rule hdr) (use that lo in auto)
        show "?d' k = ?d k" if "(b, n) \<in> set (ivls cs)" "b \<le> k" "k < b + n" for b n k
          using ne' [OF that] packed_in [of "content pg" "usableSize bt" "ivls cs" b n] pk that lo
          by (intro same) (auto simp: packed_append)
        show "asc (content pg + 1) (L @ R)" using asc_remove asc unfolding 2(1) by simp
        show "packed (content pg) (usableSize bt) (ivls cs @ [(p + ?x, nByte)] @ L @ R)"
          using packed_take [OF pk' n 2(2)] by simp
        have "unat (?d (?h + 7) + of_nat ?x) = unat (?d (?h + 7)) + ?x"
          using 3 by (simp add: unat_word_ariths unat_byte)
        then show "unat (?d' (?h + 7)) + total [(p + ?x, nByte)] + total (L @ R) = unat (?d (?h + 7)) + total [] + total fb"
          using 2(1,2) by simp
      qed
      moreover have "same_head pg ?d'" unfolding same_head_def by (intro ballI hdr) (use lo in auto)
      ultimately show ?thesis using slot(3) r 3 copy by auto
    qed
  qed
qed

subsection \<open>Defragmenting\<close>

lemma cells_at_Cons: "cells_at d ((a, c) # cs) \<longleftrightarrow> holds (\<lambda>k. d (a + k)) c \<and> cells_at d cs"
  by (simp add: cells_at_def)

lemma ptrs_at_Cons: "ptrs_at d off ((a, c) # cs) \<longleftrightarrow> get2byte d off = a \<and> ptrs_at d (off + 2) cs"
proof -
  have "ptrs_at d off ((a, c) # cs) \<longleftrightarrow> (\<forall>i < Suc (length cs). get2byte d (off + 2 * i) = fst (((a, c) # cs) ! i))"
    by (simp add: ptrs_at_def)
  also have "\<dots> \<longleftrightarrow> get2byte d off = a \<and> (\<forall>i < length cs. get2byte d (off + 2 + 2 * i) = fst (cs ! i))"
    by (subst All_less_Suc2) (simp add: algebra_simps)
  finally show ?thesis by (simp add: ptrs_at_def)
qed

lemma holds_copy: "holds (\<lambda>k. s (b + k)) c \<Longrightarrow> holds (\<lambda>k. copy_bytes d a s b (length c) (a + k)) c"
  by (simp add: holds_def copy_bytes_def)

text \<open>One move: the rest of the cells stays readable, and nothing but the new place changes.\<close>

lemma defragMove_cell:
  fixes temp :: "memory option"
  defines "src \<equiv> \<lambda>temp data. case temp of None \<Rightarrow> data | Some t \<Rightarrow> t"
  assumes "cells_at (src temp data) ((a, c) # rest)" "packed F cbrk (ivls ((a, c) # rest)) \<or> temp \<noteq> None"
    "temp = None \<longrightarrow> get2byte data (hdr + 5) = F" "length c \<le> cbrk"
  obtains temp' data' where "defragMove hdr junk a (length c) (cbrk - length c) temp data = Done (temp', data')"
    "cells_at (src temp' data') rest" "packed F (cbrk - length c) (ivls rest) \<or> temp' \<noteq> None"
    "holds (\<lambda>k. data' (cbrk - length c + k)) c"
    "\<And>k. k < cbrk - length c \<or> cbrk \<le> k \<Longrightarrow> data' k = data k"
proof (cases temp)
  case (Some t)
  let ?d = "copy_bytes data (cbrk - length c) t a (length c)"
  have "holds (\<lambda>k. t (a + k)) c" using assms(2) Some by (simp add: src_def cells_at_Cons)
  then have "holds (\<lambda>k. ?d (cbrk - length c + k)) c" by (rule holds_copy)
  moreover have "?d k = data k" if "k < cbrk - length c \<or> cbrk \<le> k" for k
    using that assms(5) by (intro copy_bytes_other) auto
  ultimately show thesis using that [of temp ?d] assms(2) Some by (simp add: defragMove_def src_def cells_at_Cons)
next
  case None
  have c: "holds (\<lambda>k. data (a + k)) c" "cells_at data rest" and p: "packed F cbrk ((a, length c) # ivls rest)"
    using assms(2,3) None by (simp_all add: src_def cells_at_Cons)
  show thesis
  proof (cases "cbrk - length c = a")
    case True
    have "packed F (cbrk - length c) (ivls rest)"
      using p True by (fastforce simp: packed_def apart_def)
    then show thesis using that [of None data] c True None by (simp add: defragMove_def src_def)
  next
    case False
    let ?t = "copy_bytes junk F data F (cbrk - F)"
    let ?d = "copy_bytes data (cbrk - length c) ?t a (length c)"
    have fits: "F \<le> b" "b + n \<le> cbrk" if "(b, n) \<in> set ((a, length c) # ivls rest)" for b n
      using packed_in [OF p that] by auto
    have t: "?t k = data k" if "F \<le> k" "k < cbrk" for k using that by (simp add: copy_bytes_def)
    have "holds (\<lambda>k. ?t (a + k)) c" using c(1) fits [of a "length c"] by (intro holds_cong [OF _ c(1)] t) auto
    then have 1: "holds (\<lambda>k. ?d (cbrk - length c + k)) c" by (rule holds_copy)
    have 2: "cells_at ?t rest"
    proof (rule cells_at_frame [OF c(2)])
      show "?t k = data k" if "(b, n) \<in> set (ivls rest)" "b \<le> k" "k < b + n" for b n k
        using fits [of b n] that by (intro t) auto
    qed
    have 3: "?d k = data k" if "k < cbrk - length c \<or> cbrk \<le> k" for k
      using that assms(5) by (intro copy_bytes_other) auto
    have "\<not> cbrk < F" using fits [of a "length c"] by simp
    then show thesis using that [of "Some ?t" ?d] 1 2 3 None False assms(4,5)
      by (simp add: defragMove_def src_def Let_def)
  qed
qed

lemma defragLoop_cells:
  fixes temp :: "memory option"
  defines "src \<equiv> \<lambda>temp data. case temp of None \<Rightarrow> data | Some t \<Rightarrow> t"
  assumes "i + length rest = nCell pg" "shape bt pg" "ptrs_at data (cellOffset pg + 2 * i) rest" "cells_at (src temp data) rest"
    "packed F cbrk (ivls rest) \<or> temp \<noteq> None" "get2byteNotZero data (hdrOffset pg + 5) = F"
    "\<forall>(a, c) \<in> set rest. good bt pg c \<and> gap pg \<le> a \<and> a + length c \<le> usableSize bt"
    "gap pg + total (ivls rest) \<le> cbrk" "cbrk \<le> usableSize bt" "gap pg \<le> F"
  shows "\<exists>cs' data'. defragLoop bt pg junk i cbrk temp data = Done (SQLITE_OK, cbrk - total (ivls rest), data') \<and>
    map snd cs' = map snd rest \<and> cells_at data' cs' \<and> ptrs_at data' (cellOffset pg + 2 * i) cs' \<and>
    packed (cbrk - total (ivls rest)) cbrk (ivls cs') \<and>
    (\<forall>k. k < cellOffset pg + 2 * i \<or> cbrk \<le> k \<longrightarrow> data' k = data k)"
  using assms(2-)
proof (induction rest arbitrary: i cbrk temp data)
  case Nil
  then show ?case
    by (subst defragLoop.simps) (auto simp: ptrs_at_def cells_at_def intro!: exI [of _ "[]"])
next
  case (Cons b rest)
  obtain a c where b: "b = (a, c)" by (cases b)
  note P = Cons.prems [unfolded b]
  let ?A = "cellOffset pg + 2 * i" and ?n = "length c"
  have gd: "good bt pg c" "gap pg \<le> a" "a + ?n \<le> usableSize bt" "4 \<le> ?n" using P(7) by (auto simp: good_def)
  have pc: "get2byte data ?A = a" "ptrs_at data (?A + 2) rest" using P(3) by (simp_all add: ptrs_at_Cons)
  have "holds (\<lambda>k. src temp data (a + k)) c" using P(4) by (simp add: cells_at_Cons)
  then have size: "cellSizePtr bt pg (\<lambda>k. src temp data (a + k)) = ?n" using gd(1) by (simp add: good_def)
  have fit: "gap pg + ?n + total (ivls rest) \<le> cbrk" using P(8) by simp
  have i: "i < nCell pg" "?A + 2 \<le> gap pg" using P(1) by auto
  have hdr: "hdrOffset pg + 8 \<le> cellOffset pg" using P(2) by (simp add: shape_def)
  let ?d1 = "put2byte data ?A (cbrk - ?n)"
  have d1: "?d1 k = data k" if "k < ?A \<or> ?A + 2 \<le> k" for k using that by (intro put2byte_other) auto
  have "get2byteNotZero ?d1 (hdrOffset pg + 5) = F" unfolding P(6) [symmetric]
    by (rule content_frame, rule d1) (use hdr in auto)
  have Fx: "temp = None \<longrightarrow> get2byte ?d1 (hdrOffset pg + 5) = F"
  proof
    assume "temp = None"
    then have "F \<le> a" using P(5) by (simp add: packed_Cons)
    then have "F < 65536" using gd P(2) by (simp add: shape_def)
    then show "get2byte ?d1 (hdrOffset pg + 5) = F"
      using \<open>get2byteNotZero ?d1 (hdrOffset pg + 5) = F\<close> by (simp add: get2byteNotZero_eq split: if_splits)
  qed
  have cells1: "cells_at (src temp ?d1) ((a, c) # rest)"
  proof (cases temp)
    case None
    have "cells_at ?d1 ((a, c) # rest)"
    proof (rule cells_at_frame [where d = data])
      show "?d1 k = data k" if "(x, n) \<in> set (ivls ((a, c) # rest))" "x \<le> k" "k < x + n" for x n k
        using P(7) that i by (intro d1) (fastforce simp: ivls_def)
    qed (use P(4) None in \<open>simp add: src_def\<close>)
    then show ?thesis by (simp add: src_def None)
  qed (use P(4) in \<open>simp add: src_def\<close>)
  obtain temp' data' where m: "defragMove (hdrOffset pg) junk a ?n (cbrk - ?n) temp ?d1 = Done (temp', data')"
    "cells_at (src temp' data') rest" "packed F (cbrk - ?n) (ivls rest) \<or> temp' \<noteq> None"
    "holds (\<lambda>k. data' (cbrk - ?n + k)) c" "\<And>k. k < cbrk - ?n \<or> cbrk \<le> k \<Longrightarrow> data' k = ?d1 k"
    unfolding src_def by (rule defragMove_cell [OF cells1 [unfolded src_def] P(5) Fx, of junk]) (use fit in simp, blast)
  have step: "defragLoop bt pg junk i cbrk temp data = defragLoop bt pg junk (i + 1) (cbrk - ?n) temp' data'"
  proof -
    have A: "cellOffset pg + i * 2 = ?A" by simp
    have "\<not> nCell pg \<le> i" "\<not> (a < gap pg \<or> usableSize bt - 4 < a)" "\<not> (cbrk < gap pg + ?n \<or> usableSize bt < a + ?n)"
      using i gd fit by auto
    then show ?thesis
      by (subst defragLoop.simps) (simp only: Let_def A pc(1) size [unfolded src_def] m(1) if_False exec.case prod.case)
  qed
  have frame: "data' k = data k" if "k < cbrk - ?n" "k < ?A \<or> ?A + 2 \<le> k" for k using m(5) [of k] d1 [OF that(2)] that(1) by simp
  have "\<exists>cs' data''. defragLoop bt pg junk (i + 1) (cbrk - ?n) temp' data' =
      Done (SQLITE_OK, cbrk - ?n - total (ivls rest), data'') \<and>
    map snd cs' = map snd rest \<and> cells_at data'' cs' \<and> ptrs_at data'' (cellOffset pg + 2 * (i + 1)) cs' \<and>
    packed (cbrk - ?n - total (ivls rest)) (cbrk - ?n) (ivls cs') \<and>
    (\<forall>k. k < cellOffset pg + 2 * (i + 1) \<or> cbrk - ?n \<le> k \<longrightarrow> data'' k = data' k)"
  proof (rule Cons.IH [OF _ P(2) _ m(2,3)])
    show "ptrs_at data' (cellOffset pg + 2 * (i + 1)) rest"
      by (rule ptrs_at_frame [where d = data]) (use pc(2) frame P(1) fit in auto)
    show "get2byteNotZero data' (hdrOffset pg + 5) = F" unfolding P(6) [symmetric]
      by (rule content_frame, rule frame) (use hdr fit in auto)
  qed (use P fit in auto)
  then obtain cs' data'' where r: "defragLoop bt pg junk (i + 1) (cbrk - ?n) temp' data' =
      Done (SQLITE_OK, cbrk - ?n - total (ivls rest), data'')"
    "map snd cs' = map snd rest" "cells_at data'' cs'" "ptrs_at data'' (?A + 2) cs'"
    "packed (cbrk - ?n - total (ivls rest)) (cbrk - ?n) (ivls cs')"
    "\<And>k. k < ?A + 2 \<or> cbrk - ?n \<le> k \<Longrightarrow> data'' k = data' k" by auto
  let ?cs = "(cbrk - ?n, c) # cs'"
  have "holds (\<lambda>k. data'' (cbrk - ?n + k)) c" using m(4) by (rule holds_cong [rotated]) (simp add: r(6))
  moreover have "get2byte data'' ?A = cbrk - ?n"
  proof -
    have "get2byte data'' ?A = get2byte data' ?A" by (rule get2byte_cong; rule r(6)) auto
    also have "\<dots> = get2byte ?d1 ?A" by (rule get2byte_cong; rule m(5)) (use fit i in auto)
    also have "\<dots> = cbrk - ?n"
    proof -
      have "usableSize bt \<le> 65536" using P(2) by (simp add: shape_def)
      then have "cbrk - ?n < 65536" using gd(4) P(9) by linarith
      then show ?thesis by (simp add: get2byte_put2byte)
    qed
    finally show ?thesis .
  qed
  moreover have "packed (cbrk - ?n - total (ivls rest)) cbrk (ivls ?cs)"
  proof -
    have "packed (cbrk - ?n - total (ivls rest)) cbrk (ivls cs')"
      by (rule packed_mono [OF r(5)]) (use packed_in [OF r(5)] in fastforce)
    moreover have "apart (cbrk - ?n, ?n) x" if "x \<in> set (ivls cs')" for x
      using packed_in [OF r(5), of "fst x" "snd x"] that by (simp add: apart_def)
    ultimately show ?thesis using fit gd(4) by (auto simp: packed_Cons)
  qed
  moreover have "data'' k = data k" if "k < ?A \<or> cbrk \<le> k" for k
    using that r(6) [of k] m(5) [of k] d1 [of k] i fit by auto
  ultimately show ?case using r(1-4) step
    by (intro exI [of _ ?cs] exI [of _ data'']) (simp add: b cells_at_Cons ptrs_at_Cons)
qed

lemma total_ivls: "total (ivls cs) = sum_list (map length (map snd cs))"
  by (simp add: ivls_def comp_def case_prod_beta)

lemma shape_hdr: "shape bt pg \<Longrightarrow> hdrOffset pg + 8 \<le> cellOffset pg"
  by (simp add: shape_def)

lemma good_cells: "(\<forall>(a, c) \<in> set cs. good bt pg c) \<longleftrightarrow> (\<forall>c \<in> set (map snd cs). good bt pg c)"
  by auto

lemma defragmentPage_space:
  assumes s: "page_space bt pg cs [] fb"
  shows "\<exists>cs' d'. defragmentPage bt junk pg = Done (SQLITE_OK, pg\<lparr>aData := d'\<rparr>) \<and> map snd cs' = map snd cs \<and>
    page_space bt (pg\<lparr>aData := d'\<rparr>) cs' [] [] \<and> content (pg\<lparr>aData := d'\<rparr>) = usableSize bt - total (ivls cs) \<and>
    same_head pg d'"
proof -
  note ps = s [unfolded page_space_def]
  let ?h = "hdrOffset pg" and ?T = "total (ivls cs)" and ?u = "usableSize bt"
  let ?cb = "?u - ?T"
  have sh: "shape bt pg" and lo: "?h + 8 \<le> cellOffset pg" using ps shape_hdr by auto
  have pk: "packed (content pg) ?u (ivls cs)" using ps by (simp add: packed_append)
  have fit: "gap pg + ?T \<le> ?u" using ps by linarith
  have "\<exists>cs' data'. defragLoop bt pg junk 0 ?u None (aData pg) = Done (SQLITE_OK, ?cb, data') \<and>
    map snd cs' = map snd cs \<and> cells_at data' cs' \<and> ptrs_at data' (cellOffset pg + 2 * 0) cs' \<and>
    packed ?cb ?u (ivls cs') \<and> (\<forall>k. k < cellOffset pg + 2 * 0 \<or> ?u \<le> k \<longrightarrow> data' k = aData pg k)"
  proof (rule defragLoop_cells)
    show "\<forall>(a, c) \<in> set cs. good bt pg c \<and> gap pg \<le> a \<and> a + length c \<le> ?u"
    proof (safe)
      fix a c assume ac: "(a, c) \<in> set cs"
      then show "good bt pg c" using ps by auto
      have "(a, length c) \<in> set (ivls cs)" using ac by (force simp: ivls_def)
      from packed_in [OF pk this] show "gap pg \<le> a" "a + length c \<le> ?u" using ps by auto
    qed
  qed (use ps sh pk fit in auto)
  then obtain cs' data where l: "defragLoop bt pg junk 0 ?u None (aData pg) = Done (SQLITE_OK, ?cb, data)"
    "map snd cs' = map snd cs" "cells_at data cs'" "ptrs_at data (cellOffset pg) cs'" "packed ?cb ?u (ivls cs')"
    "\<And>k. k < cellOffset pg \<Longrightarrow> data k = aData pg k" by auto
  let ?d1 = "put2byte data (?h + 5) ?cb"
  let ?d2 = "?d1(?h + 1 := 0, ?h + 2 := 0, ?h + 7 := 0)"
  let ?d = "zero_bytes ?d2 (gap pg) (?cb - gap pg)"
  have same: "?d k = data k" if "?h + 8 \<le> k" "k < gap pg \<or> ?cb \<le> k" for k
    using that fit by (auto simp: zero_bytes_other put2byte_other)
  have hdr: "?d k = ?d2 k" if "k < ?h + 8" for k using that lo by (intro zero_bytes_other) simp
  have T: "total (ivls cs') = ?T" using l(2) by (simp add: total_ivls)
  have cbrk: "get2byteNotZero ?d (?h + 5) = ?cb"
  proof -
    have "get2byte ?d (?h + 5) = get2byte ?d1 (?h + 5)" by (rule get2byte_cong; rule trans [OF hdr]) simp_all
    then have "get2byteNotZero ?d (?h + 5) = get2byteNotZero ?d1 (?h + 5)" by (simp add: get2byteNotZero_eq)
    also have "\<dots> = ?cb" using fit lo sh by (intro get2byteNotZero_put) (auto simp: shape_def)
    finally show ?thesis .
  qed
  have "cells_at ?d cs'"
  proof (rule cells_at_frame [OF l(3)])
    show "?d k = data k" if "(a, n) \<in> set (ivls cs')" "a \<le> k" "k < a + n" for a n k
      using packed_in [OF l(5) that(1)] that lo fit by (intro same) auto
  qed
  moreover have "ptrs_at ?d (cellOffset pg) cs'"
    by (rule ptrs_at_frame [OF l(4)], rule same) (use lo ps map_eq_imp_length_eq [OF l(2)] in auto)
  moreover have "?d (?h + 1) = 0" "?d (?h + 1 + 1) = 0" "?d (?h + 7) = 0" by (rule trans [OF hdr]; simp)+
  then have "get2byte ?d (?h + 1) = 0" "?d (?h + 7) = 0" unfolding get2byte_zero by simp_all
  moreover have "\<forall>(a, c) \<in> set cs'. good bt pg c" using ps unfolding good_cells l(2) by simp
  ultimately have "page_space bt (pg\<lparr>aData := ?d\<rparr>) cs' [] []"
    using ps sh fit l(5) map_eq_imp_length_eq [OF l(2)] T cbrk
    by (simp add: page_space_def chain_def; linarith)
  moreover have "same_head pg ?d"
    unfolding same_head_def by (intro ballI trans [OF hdr]) (use l(6) lo in \<open>auto simp: put2byte_other\<close>)
  moreover have "defragmentPage bt junk pg = Done (SQLITE_OK, pg\<lparr>aData := ?d\<rparr>)"
    using l(1) ps fit by (simp add: defragmentPage_def Let_def; linarith)
  ultimately show ?thesis using cbrk l(2)
    by (intro exI [of _ cs'] exI [of _ ?d]) simp
qed

subsection \<open>Allocating\<close>

lemma allocateGap_space:
  assumes s: "page_space bt pg cs [] fb" and n: "4 \<le> nByte" "gap pg + 2 + nByte \<le> content pg"
  shows "\<exists>d'. allocateGap pg nByte (content pg) = (SQLITE_OK, content pg - nByte, pg\<lparr>aData := d'\<rparr>) \<and>
    page_space bt (pg\<lparr>aData := d'\<rparr>) cs [(content pg - nByte, nByte)] fb \<and>
    gap pg + 2 \<le> content (pg\<lparr>aData := d'\<rparr>) \<and>
    same_head pg d'"
proof -
  note ps = s [unfolded page_space_def]
  let ?h = "hdrOffset pg" and ?u = "usableSize bt" and ?c = "content pg"
  let ?d = "put2byte (aData pg) (?h + 5) (?c - nByte)"
  have sh: "shape bt pg" and lo: "?h + 8 \<le> cellOffset pg" using ps shape_hdr by auto
  have same: "?d k = aData pg k" if "k < ?h + 5 \<or> ?h + 7 \<le> k" for k using that by (intro put2byte_other) auto
  have pk: "packed ?c ?u (ivls cs @ fb)" using ps by simp
  have c': "get2byteNotZero ?d (?h + 5) = ?c - nByte"
    using n ps sh by (intro get2byteNotZero_put) (auto simp: shape_def)
  have cells: "cells_at ?d cs"
  proof (rule cells_at_frame)
    show "?d k = aData pg k" if "(a, m) \<in> set (ivls cs)" "a \<le> k" "k < a + m" for a m k
      using packed_in [OF pk, of a m] that lo ps by (intro same) auto
  qed (use ps in simp)
  have ptrs: "ptrs_at ?d (cellOffset pg) cs"
  proof (rule ptrs_at_frame)
    show "?d k = aData pg k" if "cellOffset pg \<le> k" for k by (rule same) (use lo that in auto)
  qed (use ps in simp)
  have ch: "chain ?d (?h + 1) fb"
  proof -
    have "fbody ?d 0 fb = fbody (aData pg) 0 fb"
    proof (rule fbody_cong)
      show "?d (a + k) = aData pg (a + k)" if "(a, m) \<in> set fb" "k < 4" for a m k
        using packed_in [OF pk, of a m] that lo ps by (intro same) auto
    qed
    moreover have "get2byte ?d (?h + 1) = get2byte (aData pg) (?h + 1)" by (rule get2byte_cong; rule same) auto
    ultimately show ?thesis using ps by (simp add: chain_def)
  qed
  have "packed (?c - nByte) ?u (ivls cs @ [(?c - nByte, nByte)] @ fb)"
  proof -
    have "packed (?c - nByte) ?u (ivls cs @ fb)" by (rule packed_mono [OF pk]) (use packed_in [OF pk] in fastforce)
    moreover have "apart (?c - nByte, nByte) x" if "x \<in> set (ivls cs @ fb)" for x
      using packed_in [OF pk, of "fst x" "snd x"] that n by (auto simp: apart_def)
    moreover have "?c \<le> ?u" using ps by simp
    ultimately have "packed (?c - nByte) ?u ((?c - nByte, nByte) # ivls cs @ fb)"
      using n by (auto simp: packed_Cons)
    then show ?thesis by (simp add: packed_move)
  qed
  moreover have "asc (?c - nByte + 1) fb" using ps by (auto elim: asc_mono)
  moreover have "?d (?h + 7) = aData pg (?h + 7)" by (rule same) simp
  ultimately have "page_space bt (pg\<lparr>aData := ?d\<rparr>) cs [(?c - nByte, nByte)] fb"
    using ps c' n cells ptrs ch by (simp add: page_space_def; linarith)
  moreover have "same_head pg ?d" unfolding same_head_def by (intro ballI same) auto
  ultimately show ?thesis using c' n
    by (intro exI [of _ ?d]) (simp add: allocateGap_def Let_def; linarith)
qed

lemma allocateSpace_space:
  assumes s: "page_space bt pg cs [] fb" and n: "4 \<le> nByte" "nByte + 2 \<le> nFree pg"
  shows "\<exists>idx cs' fb' d'. allocateSpace bt junk pg nByte = Done (SQLITE_OK, idx, pg\<lparr>aData := d'\<rparr>) \<and>
    map snd cs' = map snd cs \<and> page_space bt (pg\<lparr>aData := d'\<rparr>) cs' [(idx, nByte)] fb' \<and>
    gap pg + 2 \<le> content (pg\<lparr>aData := d'\<rparr>) \<and>
    same_head pg d'"
proof -
  note ps = s [unfolded page_space_def]
  let ?h = "hdrOffset pg" and ?c = "content pg" and ?d = "aData pg"
  define defragment where "defragment = exec_bind (defragmentPage bt junk pg) (\<lambda>(rc, pPage).
      if rc \<noteq> SQLITE_OK then Done (rc, 0, pPage)
      else Done (allocateGap pPage nByte (get2byteNotZero (aData pPage) (?h + 5))))"
  define noslot where "noslot = (if ?c < gap pg + 2 + nByte then defragment else Done (allocateGap pg nByte ?c))"
  let ?ok = "\<lambda>r. \<exists>idx cs' fb' d'. r = Done (SQLITE_OK, idx, pg\<lparr>aData := d'\<rparr>) \<and>
    map snd cs' = map snd cs \<and> page_space bt (pg\<lparr>aData := d'\<rparr>) cs' [(idx, nByte)] fb' \<and>
    gap pg + 2 \<le> content (pg\<lparr>aData := d'\<rparr>) \<and> same_head pg d'"
  have df: "?ok defragment"
  proof -
    obtain cs1 d1 where d1: "defragmentPage bt junk pg = Done (SQLITE_OK, pg\<lparr>aData := d1\<rparr>)" "map snd cs1 = map snd cs"
      "page_space bt (pg\<lparr>aData := d1\<rparr>) cs1 [] []" "content (pg\<lparr>aData := d1\<rparr>) = usableSize bt - total (ivls cs)"
      "same_head pg d1"
      using defragmentPage_space [OF s, of junk] by blast
    have "gap pg + 2 + nByte \<le> content (pg\<lparr>aData := d1\<rparr>)" using d1(4) ps n by linarith
    then obtain d2 where "allocateGap (pg\<lparr>aData := d1\<rparr>) nByte (content (pg\<lparr>aData := d1\<rparr>)) =
        (SQLITE_OK, content (pg\<lparr>aData := d1\<rparr>) - nByte, pg\<lparr>aData := d2\<rparr>)"
      "page_space bt (pg\<lparr>aData := d2\<rparr>) cs1 [(content (pg\<lparr>aData := d1\<rparr>) - nByte, nByte)] []"
      "gap pg + 2 \<le> content (pg\<lparr>aData := d2\<rparr>)" "same_head (pg\<lparr>aData := d1\<rparr>) d2"
      using allocateGap_space [OF d1(3) n(1)] by auto
    then show ?thesis using d1 unfolding defragment_def
      by (intro exI [of _ "content (pg\<lparr>aData := d1\<rparr>) - nByte"] exI [of _ cs1] exI [of _ "[]"] exI [of _ d2]) (simp add: same_head_def)
  qed
  have ns: "?ok noslot"
  proof (cases "?c < gap pg + 2 + nByte")
    case False
    then obtain d' where "allocateGap pg nByte ?c = (SQLITE_OK, ?c - nByte, pg\<lparr>aData := d'\<rparr>)"
      "page_space bt (pg\<lparr>aData := d'\<rparr>) cs [(?c - nByte, nByte)] fb" "gap pg + 2 \<le> content (pg\<lparr>aData := d'\<rparr>)"
      "same_head pg d'"
      using allocateGap_space [OF s n(1)] by auto
    then show ?thesis using False unfolding noslot_def
      by (intro exI [of _ "?c - nByte"] exI [of _ cs] exI [of _ fb] exI [of _ d']) simp
  qed (use df in \<open>simp add: noslot_def\<close>)
  obtain rc bd sp d where slot: "pageFindSlot bt pg nByte = (rc, bd, sp, d)" by (metis prod_cases4)
  have "\<not> (?c < gap pg \<or> usableSize bt < ?c)" using ps by auto
  then have eq: "allocateSpace bt junk pg nByte =
      (if gap pg + 2 \<le> ?c \<and> (?d (?h + 1) \<noteq> 0 \<or> ?d (?h + 2) \<noteq> 0)
       then if rc \<noteq> SQLITE_OK then Done (rc, 0, pg\<lparr>aData := d\<rparr>)
         else if bd then defragment
         else case sp of Some idx \<Rightarrow> Done (SQLITE_OK, idx, pg\<lparr>aData := d\<rparr>) | None \<Rightarrow> noslot
       else noslot)"
    unfolding allocateSpace_def Let_def defragment_def [symmetric] noslot_def [symmetric] slot prod.case by (simp only: if_False)
  show ?thesis
  proof (cases "gap pg + 2 \<le> ?c \<and> (?d (?h + 1) \<noteq> 0 \<or> ?d (?h + 2) \<noteq> 0)")
    case True
    from pageFindSlot_space [OF s n(1) slot] consider "rc = SQLITE_OK" "sp = None"
      | idx fb' where "rc = SQLITE_OK" "\<not> bd" "sp = Some idx" "page_space bt (pg\<lparr>aData := d\<rparr>) cs [(idx, nByte)] fb'"
        "content (pg\<lparr>aData := d\<rparr>) = ?c" "same_head pg d" by blast
    then show ?thesis
    proof cases
      case 1
      then show ?thesis using True eq df ns by (cases bd) simp_all
    next
      case 2
      then show ?thesis using True eq
        by (intro exI [of _ idx] exI [of _ cs] exI [of _ fb'] exI [of _ d]) simp
    qed
  next
    case False
    then have "allocateSpace bt junk pg nByte = noslot" unfolding eq by (simp only: if_False)
    then show ?thesis using ns by simp
  qed
qed

end
