(* ===== verification/BtFree.thy ===== *)
theory BtFree
  imports BtRefine
begin

text \<open>
  Returning space to a page: \<^verbatim>\<open>freeSpace\<close> puts a block into the chain, joined with its neighbours, or
  makes it part of the gap; the list of cells stays as it is and the fragments are accounted for.
\<close>

unbundle bit_operations_syntax

subsection \<open>The layout without the pointers\<close>

definition layout ::
  "bt_shared \<Rightarrow> mem_page \<Rightarrow> (nat \<times> u8 list) list \<Rightarrow> (nat \<times> nat) list \<Rightarrow> (nat \<times> nat) list \<Rightarrow> bool" where
  "layout bt pg cs xs fb \<longleftrightarrow>
     shape bt pg \<and> cells_at (aData pg) cs \<and> (\<forall>(a, c) \<in> set cs. good bt pg c) \<and>
     chain (aData pg) (hdrOffset pg + 1) fb \<and> asc (content pg + 1) fb \<and>
     packed (content pg) (usableSize bt) (ivls cs @ xs @ fb) \<and>
     unat (aData pg (hdrOffset pg + 7)) + total (ivls cs) + total xs + total fb = usableSize bt - content pg \<and>
     gap pg \<le> content pg \<and> content pg \<le> usableSize bt"

lemma page_space_layout:
  "page_space bt pg cs xs fb \<longleftrightarrow> layout bt pg cs xs fb \<and> nCell pg = length cs \<and>
     ptrs_at (aData pg) (cellOffset pg) cs \<and> nFree pg + gap pg + total (ivls cs) = usableSize bt"
  by (auto simp: page_space_def layout_def)

subsection \<open>The place in the chain\<close>

lemma freeLoop_chain:
  assumes "get2byte d a = next_of (L @ R) 0" "fbody d 0 (L @ R)" "asc (a + 4) (L @ R)" "\<forall>(p, n) \<in> set L. p < s"
    "\<forall>(p, n) \<in> set R. s \<le> p"
  shows "freeLoop d s a = Some (last_of a L, next_of R 0)"
  using assms
proof (induction L arbitrary: a)
  case Nil
  then show ?case by (cases R) (subst freeLoop.simps, force simp: Let_def last_of_def)+
next
  case (Cons b L)
  obtain p n where b: "b = (p, n)" by (cases b)
  have p: "get2byte d a = p" "0 < p" "p < s" "a + 4 \<le> p" using Cons.prems by (auto simp: b)
  have "freeLoop d s p = Some (last_of p L, next_of R 0)"
    using Cons.prems by (intro Cons.IH) (auto simp: b intro: asc_mono)
  moreover have "last_of a (b # L) = last_of p L" by (simp add: last_of_def b)
  ultimately show ?case using p by (subst freeLoop.simps) (simp add: Let_def)
qed

lemma asc_raise: "asc lo R \<Longrightarrow> \<forall>(a, n) \<in> set R. l \<le> a \<Longrightarrow> asc l R"
  by (cases R) auto

lemma asc_insert:
  "asc lo (L @ R) \<Longrightarrow> \<forall>(a, n) \<in> set L. a + n + 4 \<le> s \<Longrightarrow> \<forall>(a, n) \<in> set R. s + m + 4 \<le> a \<Longrightarrow> lo \<le> s \<Longrightarrow> 4 \<le> m \<Longrightarrow>
   asc lo (L @ (s, m) # R)"
proof (induction L arbitrary: lo)
  case Nil
  then show ?case by (auto intro: asc_raise)
next
  case (Cons b L)
  then show ?case by (cases b) auto
qed

text \<open>A new block behind \<^verbatim>\<open>L\<close> and before \<^verbatim>\<open>R\<close>, to which \<^verbatim>\<open>L\<close> already leads.\<close>

lemma chain_insert:
  assumes "get2byte d a = next_of L s" "fbody d s L" "fbody d 0 R" "packed lo hi ((s, m) # L @ R)" "a + 2 \<le> lo" "m < 65536" "hi \<le> 65536"
  shows "chain (put2byte (put2byte d s (next_of R 0)) (s + 2) m) a (L @ (s, m) # R)"
proof -
  let ?d1 = "put2byte d s (next_of R 0)" and ?d = "put2byte (put2byte d s (next_of R 0)) (s + 2) m"
  have s: "4 \<le> m" "lo \<le> s" using assms(4) by (auto simp: packed_Cons)
  have same: "?d k = d k" if "k < s \<or> s + 4 \<le> k" for k using that by (auto simp: put2byte_other)
  have other: "?d (b + k) = d (b + k)" if "(b, n) \<in> set L \<union> set R" "k < 4" for b n k
  proof (rule same)
    have "apart (s, m) (b, n)" "4 \<le> n" using assms(4) that packed_in [of lo hi "L @ R" b n] by (auto simp: packed_Cons)
    then show "b + k < s \<or> s + 4 \<le> b + k" using that(2) s by (auto simp: apart_def)
  qed
  have "fbody ?d s L = fbody d s L" "fbody ?d 0 R = fbody d 0 R" using other by (auto intro!: fbody_cong)
  moreover have "get2byte ?d a = get2byte d a" by (rule get2byte_cong; rule same) (use assms(5) s in auto)
  moreover have "get2byte ?d (s + 2) = m" using assms(6) by (simp add: get2byte_put2byte)
  moreover have "get2byte ?d s = next_of R 0"
  proof -
    have "get2byte ?d s = get2byte ?d1 s" by (rule get2byte_put2byte_other) simp
    also have "\<dots> = next_of R 0 mod 65536" by (simp add: get2byte_put2byte)
    also have "\<dots> = next_of R 0"
    proof (cases R)
      case (Cons b R')
      have "fst b < 65536" using assms(4) assms(7) packed_in [of lo hi "L @ R" "fst b" "snd b"] by (force simp: packed_Cons Cons)
      then show ?thesis by (cases b) (simp add: Cons)
    qed simp
    finally show ?thesis .
  qed
  ultimately show ?thesis using assms(1-3,5) s by (simp add: chain_def fbody_append next_of_append)
qed

subsection \<open>Joining the neighbours\<close>

lemma u16of_small: "n < 65536 \<Longrightarrow> u16of n = n"
  by (simp add: u16of_def)

lemma packed_swap: "packed lo hi (x # y # bs) \<longleftrightarrow> packed lo hi (y # x # bs)"
  using packed_move [of lo hi "[x]" y bs] by simp

text \<open>The block behind: \<^verbatim>\<open>f\<close> bytes of fragments are taken in.\<close>

lemma mergeNext_blocks:
  assumes "packed lo (usableSize bt) ((s, n) # L @ R @ bs)" "usableSize bt \<le> 65536" "0 < lo"
    "\<forall>(p, k) \<in> set R. s \<le> p" "asc l (L @ R)" "fbody d 0 R"
  obtains e R' f where "mergeNext bt d s n (s + n) (next_of R 0) = Some (e - s, e, next_of R' 0, f)"
    "packed lo (usableSize bt) ((s, e - s) # L @ R' @ bs)" "s + n \<le> e" "total R + n + f = total R' + (e - s)" "f \<le> 3"
    "asc l (L @ R')" "\<forall>(p, k) \<in> set R'. e + 4 \<le> p" "fbody d 0 R'"
proof -
  have sn: "4 \<le> n" "lo \<le> s" "s + n \<le> usableSize bt" using assms(1) by (auto simp: packed_Cons)
  show thesis
  proof (cases "R \<noteq> [] \<and> next_of R 0 \<le> s + n + 3")
    case True
    then obtain p m R0 where R: "R = (p, m) # R0" by (cases R) auto
    have p: "s + n \<le> p" "p \<le> s + n + 3" "4 \<le> m" "p + m \<le> usableSize bt" "p \<noteq> 0"
      using assms(1,3,4) sn True by (auto simp: R packed_Cons packed_append apart_def)
    have "packed lo (usableSize bt) ((s, n) # (p, m) # L @ R0 @ bs)"
      using assms(1) packed_move [of lo "usableSize bt" "(s, n) # L" "(p, m)" "R0 @ bs"]
        packed_swap [of lo "usableSize bt" "(s, n)" "(p, m)"] by (simp add: R)
    from packed_join [OF this p(1,2)] have "packed lo (usableSize bt) ((s, p + m - s) # L @ R0 @ bs)" .
    moreover have "get2byte d (p + 2) = m" "get2byte d p = next_of R0 0" "fbody d 0 R0" using assms(6) by (simp_all add: R)
    moreover have "u16of (p + m - s) = p + m - s"
      using p sn assms(2,3) by (intro u16of_small) linarith
    moreover have "\<forall>(q, k) \<in> set R0. p + m + 4 \<le> q"
      using asc_bounds [OF asc_tail [of l L p m R0]] assms(5) by (fastforce simp: R)
    moreover have "asc l (L @ R0)" using asc_remove assms(5) unfolding R .
    ultimately show thesis
      using that [of "p + m" R0 "p - (s + n)"] p sn by (simp add: mergeNext_def R Let_def)
  next
    case False
    have "mergeNext bt d s n (s + n) (next_of R 0) = Some (n, s + n, next_of R 0, 0)"
      using False by (cases R) (auto simp: mergeNext_def)
    moreover have "\<forall>(p, k) \<in> set R. s + n + 4 \<le> p"
    proof (cases R)
      case (Cons b R0)
      obtain p m where b: "b = (p, m)" by (cases b)
      have "s + n + 4 \<le> p" using False by (simp add: Cons b)
      moreover have "p \<le> fst x" if "x \<in> set R0" for x
        using asc_bounds [OF asc_tail [of l L p m R0], of "fst x" "snd x"] assms(5) that by (simp add: Cons b)
      ultimately show ?thesis by (fastforce simp: Cons b)
    qed simp
    ultimately show thesis using that [of "s + n" R 0] assms by simp
  qed
qed

text \<open>The block before.\<close>

lemma mergePrev_blocks:
  assumes "packed lo hi ((s, m) # L @ bs)" "hi \<le> 65536" "h + 1 < lo" "\<forall>(p, k) \<in> set L. p < s"
    "asc l (L @ R)" "l \<le> s" "fbody d s' L" "f \<le> 3"
  obtains t L' g where "mergePrev d h (last_of (h + 1) L) s m (s + m) f = Some (t, s + m - t, f + g)"
    "packed lo hi ((t, s + m - t) # L' @ bs)" "t \<le> s" "total L + m + g = total L' + (s + m - t)"
    "asc l (L' @ R)" "\<forall>(p, k) \<in> set L'. p + k + 4 \<le> t" "l \<le> t"
    "t = s \<and> L' = L \<or> (\<exists>k. L = L' @ [(t, k)])"
proof (cases L rule: rev_cases)
  case Nil
  then show thesis using that [where t = s and L' = "[]" and g = 0] assms by (simp add: mergePrev_def last_of_def)
next
  case (snoc L0 b)
  obtain p k where b: "b = (p, k)" by (cases b)
  have L: "L = L0 @ [(p, k)]" by (simp add: snoc b)
  have sm: "4 \<le> m" "lo \<le> s" "s + m \<le> hi" and pk: "4 \<le> k" "lo \<le> p" "p + k \<le> s"
    using assms(1,4) by (auto simp: L packed_Cons packed_append apart_def)
  have size: "get2byte d (p + 2) = k" using assms(7) by (simp add: L fbody_append)
  have prev: "\<forall>(q, j) \<in> set L0. q + j + 4 \<le> p"
    using assms(5) asc_lt [of l L0 "(p, k)" R] by (fastforce simp: L)
  show thesis
  proof (cases "s \<le> p + k + 3")
    case True
    have "packed lo hi ((p, k) # (s, m) # L0 @ bs)"
      using assms(1) packed_move [of lo hi "(s, m) # L0" "(p, k)" bs] by (simp add: L)
    from packed_join [OF this pk(3)] True have "packed lo hi ((p, s + m - p) # L0 @ bs)" by simp
    moreover have "asc l (L0 @ R)" using asc_remove assms(5) by (fastforce simp: L)
    moreover have "l \<le> p" using asc_le [of l L0 "(p, k)" R] assms(5) by (simp add: L)
    moreover have "u16of (s + m - p) = s + m - p" using sm pk assms(2,3) by (intro u16of_small) linarith
    ultimately show thesis
      using that [where t = p and L' = L0 and g = "s - (p + k)"] True pk sm size prev assms(3,8)
      by (simp add: mergePrev_def last_of_def L Let_def)
  next
    case False
    have "\<forall>(q, j) \<in> set L. q + j + 4 \<le> s" using prev False pk by (fastforce simp: L)
    then show thesis
      using that [where t = s and L' = L and g = 0] False size assms by (simp add: mergePrev_def last_of_def L Let_def)
  qed
qed

subsection \<open>Putting the block back\<close>

lemma packed_apart: "packed lo hi (b # bs) \<Longrightarrow> x \<in> set bs \<Longrightarrow> apart b x"
  by (cases b) (auto simp: packed_Cons)

lemma packed_apart_append: "packed lo hi (xs @ ys) \<Longrightarrow> x \<in> set xs \<Longrightarrow> y \<in> set ys \<Longrightarrow> apart x y"
  by (auto simp: packed_append)

lemma packed_tail: "packed lo hi (b # bs) \<Longrightarrow> packed lo hi bs"
  by (cases b) (simp add: packed_Cons)

lemma cells_outside:
  assumes P: "packed lo hi ((t, m) # L @ R @ ivls cs)" and a: "(a, n) \<in> set (ivls cs)" "a \<le> k" "k < a + n"
  shows "lo \<le> k" "k < t \<or> t + m \<le> k" "\<forall>(p, j) \<in> set L \<union> set R. k < p \<or> p + j \<le> k"
proof -
  have P': "packed lo hi ((L @ R) @ ivls cs)" using packed_tail [OF P] by simp
  show "lo \<le> k" using packed_in [OF P', of a n] a by simp
  show "k < t \<or> t + m \<le> k" using packed_apart [OF P, of "(a, n)"] a by (auto simp: apart_def)
  have "apart x (a, n)" if "x \<in> set L \<union> set R" for x
    by (rule packed_apart_append [OF P']) (use that a in auto)
  then show "\<forall>(p, j) \<in> set L \<union> set R. k < p \<or> p + j \<le> k" using a by (fastforce simp: apart_def)
qed

text \<open>The block is at the start of the content area: the gap takes it.\<close>

lemma freeEnd_gap:
  assumes sh: "shape bt pg" and cells: "cells_at D cs" "\<forall>(a, c) \<in> set cs. good bt pg c"
    and c: "c = get2byteNotZero D (hdrOffset pg + 5)" "c < 65536" "gap pg \<le> c" "e \<le> usableSize bt" "c < e"
    and P: "packed c (usableSize bt) ((c, e - c) # R @ ivls cs)"
    and tot: "unat (D (hdrOffset pg + 7)) + total (ivls cs) + (e - c) + total R = usableSize bt - c"
    and R: "asc c R" "\<forall>(p, k) \<in> set R. e + 4 \<le> p" "fbody D 0 R"
    and nf: "nFree pg + n < 65536"
  shows "\<exists>d'. freeEnd pg D (hdrOffset pg + 1) c m e (next_of R 0) n = (SQLITE_OK, pg\<lparr>aData := d', nFree := nFree pg + n\<rparr>) \<and>
    layout bt (pg\<lparr>aData := d', nFree := nFree pg + n\<rparr>) cs [] R \<and>
    (\<forall>k. k < gap pg \<and> k \<notin> {hdrOffset pg + 1, hdrOffset pg + 2, hdrOffset pg + 5, hdrOffset pg + 6} \<longrightarrow> d' k = D k)"
proof -
  let ?h = "hdrOffset pg" and ?u = "usableSize bt"
  let ?d1 = "put2byte D (?h + 1) (next_of R 0)"
  let ?d = "put2byte ?d1 (?h + 5) e"
  have lo: "?h + 8 \<le> cellOffset pg" and u: "?u \<le> 65536" using sh by (auto simp: shape_def)
  have g2: "get2byte D (?h + 5) = c" using c(1,2) by (auto simp: get2byteNotZero_eq split: if_splits)
  have same: "?d k = D k" if "k \<notin> {?h + 1, ?h + 2, ?h + 5, ?h + 6}" for k using that by (auto simp: put2byte_other)
  have e: "get2byteNotZero ?d (?h + 5) = e" using c(4,5) u by (intro get2byteNotZero_put) auto
  have blk: "e \<le> a \<and> a + k \<le> ?u \<and> 4 \<le> k" if "(a, k) \<in> set (R @ ivls cs)" for a k
    using packed_apart [OF P that] packed_in [OF packed_tail [OF P] that] c(5) by (auto simp: apart_def)
  have far: "?d k = D k" if "c \<le> k" for k by (rule same) (use that lo c(3) in auto)
  have "fbody ?d 0 R = fbody D 0 R" by (rule fbody_cong, rule far) (use blk c(5) in fastforce)
  moreover have "get2byte ?d (?h + 1) = next_of R 0"
  proof -
    have "get2byte ?d (?h + 1) = get2byte ?d1 (?h + 1)" by (rule get2byte_put2byte_other) simp
    moreover have "next_of R 0 < 65536"
    proof (cases R)
      case (Cons b R')
      then show ?thesis using blk [of "fst b" "snd b"] u by (cases b) simp
    qed simp
    ultimately show ?thesis by (simp add: get2byte_put2byte)
  qed
  ultimately have "chain ?d (?h + 1) R" using R(3) by (simp add: chain_def)
  moreover have "cells_at ?d cs"
    by (rule cells_at_frame [OF cells(1)], rule far) (use blk c(5) in fastforce)
  moreover have "packed e ?u (ivls cs @ R)"
  proof -
    have "packed c ?u (ivls cs @ R)" using P by (auto simp: packed_Cons packed_append apart_sym)
    then show ?thesis by (rule packed_mono) (use blk in auto)
  qed
  moreover have "asc (e + 1) R" by (rule asc_raise [OF R(1)]) (use R(2) in force)
  moreover have "?d (?h + 7) = D (?h + 7)" by (rule same) simp
  ultimately have "layout bt (pg\<lparr>aData := ?d, nFree := nFree pg + n\<rparr>) cs [] R"
    using sh cells(2) e c(3-5) tot by (simp add: layout_def; linarith)
  then show ?thesis using g2 nf same
    by (intro exI [of _ ?d]) (auto simp: freeEnd_def Let_def u16of_small)
qed

text \<open>Else the chain takes it; \<^verbatim>\<open>iPtr\<close> is the last block before it, or the block it was joined to.\<close>

lemma freeEnd_chain:
  assumes sh: "shape bt pg" and cells: "cells_at D cs" "\<forall>(a, c) \<in> set cs. good bt pg c"
    and c: "c = get2byteNotZero D (hdrOffset pg + 5)" "c < 65536" "gap pg \<le> c" "c \<le> usableSize bt" "t \<noteq> c"
    and P: "packed c (usableSize bt) ((t, m) # L @ R @ ivls cs)"
    and tot: "unat (D (hdrOffset pg + 7)) + total (ivls cs) + m + total L + total R = usableSize bt - c"
    and LR: "asc c (L @ R)" "\<forall>(p, k) \<in> set L. p + k + 4 \<le> t" "\<forall>(p, k) \<in> set R. t + m + 4 \<le> p" "\<forall>(p, k) \<in> set L. c < p"
    and ch: "get2byte D (hdrOffset pg + 1) = next_of L0 v" "fbody D v L0" "fbody D 0 R" "iPtr = last_of (hdrOffset pg + 1) L0"
      "L = L0 \<or> (\<exists>k. L0 = L @ [(t, k)])"
    and nf: "nFree pg + n < 65536"
  shows "\<exists>d'. freeEnd pg D iPtr t m e (next_of R 0) n = (SQLITE_OK, pg\<lparr>aData := d', nFree := nFree pg + n\<rparr>) \<and>
    layout bt (pg\<lparr>aData := d', nFree := nFree pg + n\<rparr>) cs [] (L @ (t, m) # R) \<and>
    (\<forall>k. k < gap pg \<and> k \<notin> {hdrOffset pg + 1, hdrOffset pg + 2} \<longrightarrow> d' k = D k)"
proof -
  let ?h = "hdrOffset pg" and ?u = "usableSize bt"
  let ?q = "put2byte D iPtr t"
  let ?d = "put2byte (put2byte ?q t (next_of R 0)) (t + 2) m"
  have lo: "?h + 8 \<le> cellOffset pg" and u: "?u \<le> 65536" using sh by (auto simp: shape_def)
  have g2: "get2byte D (?h + 5) = c" using c(1,2) by (auto simp: get2byteNotZero_eq split: if_splits)
  have tm: "4 \<le> m" "c < t" "t + m \<le> ?u" using P c(5) by (auto simp: packed_Cons)
  have blk: "c \<le> a \<and> a + k \<le> ?u \<and> 4 \<le> k" if "(a, k) \<in> set (L @ R)" for a k
    using P that packed_in [of c ?u "L @ R @ ivls cs" a k] by (auto simp: packed_Cons)
  have d0: "?q k = D k" if "k \<noteq> iPtr" "k \<noteq> iPtr + 1" for k using that by (rule put2byte_other)
  have ip: "iPtr = ?h + 1 \<and> L = [] \<and> L0 = [] \<or> iPtr = t \<and> L0 \<noteq> L \<or> (\<exists>B k. L = B @ [(iPtr, k)] \<and> L0 = L)"
    using ch(4,5) by (cases L0 rule: rev_cases) (auto simp: last_of_def)
  have hdr: "?q k = D k" if "k < gap pg" "k \<noteq> ?h + 1" "k \<noteq> ?h + 2" for k
  proof -
    have "k \<noteq> iPtr \<and> k \<noteq> iPtr + 1"
      using ip
    proof (elim disjE conjE exE)
      fix B k' assume "L = B @ [(iPtr, k')]"
      then have "c \<le> iPtr" using blk [of iPtr k'] by simp
      then show ?thesis using that c(3) by auto
    qed (use that tm c(3) in auto)
    then show ?thesis by (simp add: d0)
  qed
  have R_same: "fbody ?q 0 R = fbody D 0 R"
  proof (rule fbody_cong)
    fix a k j :: nat assume a: "(a, k) \<in> set R" "j < 4"
    have "t + m + 4 \<le> a" using LR(3) a(1) by auto
    moreover have "iPtr \<le> t" using ip LR(2) tm lo c(3) by auto
    ultimately show "?q (a + j) = D (a + j)" by (intro d0) auto
  qed
  have link: "get2byte ?q (?h + 1) = next_of L t \<and> fbody ?q t L"
    using ip
  proof (elim disjE conjE exE)
    assume "iPtr = ?h + 1" "L = []"
    then show ?thesis using tm u by (simp add: get2byte_put2byte)
  next
    assume i: "iPtr = t" "L0 \<noteq> L"
    then obtain k where L0: "L0 = L @ [(t, k)]" using ch(5) by auto
    have "fbody ?q t L = fbody D t L"
    proof (rule fbody_cong)
      fix a j b :: nat assume a: "(a, j) \<in> set L" "b < 4"
      then have "a + j + 4 \<le> t" "4 \<le> j" using LR(2) blk by auto
      then show "?q (a + b) = D (a + b)" using i a(2) by (intro d0) auto
    qed
    moreover have "get2byte ?q (?h + 1) = get2byte D (?h + 1)"
      by (rule get2byte_put2byte_other) (use i tm lo c(3) in auto)
    ultimately show ?thesis using ch(1,2) by (simp add: L0 next_of_append fbody_append)
  next
    fix B k assume L: "L = B @ [(iPtr, k)]" "L0 = L"
    have i: "c < iPtr" "4 \<le> k" using LR(4) blk [of iPtr k] L(1) by auto
    have "fbody ?q t (B @ [(iPtr, k)])"
    proof (rule fbody_relink [where d = D and t = v])
      show "fbody D v (B @ [(iPtr, k)])" using ch(2) L by simp
      fix a j b :: nat assume a: "(a, j) \<in> set B" "b < 4"
      have "a + j + 4 \<le> iPtr" using asc_lt [of c B "(iPtr, k)" R a j] LR(1) a(1) L(1) by simp
      then show "?q (a + b) = D (a + b)" using a(2) blk [of a j] a(1) L(1) by (intro d0) auto
    next
      show "get2byte ?q iPtr = t" using tm u by (simp add: get2byte_put2byte)
      show "?q (iPtr + 2) = D (iPtr + 2)" "?q (iPtr + 3) = D (iPtr + 3)" by (simp_all add: d0)
    qed
    moreover have "get2byte ?q (?h + 1) = get2byte D (?h + 1)"
      by (rule get2byte_put2byte_other) (use i lo c(3) in auto)
    moreover have "next_of L v = next_of L t" using L(1) by (simp add: next_of_append)
    ultimately show ?thesis using ch(1) L by simp
  qed
  have "packed c ?u ((t, m) # L @ R)" using P by (auto simp: packed_Cons packed_append)
  then have "chain ?d (?h + 1) (L @ (t, m) # R)"
    using link R_same ch(3) tm u lo c(3) by (intro chain_insert [where lo = c and hi = ?u]) auto
  moreover have far: "?d k = ?q k" if "k < t \<or> t + m \<le> k" for k using that tm by (auto simp: put2byte_other)
  have keep: "?d k = D k" if "k < gap pg" "k \<noteq> ?h + 1" "k \<noteq> ?h + 2" for k
    using far [of k] hdr [OF that] that(1) tm c(3) by simp
  have "cells_at ?d cs"
  proof (rule cells_at_frame [OF cells(1)])
    fix a n' k :: nat assume a: "(a, n') \<in> set (ivls cs)" "a \<le> k" "k < a + n'"
    note o = cells_outside [OF P a]
    have "?q k = D k"
    proof (rule d0)
      have "k \<noteq> iPtr \<and> k \<noteq> iPtr + 1"
        using ip
      proof (elim disjE conjE exE)
        fix B j assume "L = B @ [(iPtr, j)]"
        then have "(iPtr, j) \<in> set L" by simp
        then show ?thesis using bspec [OF o(3), of "(iPtr, j)"] blk [of iPtr j] by auto
      qed (use o(1,2) tm lo c(3) in auto)
      then show "k \<noteq> iPtr" "k \<noteq> iPtr + 1" by auto
    qed
    then show "?d k = D k" using far [OF o(2)] by simp
  qed
  moreover have cont: "get2byteNotZero ?d (?h + 5) = c" unfolding c(1) by (rule content_frame, rule keep) (use lo in auto)
  moreover have "packed c ?u (ivls cs @ L @ (t, m) # R)"
    using P by (auto simp: packed_Cons packed_append apart_sym)
  moreover have "asc (c + 1) (L @ (t, m) # R)"
  proof -
    have "asc c (L @ (t, m) # R)" using LR tm by (intro asc_insert) auto
    then show ?thesis
    proof (rule asc_raise)
      show "\<forall>(a, n) \<in> set (L @ (t, m) # R). c + 1 \<le> a" using LR(3,4) tm by fastforce
    qed
  qed
  moreover have "?d (?h + 7) = D (?h + 7)" by (rule keep) (use lo in auto)
  ultimately have "layout bt (pg\<lparr>aData := ?d, nFree := nFree pg + n\<rparr>) cs [] (L @ (t, m) # R)"
    using sh cells(2) c(3,4) tot by (simp add: layout_def; linarith)
  then show ?thesis using g2 c(5) nf keep
    by (intro exI [of _ ?d]) (auto simp: freeEnd_def Let_def u16of_small)
qed

subsection \<open>Freeing\<close>

lemma asc_split:
  "asc lo fb \<Longrightarrow> \<exists>L R. fb = L @ R \<and> (\<forall>(p, n) \<in> set L. p < s) \<and> (\<forall>(p, n) \<in> set R. s \<le> p)"
proof (induction fb arbitrary: lo)
  case (Cons b fb)
  obtain p n where b: "b = (p, n)" by (cases b)
  show ?case
  proof (cases "p < s")
    case True
    obtain L R where "fb = L @ R" "\<forall>(p, n) \<in> set L. p < s" "\<forall>(p, n) \<in> set R. s \<le> p"
      using Cons.IH [of "p + n + 4"] Cons.prems by (auto simp: b)
    then show ?thesis using True by (intro exI [of _ "b # L"] exI [of _ R]) (simp add: b)
  next
    case False
    have "p \<le> q" if "(q, m) \<in> set fb" for q m
      using asc_bounds [of "p + n + 4" fb q m] Cons.prems that by (simp add: b)
    then have "\<forall>(q, m) \<in> set (b # fb). s \<le> q" using False by (fastforce simp: b)
    then show ?thesis by (intro exI [of _ "[]"] exI [of _ "b # fb"]) simp
  qed
qed simp

text \<open>The chain around the freed block, joined with its neighbours: \<^verbatim>\<open>freeSpace\<close> up to its last part.\<close>

lemma freeSpace_merge:
  assumes P: "packed c (usableSize bt) ((s, n) # fb @ ivls cs)" and u: "usableSize bt \<le> 65536" "hdrOffset pg + 8 \<le> c"
    and D: "D = (if secureDelete bt then zero_bytes (aData pg) s n else aData pg)"
    and ch: "chain D (hdrOffset pg + 1) fb" "asc (c + 1) fb"
    and tot: "unat (D (hdrOffset pg + 7)) + total (ivls cs) + n + total fb = usableSize bt - c"
  obtains L R L' R' t e g where
    "freeSpace bt pg s n = freeEnd pg (D(hdrOffset pg + 7 := D (hdrOffset pg + 7) - of_nat g))
       (last_of (hdrOffset pg + 1) L) t (e - t) e (next_of R' 0) n"
    "fb = L @ R" "packed c (usableSize bt) ((t, e - t) # L' @ R' @ ivls cs)" "asc c (L' @ R')" "c \<le> t"
    "\<forall>(p, k) \<in> set L'. p + k + 4 \<le> t" "\<forall>(p, k) \<in> set R'. e + 4 \<le> p" "fbody D 0 R'"
    "L = L' \<or> (\<exists>k. L = L' @ [(t, k)])" "g \<le> unat (D (hdrOffset pg + 7))" "t < e"
    "unat (D (hdrOffset pg + 7)) - g + total (ivls cs) + (e - t) + total L' + total R' = usableSize bt - c"
proof -
  let ?h = "hdrOffset pg" and ?u = "usableSize bt"
  obtain L R where LR: "fb = L @ R" "\<forall>(p, n) \<in> set L. p < s" "\<forall>(p, n) \<in> set R. s \<le> p"
    using asc_split [OF ch(2), of s] by blast
  have sn: "4 \<le> n" "c \<le> s" "s + n \<le> ?u" using P by (auto simp: packed_Cons)
  have asc: "asc c (L @ R)" using ch(2) LR(1) by (auto elim: asc_mono)
  have body: "fbody D (next_of R 0) L" "fbody D 0 R" using ch(1) by (simp_all add: chain_def LR(1) fbody_append)
  have P0: "packed c ?u ((s, n) # L @ R @ ivls cs)" using P by (simp add: LR(1))
  obtain e R' f where R': "mergeNext bt D s n (s + n) (next_of R 0) = Some (e - s, e, next_of R' 0, f)"
    "packed c ?u ((s, e - s) # L @ R' @ ivls cs)" "s + n \<le> e" "total R + n + f = total R' + (e - s)" "f \<le> 3"
    "asc c (L @ R')" "\<forall>(p, k) \<in> set R'. e + 4 \<le> p" "fbody D 0 R'"
    by (rule mergeNext_blocks [OF P0 u(1) _ LR(3) asc body(2)]) (use u(2) in auto)
  have se: "s + (e - s) = e" using R'(3) by simp
  obtain t L' g where L': "mergePrev D ?h (last_of (?h + 1) L) s (e - s) e f = Some (t, e - t, f + g)"
    "packed c ?u ((t, e - t) # L' @ R' @ ivls cs)" "t \<le> s" "total L + (e - s) + g = total L' + (e - t)"
    "asc c (L' @ R')" "\<forall>(p, k) \<in> set L'. p + k + 4 \<le> t" "c \<le> t" "t = s \<and> L' = L \<or> (\<exists>k. L = L' @ [(t, k)])"
    by (rule mergePrev_blocks [OF R'(2) u(1) _ LR(2) R'(6) sn(2) body(1) R'(5), of ?h, unfolded se]) (use u(2) in auto)
  have "total ((t, e - t) # L' @ R' @ ivls cs) \<le> ?u - c" by (rule packed_sum [OF L'(2)])
  then have frag: "f + g \<le> unat (D (?h + 7))" using tot R'(4) L'(4) by (simp add: LR(1))
  let ?D = "D(?h + 7 := D (?h + 7) - of_nat (f + g))"
  have "freeSpace bt pg s n = freeEnd pg ?D (last_of (?h + 1) L) t (e - t) e (next_of R' 0) n"
  proof (cases "fb = []")
    case True
    then have "D (?h + 2) = 0 \<and> D (?h + 1) = 0" using ch(1) by (simp add: chain_def get2byte_zero)
    then have "freeSpace bt pg s n = freeEnd pg D (?h + 1) s n (s + n) 0 n"
      by (simp add: freeSpace_def Let_def flip: D)
    moreover have "R' = [] \<and> f = 0 \<and> e = s + n"
    proof -
      have "Some (n, s + n, 0, 0) = Some (e - s, e, next_of R' 0, f)" using R'(1) True LR(1) by (simp add: mergeNext_def)
      then have "f = 0" "e = s + n" "next_of R' 0 = 0" by auto
      moreover from this have "R' = []" using R'(8) by (cases R') auto
      ultimately show ?thesis by simp
    qed
    moreover have "L = [] \<and> L' = [] \<and> t = s" using L'(8) LR(1) True by auto
    moreover from calculation have "g = 0" using L'(4) by simp
    ultimately show ?thesis by (simp add: last_of_def)
  next
    case False
    have "next_of (L @ R) 0 \<noteq> 0" using False ch(1) by (cases fb) (auto simp: chain_def simp flip: LR(1))
    then have nz: "\<not> (D (?h + 2) = 0 \<and> D (?h + 1) = 0)"
      using ch(1) get2byte_zero [of D "?h + 1"] by (auto simp: chain_def LR(1))
    have fl: "freeLoop D s (?h + 1) = Some (last_of (?h + 1) L, next_of R 0)"
    proof (rule freeLoop_chain)
      show "asc (?h + 1 + 4) (L @ R)" using asc_mono [OF asc] u(2) by simp
    qed (use ch(1) LR in \<open>simp_all add: chain_def\<close>)
    have last_ok: "\<not> ?u - 4 < next_of R 0"
      using packed_in [OF P0, of "fst (hd R)" "snd (hd R)"] by (cases R) auto
    have "\<not> unat (D (?h + 7)) < f + g" using frag by simp
    then show ?thesis
      unfolding freeSpace_def Let_def D [symmetric] fl option.case prod.case R'(1) L'(1) by (simp only: nz last_ok if_False option.case prod.case R'(1) L'(1))
  qed
  then show thesis
  proof (rule that)
    show "L = L' \<or> (\<exists>k. L = L' @ [(t, k)])" using L'(8) by auto
    show "t < e" using L'(3) R'(3) sn by linarith
    show "unat (D (?h + 7)) - (f + g) + total (ivls cs) + (e - t) + total L' + total R' = ?u - c"
      using tot R'(4) L'(4) frag by (simp add: LR(1))
  qed (use LR(1) L' R' frag in auto)
qed

lemma freeSpace_layout:
  assumes l: "layout bt pg cs [(s, n)] fb" and nf: "nFree pg + n < 65536"
  shows "\<exists>d' fb'. freeSpace bt pg s n = (SQLITE_OK, pg\<lparr>aData := d', nFree := nFree pg + n\<rparr>) \<and>
    layout bt (pg\<lparr>aData := d', nFree := nFree pg + n\<rparr>) cs [] fb' \<and>
    (\<forall>k. k < gap pg \<and> k \<notin> {hdrOffset pg + 1, hdrOffset pg + 2, hdrOffset pg + 5, hdrOffset pg + 6, hdrOffset pg + 7} \<longrightarrow>
      d' k = aData pg k)"
proof -
  note ls = l [unfolded layout_def]
  let ?h = "hdrOffset pg" and ?u = "usableSize bt" and ?c = "content pg"
  let ?D = "if secureDelete bt then zero_bytes (aData pg) s n else aData pg"
  have sh: "shape bt pg" and lo: "?h + 8 \<le> cellOffset pg" and u: "?u \<le> 65536" using ls by (auto simp: shape_def)
  have P: "packed ?c ?u ((s, n) # fb @ ivls cs)"
    using ls packed_move [of ?c ?u "ivls cs" "(s, n)" fb] by (auto simp: packed_Cons packed_append apart_sym)
  have sn: "4 \<le> n" "?c \<le> s" "s + n \<le> ?u" using P by (auto simp: packed_Cons)
  have same: "?D k = aData pg k" if "k < s \<or> s + n \<le> k" for k using that by (simp add: zero_bytes_other)
  have hdr: "?D k = aData pg k" if "k < gap pg" for k by (rule same) (use that sn ls in auto)
  have ch: "chain ?D (?h + 1) fb"
  proof -
    have "fbody ?D 0 fb = fbody (aData pg) 0 fb"
    proof (rule fbody_cong, rule same)
      fix a m k assume "(a, m) \<in> set fb" "k < (4 :: nat)"
      then show "a + k < s \<or> s + n \<le> a + k"
        using packed_apart [OF P, of "(a, m)"] packed_in [OF packed_tail [OF P], of a m] by (auto simp: apart_def)
    qed
    moreover have "get2byte ?D (?h + 1) = get2byte (aData pg) (?h + 1)" by (rule get2byte_cong; rule hdr) (use lo in auto)
    ultimately show ?thesis using ls by (simp add: chain_def)
  qed
  have cells: "cells_at ?D cs"
  proof (rule cells_at_frame)
    fix a m k assume "(a, m) \<in> set (ivls cs)" "a \<le> k" "k < a + m"
    then show "?D k = aData pg k" using packed_apart [OF P, of "(a, m)"] by (intro same) (auto simp: apart_def)
  qed (use ls in simp)
  have c7: "?D (?h + 7) = aData pg (?h + 7)" by (rule hdr) (use lo in simp)
  obtain L R L' R' t e g where m:
    "freeSpace bt pg s n = freeEnd pg (?D(?h + 7 := ?D (?h + 7) - of_nat g)) (last_of (?h + 1) L) t (e - t) e (next_of R' 0) n"
    "fb = L @ R" "packed ?c ?u ((t, e - t) # L' @ R' @ ivls cs)" "asc ?c (L' @ R')" "?c \<le> t"
    "\<forall>(p, k) \<in> set L'. p + k + 4 \<le> t" "\<forall>(p, k) \<in> set R'. e + 4 \<le> p" "fbody ?D 0 R'"
    "L = L' \<or> (\<exists>k. L = L' @ [(t, k)])" "g \<le> unat (?D (?h + 7))" "t < e"
    "unat (?D (?h + 7)) - g + total (ivls cs) + (e - t) + total L' + total R' = ?u - ?c"
    by (rule freeSpace_merge [OF P u _ refl ch]) (use ls c7 lo in \<open>auto simp: ac_simps\<close>)
  define D where "D = ?D(?h + 7 := ?D (?h + 7) - of_nat g)"
  have D: "D k = ?D k" if "k \<noteq> ?h + 7" for k using that by (simp add: D_def)
  have far: "D k = ?D k" if "?c \<le> k" for k by (rule D) (use that lo ls in auto)
  have frag: "unat (D (?h + 7)) = unat (?D (?h + 7)) - g"
  proof -
    have "g < 256" using m(10) unat_u8 [of "?D (?h + 7)"] by linarith
    then have "unat (of_nat g :: u8) = g" by (simp add: unat_byte)
    then show ?thesis using m(10) by (simp add: D_def unat_sub word_le_nat_alt)
  qed
  have cont: "?c = get2byteNotZero D (?h + 5)"
    by (rule sym, rule content_frame, rule trans [OF D hdr]) (use lo in auto)
  have lt: "?c < p" if "(p, k) \<in> set fb" for p k using asc_bounds [of "?c + 1" fb p k] ls that by simp
  have Dcells: "cells_at D cs"
    by (rule cells_at_frame [OF cells], rule far) (use packed_in [OF packed_tail [OF P]] in fastforce)
  have Dbody: "fbody D v B = fbody ?D v B" if "set B \<subseteq> set fb \<union> set R'" for v B
  proof (rule fbody_cong, rule far)
    fix a k j :: nat assume "(a, k) \<in> set B"
    then have "(a, k) \<in> set fb \<or> (a, k) \<in> set R'" using that by auto
    then show "?c \<le> a + j" using lt [of a k] packed_in [OF m(3), of a k] by auto
  qed
  have R': "fbody D 0 R'" using m(8) by (simp add: Dbody)
  have good: "\<forall>(a, c) \<in> set cs. good bt pg c" and cu: "?c \<le> ?u" "gap pg \<le> ?c" using ls by auto
  have e: "e \<le> ?u" "?c < 65536" using m(3,11) sn u by (auto simp: packed_Cons)
  have keep: "D k = aData pg k" if "k < gap pg" "k \<noteq> ?h + 7" for k using D [OF that(2)] hdr [OF that(1)] by simp
  show ?thesis
  proof (cases "t = ?c")
    case True
    have L: "L' = []" using m(6) packed_in [OF m(3), of "fst (hd L')" "snd (hd L')"] by (cases L') (auto simp: True)
    moreover have "L = []"
    proof (rule ccontr)
      assume "L \<noteq> []"
      then obtain k where "(t, k) \<in> set L" using m(9) L by auto
      then show False using lt [of t k] True by (simp add: m(2))
    qed
    ultimately have Lm: "last_of (?h + 1) L = ?h + 1" by (simp add: last_of_def)
    have "\<exists>d'. freeEnd pg D (?h + 1) ?c (e - ?c) e (next_of R' 0) n = (SQLITE_OK, pg\<lparr>aData := d', nFree := nFree pg + n\<rparr>) \<and>
      layout bt (pg\<lparr>aData := d', nFree := nFree pg + n\<rparr>) cs [] R' \<and>
      (\<forall>k. k < gap pg \<and> k \<notin> {?h + 1, ?h + 2, ?h + 5, ?h + 6} \<longrightarrow> d' k = D k)"
      by (rule freeEnd_gap [OF sh Dcells good cont e(2) cu(2) e(1)])
        (use m L True R' frag nf in \<open>auto simp: ac_simps\<close>)
    then obtain d' where d': "freeEnd pg D (?h + 1) ?c (e - ?c) e (next_of R' 0) n = (SQLITE_OK, pg\<lparr>aData := d', nFree := nFree pg + n\<rparr>)"
      "layout bt (pg\<lparr>aData := d', nFree := nFree pg + n\<rparr>) cs [] R'"
      "\<And>k. k < gap pg \<Longrightarrow> k \<notin> {?h + 1, ?h + 2, ?h + 5, ?h + 6} \<Longrightarrow> d' k = D k" by auto
    have "freeSpace bt pg s n = freeEnd pg D (?h + 1) ?c (e - ?c) e (next_of R' 0) n" using m(1) by (simp only: D_def Lm True)
    then show ?thesis using d' keep by (intro exI [of _ d'] exI [of _ R']) simp
  next
    case False
    have "\<exists>d'. freeEnd pg D (last_of (?h + 1) L) t (e - t) e (next_of R' 0) n = (SQLITE_OK, pg\<lparr>aData := d', nFree := nFree pg + n\<rparr>) \<and>
      layout bt (pg\<lparr>aData := d', nFree := nFree pg + n\<rparr>) cs [] (L' @ (t, e - t) # R') \<and>
      (\<forall>k. k < gap pg \<and> k \<notin> {?h + 1, ?h + 2} \<longrightarrow> d' k = D k)"
    proof (rule freeEnd_chain [OF sh Dcells good cont e(2) cu(2,1) False m(3) _ m(4,6) _ _ _ _ R' refl _ nf])
      show "unat (D (?h + 7)) + total (ivls cs) + (e - t) + total L' + total R' = ?u - ?c" using m(12) frag by simp
      show "\<forall>(p, k) \<in> set R'. t + (e - t) + 4 \<le> p" using m(7,11) by simp
      have "set L' \<subseteq> set fb" using m(2,9) by auto
      then show "\<forall>(p, k) \<in> set L'. ?c < p" using lt by auto
      show "get2byte D (?h + 1) = next_of L (next_of R 0)"
      proof -
        have "get2byte D (?h + 1) = get2byte ?D (?h + 1)" by (rule get2byte_cong; rule D) auto
        then show ?thesis using ch by (simp add: chain_def m(2) next_of_append)
      qed
      show "fbody D (next_of R 0) L" using ch by (subst Dbody) (auto simp: chain_def m(2) fbody_append)
      show "L' = L \<or> (\<exists>k. L = L' @ [(t, k)])" using m(9) by auto
    qed
    then obtain d' where d': "freeEnd pg D (last_of (?h + 1) L) t (e - t) e (next_of R' 0) n =
        (SQLITE_OK, pg\<lparr>aData := d', nFree := nFree pg + n\<rparr>)"
      "layout bt (pg\<lparr>aData := d', nFree := nFree pg + n\<rparr>) cs [] (L' @ (t, e - t) # R')"
      "\<And>k. k < gap pg \<Longrightarrow> k \<notin> {?h + 1, ?h + 2} \<Longrightarrow> d' k = D k" by auto
    have "freeSpace bt pg s n = freeEnd pg D (last_of (?h + 1) L) t (e - t) e (next_of R' 0) n" using m(1) by (simp only: D_def)
    then show ?thesis using d' keep by (intro exI [of _ d'] exI [of _ "L' @ (t, e - t) # R'"]) simp
  qed
qed

end
