(* ===== verification/BtOps.thy ===== *)
theory BtOps
  imports BtFree
begin

text \<open>
  Inserting and dropping a cell are the operations of a list: the abstract page is the list of its
  cells, and the invariant of \<^theory_text>\<open>BtRefine\<close> is kept.
\<close>

unbundle bit_operations_syntax

subsection \<open>Moving a layout to other data\<close>

lemma layout_data:
  assumes l: "layout bt pg cs xs fb" and gap: "cellOffset pg + 2 * m \<le> content pg"
    and hdr: "\<forall>k \<in> {hdrOffset pg + 1, hdrOffset pg + 2, hdrOffset pg + 5, hdrOffset pg + 6, hdrOffset pg + 7}. d' k = aData pg k"
    and body: "\<And>k. content pg \<le> k \<Longrightarrow> \<forall>(a, n) \<in> set xs. k < a \<or> a + n \<le> k \<Longrightarrow> d' k = aData pg k"
  shows "layout bt (pg\<lparr>nCell := m, nFree := f, aData := d'\<rparr>) cs xs fb"
proof -
  note ls = l [unfolded layout_def]
  let ?c = "content pg" and ?h = "hdrOffset pg"
  have P: "packed ?c (usableSize bt) ((ivls cs @ fb) @ xs)"
    using ls by (auto simp: packed_append apart_sym)
  have same: "d' k = aData pg k" if "(a, n) \<in> set (ivls cs @ fb)" "a \<le> k" "k < a + n" for a n k
  proof (rule body)
    show "?c \<le> k" using packed_in [OF P, of a n] that by auto
    show "\<forall>(b, j) \<in> set xs. k < b \<or> b + j \<le> k"
    proof safe
      fix b j assume "(b, j) \<in> set xs" "\<not> b + j \<le> k"
      moreover from this have "apart (a, n) (b, j)" using packed_apart_append [OF P that(1)] by simp
      ultimately show "k < b" using that by (auto simp: apart_def)
    qed
  qed
  have "fbody d' 0 fb = fbody (aData pg) 0 fb"
  proof (rule fbody_cong)
    fix a n k assume "(a, n) \<in> set fb" "k < (4 :: nat)"
    then show "d' (a + k) = aData pg (a + k)" using packed_in [OF P, of a n] by (intro same [of a n]) auto
  qed
  moreover have "get2byte d' (?h + 1) = get2byte (aData pg) (?h + 1)" by (rule get2byte_cong) (use hdr in auto)
  moreover have "get2byteNotZero d' (?h + 5) = ?c"
  proof (rule content_frame)
    fix k assume "?h + 5 \<le> k" "k < ?h + 7"
    then have "k = ?h + 5 \<or> k = ?h + 6" by arith
    then show "d' k = aData pg k" using hdr by auto
  qed
  moreover have "cells_at d' cs" by (rule cells_at_frame [of "aData pg"]) (use ls same in auto)
  ultimately show ?thesis using ls gap hdr by (simp add: layout_def chain_def)
qed

text \<open>The space taken is filled with a cell, or given up by one.\<close>

lemma ivls_insert: "ivls (take i cs @ x # drop i cs) = ivls (take i cs) @ (fst x, length (snd x)) # ivls (drop i cs)"
  by (cases x) simp

lemma ivls_take_drop: "ivls (take i cs) @ ivls (drop i cs) = ivls cs"
  by (simp flip: ivls_simps(3))

lemma layout_fill:
  "layout bt pg cs [(a, length c)] fb \<Longrightarrow> holds (\<lambda>k. aData pg (a + k)) c \<Longrightarrow> good bt pg c \<Longrightarrow>
   layout bt pg (take i cs @ (a, c) # drop i cs) [] fb"
proof -
  assume l: "layout bt pg cs [(a, length c)] fb" and c: "holds (\<lambda>k. aData pg (a + k)) c" "good bt pg c"
  have "set (take i cs) \<union> set (drop i cs) = set cs" by (metis append_take_drop_id set_append)
  then have "cells_at (aData pg) (take i cs @ (a, c) # drop i cs)" "\<forall>(b, e) \<in> set (take i cs @ (a, c) # drop i cs). good bt pg e"
    using l c by (auto simp: layout_def cells_at_def)
  moreover have "packed (content pg) (usableSize bt) (ivls (take i cs @ (a, c) # drop i cs) @ [] @ fb)"
    using l packed_move [of "content pg" "usableSize bt" "ivls (take i cs)" "(a, length c)" "ivls (drop i cs) @ fb"]
      packed_move [of "content pg" "usableSize bt" "ivls cs" "(a, length c)" fb]
      ivls_take_drop [of i cs] by (simp add: layout_def) (metis append.assoc)
  moreover have "total (ivls (take i cs)) + total (ivls (drop i cs)) = total (ivls cs)"
    using arg_cong [OF ivls_take_drop [of i cs], of total] by simp
  ultimately show ?thesis using l by (simp add: layout_def)
qed

lemma layout_take_out:
  "layout bt pg (A @ (a, c) # B) [] fb \<Longrightarrow> layout bt pg (A @ B) [(a, length c)] fb"
proof -
  assume l: "layout bt pg (A @ (a, c) # B) [] fb"
  have "packed (content pg) (usableSize bt) (ivls (A @ B) @ [(a, length c)] @ fb)"
    using l packed_move [of "content pg" "usableSize bt" "ivls A" "(a, length c)" "ivls B @ fb"]
      packed_move [of "content pg" "usableSize bt" "ivls (A @ B)" "(a, length c)" fb] by (simp add: layout_def)
  then show ?thesis using l by (simp add: layout_def cells_at_def)
qed

subsection \<open>Inserting\<close>

lemma put_bytes_twice:
  "length ys \<le> length xs \<Longrightarrow> put_bytes (put_bytes d a xs) a ys = put_bytes d a (ys @ drop (length ys) xs)"
  by (auto simp: put_bytes_def fun_eq_iff nth_append)

lemma sqlite3Put4byte_length [simp]: "length (sqlite3Put4byte v) = 4"
  by (simp add: sqlite3Put4byte_def)

text \<open>The cell as it is stored: with its left child put in.\<close>

definition stored :: "u32 \<Rightarrow> u8 list \<Rightarrow> u8 list" where
  "stored iChild c = (if iChild \<noteq> 0 then sqlite3Put4byte iChild @ drop 4 c else c)"

lemma length_stored [simp]: "4 \<le> length c \<Longrightarrow> length (stored iChild c) = length c"
  by (simp add: stored_def)

text \<open>The pointer array with one more entry.\<close>

lemma ptrs_insert:
  assumes p: "ptrs_at d off cs" and i: "i \<le> length cs" and a: "a < 65536"
    and e: "d' = put2byte (copy_bytes d (off + 2 * i + 2) d (off + 2 * i) (2 * (length cs - i))) (off + 2 * i) a"
  shows "ptrs_at d' off (take i cs @ (a, c) # drop i cs)"
proof -
  have "get2byte d' (off + 2 * j) = fst ((take i cs @ (a, c) # drop i cs) ! j)" if j: "j < length cs + 1" for j
  proof -
    consider "j < i" | "j = i" | "i < j" by linarith
    then show ?thesis
    proof cases
      case 1
      then have "d' (off + 2 * j) = d (off + 2 * j)" "d' (off + 2 * j + 1) = d (off + 2 * j + 1)"
        by (auto simp: e put2byte_other copy_bytes_other)
      then have "get2byte d' (off + 2 * j) = get2byte d (off + 2 * j)" by (rule get2byte_cong)
      then show ?thesis using 1 p i by (simp add: ptrs_at_def nth_append)
    next
      case 2
      then show ?thesis using a i by (simp add: e get2byte_put2byte nth_append)
    next
      case 3
      have "get2byte d' (off + 2 * j) = get2byte (copy_bytes d (off + 2 * i + 2) d (off + 2 * i) (2 * (length cs - i))) (off + 2 * j)"
        unfolding e by (rule get2byte_put2byte_other) (use 3 in auto)
      also have "\<dots> = get2byte d (off + 2 * i + (off + 2 * j - (off + 2 * i + 2)))"
        by (rule get2byte_copy) (use 3 j in auto)
      also have "off + 2 * i + (off + 2 * j - (off + 2 * i + 2)) = off + 2 * (j - 1)" using 3 by auto
      also have "get2byte d \<dots> = fst (cs ! (j - 1))" using p j 3 by (simp add: ptrs_at_def)
      also have "cs ! (j - 1) = (take i cs @ (a, c) # drop i cs) ! j" using 3 j i
        by (simp add: nth_append nth_Cons' min_def)
      finally show ?thesis .
    qed
  qed
  then show ?thesis using i by (simp add: ptrs_at_def)
qed

lemma insertCell_page:
  assumes inv: "page_inv bt pg cs fb" and c: "4 \<le> length c" "good bt pg (stored iChild c)"
    and i: "i \<le> nCell pg" and fit: "length c + 2 \<le> nFree pg"
  shows "\<exists>pg' cs' fb' idx. insertCell bt SQLITE_OK junk pg i c iChild SQLITE_OK = Done (SQLITE_OK, pg') \<and>
    page_inv bt pg' (take i cs' @ (idx, stored iChild c) # drop i cs') fb' \<and> map snd cs' = map snd cs \<and>
    (\<exists>d'. pg' = pg\<lparr>nCell := nCell pg + 1, nFree := nFree pg - (length c + 2), aData := d'\<rparr> \<and>
      d' (hdrOffset pg) = aData pg (hdrOffset pg))"
proof -
  let ?h = "hdrOffset pg" and ?off = "cellOffset pg" and ?sz = "length c" and ?c = "stored iChild c"
  have s: "page_space bt pg cs [] fb" and ov: "apOvfl pg = []" and nc: "nCell pg = length cs" "get2byte (aData pg) (?h + 3) = nCell pg"
    using inv by (auto simp: page_inv_def page_space_def)
  obtain idx cs1 fb1 d1 where al: "allocateSpace bt junk pg ?sz = Done (SQLITE_OK, idx, pg\<lparr>aData := d1\<rparr>)"
    "map snd cs1 = map snd cs" "page_space bt (pg\<lparr>aData := d1\<rparr>) cs1 [(idx, ?sz)] fb1"
    "gap pg + 2 \<le> content (pg\<lparr>aData := d1\<rparr>)" "same_head pg d1"
    using allocateSpace_space [OF s c(1) fit, of junk] by blast
  let ?p1 = "pg\<lparr>aData := d1\<rparr>"
  note ps = al(3) [unfolded page_space_layout]
  have lay: "layout bt ?p1 cs1 [(idx, ?sz)] fb1" and len: "length cs1 = nCell pg" and ptrs: "ptrs_at d1 ?off cs1"
    and nf: "nFree pg + gap pg + total (ivls cs1) = usableSize bt" using ps by auto
  have sh: "shape bt pg" and lo: "?h + 8 \<le> ?off" and u: "usableSize bt \<le> 65536" using lay by (auto simp: layout_def shape_def)
  have P: "packed (content ?p1) (usableSize bt) ((idx, ?sz) # ivls cs1 @ fb1)"
    using lay packed_move [of "content ?p1" "usableSize bt" "ivls cs1" "(idx, ?sz)" fb1] by (simp add: layout_def)
  then have idx: "content ?p1 \<le> idx" "idx + ?sz \<le> usableSize bt" "idx < 65536" using c(1) u by (auto simp: packed_Cons)
  let ?d2 = "put_bytes d1 idx ?c"
  let ?d3 = "put2byte (copy_bytes ?d2 (?off + 2 * i + 2) ?d2 (?off + 2 * i) (2 * (length cs1 - i))) (?off + 2 * i) idx"
  let ?d4 = "put2byte ?d3 (?h + 3) (nCell pg + 1)"
  have n1: "u16of (nCell pg + 1) = nCell pg + 1" using al(4) lay u by (intro u16of_small) (auto simp: layout_def)
  have n2: "nat ((int (nFree pg) - int (u16of (2 + ?sz))) mod 0x10000) = nFree pg - (?sz + 2)"
  proof -
    have "nFree pg < 65536" using nf lo u by linarith
    then have "u16of (2 + ?sz) = ?sz + 2" "int (nFree pg) - int (?sz + 2) < 65536" using fit by (simp_all add: u16of_small)
    then show ?thesis using fit by (simp add: mod_pos_pos_trivial)
  qed
  have ins: "insertCell bt SQLITE_OK junk pg i c iChild SQLITE_OK =
      Done (SQLITE_OK, pg\<lparr>nCell := nCell pg + 1, nFree := nFree pg - (?sz + 2), aData := ?d4\<rparr>)"
  proof -
    have g: "\<not> (apOvfl pg \<noteq> [] \<or> nFree pg < ?sz + 2)" using ov fit by simp
    have e: "?off + 2 * nCell pg - (?off + 2 * i) = 2 * (length cs1 - i)" using len by simp
    show ?thesis unfolding insertCell_def Let_def al(1)
      by (cases "iChild = 0") (use g n1 n2 e c(1) in \<open>simp_all add: stored_def put_bytes_twice\<close>)
  qed
  have hi: "?d4 k = ?d2 k" if "gap pg + 2 \<le> k" for k
    using that lo i len by (auto simp: put2byte_other copy_bytes_other)
  have low: "?d4 k = d1 k" if "k < ?off" "k \<noteq> ?h + 3" "k \<noteq> ?h + 4" for k
    using that idx(1) al(4) by (auto simp: put2byte_other copy_bytes_other put_bytes_other)
  let ?pg = "pg\<lparr>nCell := nCell pg + 1, nFree := nFree pg - (?sz + 2), aData := ?d4\<rparr>"
  have "layout bt (?p1\<lparr>nCell := nCell pg + 1, nFree := nFree pg - (?sz + 2), aData := ?d4\<rparr>) cs1 [(idx, ?sz)] fb1"
  proof (rule layout_data [OF lay])
    show "cellOffset ?p1 + 2 * (nCell pg + 1) \<le> content ?p1" using al(4) by simp
    fix k assume "content ?p1 \<le> k" "\<forall>(a, n) \<in> set [(idx, ?sz)]. k < a \<or> a + n \<le> k"
    then show "?d4 k = aData ?p1 k" using al(4) c(1) by (subst hi) (auto simp: put_bytes_other)
  qed (use low lo in auto)
  then have "layout bt ?pg cs1 [(idx, length ?c)] fb1" using c(1) by simp
  moreover have "holds (\<lambda>k. aData ?pg (idx + k)) ?c"
    by (rule holds_cong [OF _ holds_put_bytes [of d1 idx]]) (use hi al(4) idx in simp)
  ultimately have L: "layout bt ?pg (take i cs1 @ (idx, ?c) # drop i cs1) [] fb1"
    using c(2) by (intro layout_fill) simp_all
  have "ptrs_at ?d2 ?off cs1" by (rule ptrs_at_frame [OF ptrs]) (use idx(1) al(4) len in \<open>auto intro!: put_bytes_other\<close>)
  from ptrs_insert [OF this _ idx(3) refl, of i ?c] have "ptrs_at ?d3 ?off (take i cs1 @ (idx, ?c) # drop i cs1)" using i len by simp
  then have "ptrs_at ?d4 ?off (take i cs1 @ (idx, ?c) # drop i cs1)"
    by (rule ptrs_at_frame) (use lo in \<open>auto intro!: put2byte_other\<close>)
  moreover have "total (ivls (take i cs1)) + total (ivls (drop i cs1)) = total (ivls cs1)"
    using arg_cong [OF ivls_take_drop [of i cs1], of total] by simp
  ultimately have "page_space bt ?pg (take i cs1 @ (idx, ?c) # drop i cs1) [] fb1"
    using L nf fit c(1) len i by (simp add: page_space_layout ivls_insert)
  moreover have "get2byte ?d4 (?h + 3) = nCell pg + 1" using n1 by (simp add: get2byte_put2byte u16of_def)
  ultimately have "page_inv bt ?pg (take i cs1 @ (idx, ?c) # drop i cs1) fb1" using ov by (simp add: page_inv_def)
  moreover have "?d4 ?h = aData pg ?h" using low [of ?h] lo al(5) by (simp add: same_head_def)
  ultimately show ?thesis using ins al(2) by blast
qed

text \<open>No room, or cells that overflowed before: the cell is kept aside, and the page stays as it is.\<close>

lemma insertCell_overflow:
  "apOvfl pg \<noteq> [] \<or> nFree pg < length c + 2 \<Longrightarrow>
   insertCell bt wrc junk pg i c iChild SQLITE_OK = Done (SQLITE_OK, pg\<lparr>apOvfl := apOvfl pg @ [(u16of i, stored iChild c)]\<rparr>)"
  by (auto simp: insertCell_def stored_def)

subsection \<open>Dropping\<close>

lemma page_inv_empty:
  assumes "shape bt pg" "apOvfl pg = []" "nCell pg = 0" "get2byte (aData pg) (hdrOffset pg + 1) = 0"
    "get2byte (aData pg) (hdrOffset pg + 3) = 0" "aData pg (hdrOffset pg + 7) = 0" "content pg = usableSize bt"
    "nFree pg = usableSize bt - cellOffset pg"
  shows "page_inv bt pg [] []"
proof -
  have "cellOffset pg \<le> usableSize bt" using assms(1) by (simp add: shape_def)
  then show ?thesis using assms
    by (simp add: page_inv_def page_space_def ptrs_at_def cells_at_def chain_def)
qed

lemma ptrs_remove:
  assumes p: "ptrs_at d off cs" and i: "i < length cs"
    and e: "d' = copy_bytes d (off + 2 * i) d (off + 2 * i + 2) (2 * (length cs - 1 - i))"
  shows "ptrs_at d' off (take i cs @ drop (Suc i) cs)"
proof -
  have "get2byte d' (off + 2 * j) = fst ((take i cs @ drop (Suc i) cs) ! j)" if j: "j < length cs - 1" for j
  proof (cases "j < i")
    case True
    then have "d' (off + 2 * j) = d (off + 2 * j)" "d' (off + 2 * j + 1) = d (off + 2 * j + 1)"
      by (auto simp: e copy_bytes_other)
    then have "get2byte d' (off + 2 * j) = get2byte d (off + 2 * j)" by (rule get2byte_cong)
    then show ?thesis using True p i by (simp add: ptrs_at_def nth_append)
  next
    case False
    have "get2byte d' (off + 2 * j) = get2byte d (off + 2 * i + 2 + (off + 2 * j - (off + 2 * i)))"
      unfolding e by (rule get2byte_copy) (use False j in auto)
    also have "off + 2 * i + 2 + (off + 2 * j - (off + 2 * i)) = off + 2 * (j + 1)" using False by auto
    also have "get2byte d \<dots> = fst (cs ! (j + 1))" by (rule p [unfolded ptrs_at_def, rule_format]) (use j in simp)
    also have "cs ! (j + 1) = (take i cs @ drop (Suc i) cs) ! j" using False j i by (simp add: nth_append min_def)
    finally show ?thesis .
  qed
  then show ?thesis using i by (simp add: ptrs_at_def)
qed

lemma dropCell_page:
  assumes inv: "page_inv bt pg cs fb" and i: "i < nCell pg" and sz: "sz = length (snd (cs ! i))"
  shows "\<exists>pg' fb' d'. dropCell bt pg i sz SQLITE_OK = (SQLITE_OK, pg') \<and>
    page_inv bt pg' (take i cs @ drop (Suc i) cs) fb' \<and>
    pg' = pg\<lparr>nCell := nCell pg - 1, nFree := nFree pg + (sz + 2), aData := d'\<rparr> \<and> d' (hdrOffset pg) = aData pg (hdrOffset pg)"
proof -
  let ?h = "hdrOffset pg" and ?off = "cellOffset pg" and ?u = "usableSize bt" and ?cs = "take i cs @ drop (Suc i) cs"
  obtain a c where ac: "cs ! i = (a, c)" by fastforce
  have ov: "apOvfl pg = []" and nc: "nCell pg = length cs" and ptrs: "ptrs_at (aData pg) ?off cs"
    and nf: "nFree pg + gap pg + total (ivls cs) = ?u" and lay: "layout bt pg cs [] fb"
    using inv by (auto simp: page_inv_def page_space_layout)
  have sh: "shape bt pg" and lo: "?h + 8 \<le> ?off" and u: "?u \<le> 65536" using lay by (auto simp: layout_def shape_def)
  have cs: "cs = take i cs @ (a, c) # drop (Suc i) cs" using id_take_nth_drop [of i cs] i nc ac by simp
  have c: "sz = length c" using sz ac by simp
  have out: "layout bt pg ?cs [(a, sz)] fb" using lay layout_take_out [of bt pg "take i cs" a c "drop (Suc i) cs" fb] cs c by metis
  have P: "packed (content pg) ?u ((a, sz) # ivls ?cs @ fb)"
    using out packed_move [of "content pg" ?u "ivls ?cs" "(a, sz)" fb] by (simp add: layout_def)
  then have a: "4 \<le> sz" "content pg \<le> a" "a + sz \<le> ?u" by (auto simp: packed_Cons)
  have T: "total (ivls ?cs) + sz = total (ivls cs)" using arg_cong [OF cs, of "\<lambda>x. total (ivls x)"] c by simp
  have fit: "nFree pg + sz < 65536" using nf T lo u by linarith
  obtain d1 fb1 where fs: "freeSpace bt pg a sz = (SQLITE_OK, pg\<lparr>aData := d1, nFree := nFree pg + sz\<rparr>)"
    "layout bt (pg\<lparr>aData := d1, nFree := nFree pg + sz\<rparr>) ?cs [] fb1"
    "\<And>k. k < gap pg \<Longrightarrow> k \<notin> {?h + 1, ?h + 2, ?h + 5, ?h + 6, ?h + 7} \<Longrightarrow> d1 k = aData pg k"
    using freeSpace_layout [OF out fit] by blast
  have pc: "get2byte (aData pg) (?off + 2 * i) = a" using ptrs i nc ac by (simp add: ptrs_at_def)
  have small: "u16of a = a" "u16of sz = sz" using a u fit by (simp_all add: u16of_small)
  have guard: "\<not> (a < get2byte (aData pg) (?h + 5) \<or> ?u < a + sz)"
    using a by (auto simp: get2byteNotZero_eq split: if_splits)
  have drop: "dropCell bt pg i sz SQLITE_OK =
     (if nCell pg - 1 = 0
      then (SQLITE_OK, pg\<lparr>aData := put2byte ((zero_bytes d1 (?h + 1) 4)(?h + 7 := 0)) (?h + 5) ?u,
        nFree := u16of (?u - ?h - childPtrSize pg - 8), nCell := 0\<rparr>)
      else (SQLITE_OK, pg\<lparr>aData := put2byte (copy_bytes d1 (?off + 2 * i) d1 (?off + 2 * i + 2) (2 * (nCell pg - 1 - i))) (?h + 3) (nCell pg - 1),
        nFree := u16of (nFree pg + sz + 2), nCell := nCell pg - 1\<rparr>))"
    using guard by (simp add: dropCell_def Let_def pc small fs(1))
  have total: "nFree pg + sz + 2 = ?u - (?off + 2 * (nCell pg - 1) + total (ivls ?cs))"
    using nf T i by linarith
  have un: "u16of (nFree pg + sz + 2) = nFree pg + sz + 2" using nf T lo u i by (intro u16of_small) linarith
  show ?thesis
  proof (cases "nCell pg - 1 = 0")
    case True
    let ?d = "put2byte ((zero_bytes d1 (?h + 1) 4)(?h + 7 := 0)) (?h + 5) ?u"
    have one: "i = 0" "length cs = 1" using True i nc by auto
    then have e: "?cs = []" by simp
    have off: "?off = ?h + 8 + childPtrSize pg" and u0: "?u > ?off" using sh by (auto simp: shape_def)
    have nf': "u16of (?u - ?h - childPtrSize pg - 8) = nFree pg + sz + 2"
    proof -
      have "?u - ?h - childPtrSize pg - 8 = nFree pg + sz + 2" using total True off by (simp add: e)
      then show ?thesis using un by simp
    qed
    let ?pg = "pg\<lparr>nCell := nCell pg - 1, nFree := nFree pg + (sz + 2), aData := ?d\<rparr>"
    have z: "?d k = 0" if "k \<in> {?h + 1, ?h + 2, ?h + 3, ?h + 4, ?h + 7}" for k
      using that by (auto simp: put2byte_other zero_bytes_def)
    have "page_inv bt ?pg [] []"
    proof (rule page_inv_empty)
      show "get2byte (aData ?pg) (hdrOffset ?pg + 1) = 0" "get2byte (aData ?pg) (hdrOffset ?pg + 3) = 0"
        by (simp_all only: get2byte_zero; simp add: put2byte_other zero_bytes_def)+
      show "content ?pg = ?u" using u u0 by (simp add: get2byteNotZero_put)
      show "nFree ?pg = ?u - cellOffset ?pg" using total True e by simp
    qed (use sh ov True z in simp_all)
    moreover have "?d ?h = aData pg ?h" using fs(3) [of ?h] lo by (simp add: put2byte_other zero_bytes_other)
    ultimately show ?thesis unfolding drop e using True nf'
      by (intro exI [of _ ?pg] exI [of _ "[]"] exI [of _ ?d]) simp
  next
    case False
    let ?d2 = "copy_bytes d1 (?off + 2 * i) d1 (?off + 2 * i + 2) (2 * (nCell pg - 1 - i))"
    let ?d = "put2byte ?d2 (?h + 3) (nCell pg - 1)"
    let ?p1 = "pg\<lparr>aData := d1, nFree := nFree pg + sz\<rparr>"
    let ?pg = "pg\<lparr>nCell := nCell pg - 1, nFree := nFree pg + (sz + 2), aData := ?d\<rparr>"
    have cont: "gap pg \<le> content ?p1" using fs(2) by (simp add: layout_def)
    have same: "?d k = d1 k" if "k < ?off \<or> gap pg \<le> k" "k \<noteq> ?h + 3" "k \<noteq> ?h + 4" for k
      using that i by (auto simp: put2byte_other copy_bytes_other)
    have "layout bt (?p1\<lparr>nCell := nCell pg - 1, nFree := nFree pg + (sz + 2), aData := ?d\<rparr>) ?cs [] fb1"
      by (rule layout_data [OF fs(2)]) (use cont lo same in auto)
    then have "layout bt ?pg ?cs [] fb1" by simp
    moreover have "ptrs_at ?d ?off ?cs"
    proof -
      have "ptrs_at d1 ?off cs" by (rule ptrs_at_frame [OF ptrs], rule fs(3)) (use nc lo in auto)
      from ptrs_remove [OF this _ refl] have "ptrs_at ?d2 ?off ?cs" using i nc by simp
      then show ?thesis by (rule ptrs_at_frame) (use lo in \<open>auto intro!: put2byte_other\<close>)
    qed
    moreover have "get2byte ?d (?h + 3) = nCell pg - 1"
      using nf u lo by (simp add: get2byte_put2byte)
    ultimately have "page_inv bt ?pg ?cs fb1"
      using ov total nc i nf T by (simp add: page_inv_def page_space_layout min_def; linarith)
    moreover have "?d ?h = aData pg ?h" using fs(3) [of ?h] lo same [of ?h] by simp
    ultimately show ?thesis unfolding drop using False un
      by (intro exI [of _ ?pg] exI [of _ fb1] exI [of _ ?d]) simp
  qed
qed

end
