(* ===== verification/BtSpec.thy ===== *)
theory BtSpec
  imports BtOps
begin

text \<open>
  The page as its users see it: \<^theory_text>\<open>page_cells\<close> reads the cells in the order of the pointers.  From
  \<^verbatim>\<open>zeroPage\<close> on, every history of insertions and deletions is the same history on a list of cells,
  the free space is what is left, and \<^verbatim>\<open>btreeInitPage\<close> rebuilds the header in memory from the bytes.
\<close>

unbundle bit_operations_syntax

subsection \<open>The page read back\<close>

definition cell_bytes :: "bt_shared \<Rightarrow> mem_page \<Rightarrow> nat \<Rightarrow> u8 list" where
  "cell_bytes bt pg i =
     (let pc = findCell pg i in map (\<lambda>k. aData pg (pc + k)) [0..<cellSizePtr bt pg (\<lambda>k. aData pg (pc + k))])"

definition page_cells :: "bt_shared \<Rightarrow> mem_page \<Rightarrow> u8 list list" where
  "page_cells bt pg = map (cell_bytes bt pg) [0..<nCell pg]"

text \<open>What a list of cells leaves of a page.\<close>

definition room :: "bt_shared \<Rightarrow> mem_page \<Rightarrow> u8 list list \<Rightarrow> nat" where
  "room bt pg cells = usableSize bt - (cellOffset pg + 2 * length cells + sum_list (map length cells))"

text \<open>The parameters of a database file, and a header in memory that agrees with the flags on the page.\<close>

definition geometry :: "bt_shared \<Rightarrow> bool" where
  "geometry bt \<longleftrightarrow> 480 \<le> usableSize bt \<and> usableSize bt \<le> pageSize bt \<and> pageSize bt \<in> (\<lambda>k. 2 ^ k) ` {9..16}"

definition readable :: "bt_shared \<Rightarrow> mem_page \<Rightarrow> bool" where
  "readable bt pg \<longleftrightarrow> decodeFlags bt pg (unat (aData pg (hdrOffset pg))) = (SQLITE_OK, pg) \<and>
     isInit pg \<and> maskPage pg = u16of (pageSize bt - 1)"

definition page_state :: "bt_shared \<Rightarrow> mem_page \<Rightarrow> u8 list list \<Rightarrow> bool" where
  "page_state bt pg cells \<longleftrightarrow> readable bt pg \<and> (\<exists>cs fb. page_inv bt pg cs fb \<and> map snd cs = cells)"

lemma page_state_nCell: "page_state bt pg cells \<Longrightarrow> nCell pg = length cells"
  by (auto simp: page_state_def page_inv_def page_space_def)

lemma page_state_nFree: "page_state bt pg cells \<Longrightarrow> nFree pg = room bt pg cells"
proof -
  assume "page_state bt pg cells"
  then obtain cs fb where p: "page_inv bt pg cs fb" "cells = map snd cs" by (auto simp: page_state_def)
  then have "nFree pg + gap pg + total (ivls cs) = usableSize bt" "nCell pg = length cs"
    by (auto simp: page_inv_def page_space_def)
  then show ?thesis using p(2) unfolding room_def total_ivls by simp
qed

lemma readable_mask:
  assumes "geometry bt" "readable bt pg" "v < usableSize bt"
  shows "maskPage pg AND v = v"
proof -
  obtain k where k: "pageSize bt = 2 ^ k" "9 \<le> k" "k \<le> 16" using assms(1) by (auto simp: geometry_def)
  have "(2 :: nat) ^ k \<le> 2 ^ 16" using k by (intro power_increasing) auto
  then have "maskPage pg = 2 ^ k - 1" using assms(2) k by (simp add: readable_def u16of_def)
  then have "maskPage pg AND v = take_bit k v"
    by (simp add: take_bit_eq_mask mask_eq_exp_minus_1 ac_simps)
  also have "\<dots> = v" using assms(1,3) k by (intro take_bit_nat_eq_self) (simp add: geometry_def)
  finally show ?thesis .
qed

lemma page_state_cells:
  assumes g: "geometry bt" and s: "page_state bt pg cells"
  shows "page_cells bt pg = cells"
    "\<And>i. i < length cells \<Longrightarrow> cellSizePtr bt pg (\<lambda>k. aData pg (findCell pg i + k)) = length (cells ! i)"
proof -
  obtain cs fb where p: "page_inv bt pg cs fb" "cells = map snd cs" and r: "readable bt pg"
    using s by (auto simp: page_state_def)
  note ps = p(1) [unfolded page_inv_def page_space_def]
  have one: "findCell pg i = fst (cs ! i)" "holds (\<lambda>k. aData pg (fst (cs ! i) + k)) (snd (cs ! i))" "good bt pg (snd (cs ! i))"
    if i: "i < length cs" for i
  proof -
    obtain a c where ac: "cs ! i = (a, c)" by fastforce
    have "(a, c) \<in> set cs" using i ac nth_mem by metis
    then have m: "(a, length c) \<in> set (ivls cs @ fb)" "good bt pg c" "holds (\<lambda>k. aData pg (a + k)) c"
      using ps by (force simp: ivls_def, auto simp: cells_at_def)
    then have "a < usableSize bt" using ps packed_in [of _ _ "ivls cs @ fb"] by fastforce
    moreover have "get2byte (aData pg) (cellOffset pg + 2 * i) = a" using ps i ac by (simp add: ptrs_at_def)
    ultimately show "findCell pg i = fst (cs ! i)" using readable_mask [OF g r] by (simp add: findCell_def ac)
    show "holds (\<lambda>k. aData pg (fst (cs ! i) + k)) (snd (cs ! i))" "good bt pg (snd (cs ! i))" using m ac by simp_all
  qed
  show sz: "cellSizePtr bt pg (\<lambda>k. aData pg (findCell pg i + k)) = length (cells ! i)" if "i < length cells" for i
    using one [of i] that by (simp add: p(2) good_def)
  have "cell_bytes bt pg i = cells ! i" if "i < length cells" for i
  proof (rule nth_equalityI)
    show "length (cell_bytes bt pg i) = length (cells ! i)" using sz [OF that] by (simp add: cell_bytes_def Let_def)
    fix k assume "k < length (cell_bytes bt pg i)"
    then have "k < length (cells ! i)" using sz [OF that] by (simp add: cell_bytes_def Let_def)
    then show "cell_bytes bt pg i ! k = cells ! i ! k"
      using one [of i] that sz [OF that] by (simp add: cell_bytes_def Let_def p(2) holds_def)
  qed
  then show "page_cells bt pg = cells"
    by (intro nth_equalityI) (simp_all add: page_cells_def page_state_nCell [OF s])
qed

text \<open>The flags stay, so the header in memory does.\<close>

lemma decodeFlags_kept:
  "decodeFlags bt (pg\<lparr>nCell := m, nFree := n, aData := d\<rparr>) f =
   (case decodeFlags bt pg f of (rc, pg') \<Rightarrow> (rc, pg'\<lparr>nCell := m, nFree := n, aData := d\<rparr>))"
  by (simp add: decodeFlags_def Let_def)

lemma decodeFlags_update:
  "decodeFlags bt pg f = (SQLITE_OK, pg) \<Longrightarrow>
   decodeFlags bt (pg\<lparr>nCell := m, nFree := n, aData := d\<rparr>) f = (SQLITE_OK, pg\<lparr>nCell := m, nFree := n, aData := d\<rparr>)"
  by (simp add: decodeFlags_kept)

lemma readable_update:
  "readable bt pg \<Longrightarrow> d (hdrOffset pg) = aData pg (hdrOffset pg) \<Longrightarrow> readable bt (pg\<lparr>nCell := m, nFree := n, aData := d\<rparr>)"
  unfolding readable_def by (simp add: decodeFlags_update)

lemma readable_data: "readable bt pg \<Longrightarrow> d (hdrOffset pg) = aData pg (hdrOffset pg) \<Longrightarrow> readable bt (pg\<lparr>aData := d\<rparr>)"
proof -
  have "decodeFlags bt (pg\<lparr>aData := d\<rparr>) f = (case decodeFlags bt pg f of (rc, pg') \<Rightarrow> (rc, pg'\<lparr>aData := d\<rparr>))" for f
    by (simp add: decodeFlags_def Let_def)
  then show "readable bt pg \<Longrightarrow> d (hdrOffset pg) = aData pg (hdrOffset pg) \<Longrightarrow> readable bt (pg\<lparr>aData := d\<rparr>)"
    by (simp add: readable_def)
qed

text \<open>What the operations leave alone: the kind of the page, its header offset and the measure of cells.\<close>

definition same_kind :: "bt_shared \<Rightarrow> mem_page \<Rightarrow> mem_page \<Rightarrow> bool" where
  "same_kind bt pg pg' \<longleftrightarrow> cellOffset pg' = cellOffset pg \<and> hdrOffset pg' = hdrOffset pg \<and> good bt pg' = good bt pg"

lemma insert_state:
  assumes s: "page_state bt pg cells" and i: "i \<le> length cells" and c: "4 \<le> length c" "good bt pg (stored iChild c)"
    and fit: "length c + 2 \<le> room bt pg cells"
  shows "\<exists>pg'. insertCell bt SQLITE_OK junk pg i c iChild SQLITE_OK = Done (SQLITE_OK, pg') \<and>
    page_state bt pg' (take i cells @ stored iChild c # drop i cells) \<and> same_kind bt pg pg'"
proof -
  obtain cs fb where p: "page_inv bt pg cs fb" "cells = map snd cs" and r: "readable bt pg"
    using s by (auto simp: page_state_def)
  have "i \<le> nCell pg" "length c + 2 \<le> nFree pg"
    using i fit page_state_nCell [OF s] page_state_nFree [OF s] by simp_all
  from insertCell_page [OF p(1) c this, of junk] obtain pg' cs' fb' idx d' where
    "insertCell bt SQLITE_OK junk pg i c iChild SQLITE_OK = Done (SQLITE_OK, pg')"
    "page_inv bt pg' (take i cs' @ (idx, stored iChild c) # drop i cs') fb'" "map snd cs' = map snd cs"
    "pg' = pg\<lparr>nCell := nCell pg + 1, nFree := nFree pg - (length c + 2), aData := d'\<rparr>" "d' (hdrOffset pg) = aData pg (hdrOffset pg)"
    by blast
  moreover from this have "map snd (take i cs' @ (idx, stored iChild c) # drop i cs') = take i cells @ stored iChild c # drop i cells"
    by (simp add: p(2) flip: take_map drop_map)
  moreover have "readable bt pg'" using calculation(4,5) readable_update [OF r] by simp
  ultimately show ?thesis by (auto simp: page_state_def same_kind_def)
qed

lemma drop_state:
  assumes s: "page_state bt pg cells" and i: "i < length cells"
  shows "\<exists>pg'. dropCell bt pg i (length (cells ! i)) SQLITE_OK = (SQLITE_OK, pg') \<and>
    page_state bt pg' (take i cells @ drop (Suc i) cells) \<and> same_kind bt pg pg'"
proof -
  obtain cs fb where p: "page_inv bt pg cs fb" "cells = map snd cs" and r: "readable bt pg"
    using s by (auto simp: page_state_def)
  have n: "i < nCell pg" "length (cells ! i) = length (snd (cs ! i))" using i page_state_nCell [OF s] by (simp_all add: p(2))
  from dropCell_page [OF p(1) n] obtain pg' fb' d' where
    "dropCell bt pg i (length (cells ! i)) SQLITE_OK = (SQLITE_OK, pg')"
    "page_inv bt pg' (take i cs @ drop (Suc i) cs) fb'"
    "pg' = pg\<lparr>nCell := nCell pg - 1, nFree := nFree pg + (length (cells ! i) + 2), aData := d'\<rparr>"
    "d' (hdrOffset pg) = aData pg (hdrOffset pg)" by blast
  moreover have "readable bt pg'" using calculation(3,4) readable_update [OF r] by simp
  moreover have "map snd (take i cs @ drop (Suc i) cs) = take i cells @ drop (Suc i) cells"
    by (simp add: p(2) flip: take_map drop_map)
  ultimately show ?thesis by (auto simp: page_state_def same_kind_def)
qed

subsection \<open>The empty page\<close>

lemma zeroPage_state:
  assumes g: "geometry bt" and h: "hdrOffset pg \<le> 100" and f: "fst (decodeFlags bt pg flags) = SQLITE_OK"
  shows "page_state bt (zeroPage bt pg flags) []"
proof -
  have "decodeFlags bt pg flags = (SQLITE_OK, snd (decodeFlags bt pg flags))" using f by (simp add: prod_eq_iff)
  then have f: "flags \<in> {2, 5, 10, 13}" by (rule decodeFlags_cases)
  let ?h = "hdrOffset pg" and ?pg = "zeroPage bt pg flags"
  obtain k where k: "pageSize bt = 2 ^ k" "k \<le> 16" and u: "480 \<le> usableSize bt" "usableSize bt \<le> pageSize bt"
    using g by (auto simp: geometry_def)
  have "(2 :: nat) ^ k \<le> 2 ^ 16" using k by (intro power_increasing) auto
  then have u': "usableSize bt \<le> 65536" using u k by simp
  define D where "D = put2byte ((zero_bytes ((if secureDelete bt then zero_bytes (aData pg) ?h (usableSize bt - ?h) else aData pg)
      (?h := of_nat flags)) (?h + 1) 4)(?h + 7 := 0)) (?h + 5) (usableSize bt)"
  have D: "D ?h = of_nat flags" "get2byte D (?h + 1) = 0" "get2byte D (?h + 3) = 0" "D (?h + 7) = 0"
    "get2byteNotZero D (?h + 5) = usableSize bt"
    using u u' by (simp_all only: get2byte_zero) (simp_all add: D_def put2byte_other zero_bytes_def get2byteNotZero_put)
  have fields: "aData ?pg = D" "hdrOffset ?pg = ?h" "nCell ?pg = 0" "apOvfl ?pg = []" "isInit ?pg"
    "maskPage ?pg = u16of (pageSize bt - 1)" "cellOffset ?pg = u16of (?h + (if flags AND PTF_LEAF = 0 then 12 else 8))"
    "nFree ?pg = u16of (usableSize bt - u16of (?h + (if flags AND PTF_LEAF = 0 then 12 else 8)))"
    by (simp_all add: zeroPage_def Let_def D_def decodeFlags_def)
  have off: "u16of (?h + (if flags AND PTF_LEAF = 0 then 12 else 8)) = ?h + (if flags AND PTF_LEAF = 0 then 12 else 8)"
    using h by (intro u16of_small) simp
  consider "flags = 2" | "flags = 5" | "flags = 10" | "flags = 13" using f by auto
  then have "childPtrSize ?pg = (if flags AND PTF_LEAF = 0 then 4 else 0) \<and> decodeFlags bt ?pg flags = (SQLITE_OK, ?pg)"
    by cases (simp_all add: zeroPage_def Let_def decodeFlags_def PTF_LEAF_def PTF_LEAFDATA_def PTF_INTKEY_def PTF_ZERODATA_def)
  moreover have "unat (D ?h) = flags" using D(1) f by (auto simp: unat_byte)
  ultimately have "readable bt ?pg" and child: "childPtrSize ?pg = (if flags AND PTF_LEAF = 0 then 4 else 0)"
    using fields by (simp_all add: readable_def)
  moreover have "page_inv bt ?pg [] []"
  proof (rule page_inv_empty)
    show "shape bt ?pg" using u u' h by (simp add: shape_def fields child off)
    show "nFree ?pg = usableSize bt - cellOffset ?pg" using u u' h by (simp add: fields off u16of_small)
  qed (unfold fields; rule refl D)+
  ultimately show ?thesis by (auto simp: page_state_def)
qed

subsection \<open>Reading the page\<close>

lemma initFree_chain:
  "fbody d 0 fb \<Longrightarrow> asc lo fb \<Longrightarrow> \<forall>(p, n) \<in> set fb. iFirst \<le> p \<and> p + n \<le> usable \<and> 4 \<le> n \<Longrightarrow>
   initFree d iFirst usable (next_of fb 0) nf = Some (nf + total fb)"
proof (induction fb arbitrary: lo nf)
  case Nil
  then show ?case by (subst initFree.simps) simp
next
  case (Cons b fb)
  obtain p n where b: "b = (p, n)" by (cases b)
  have p: "0 < p" "get2byte d (p + 2) = n" "get2byte d p = next_of fb 0" "iFirst \<le> p" "p + n \<le> usable" "4 \<le> n"
    using Cons.prems by (auto simp: b)
  have rec: "initFree d iFirst usable (next_of fb 0) (nf + n) = Some (nf + n + total fb)"
    using Cons.prems by (intro Cons.IH) (auto simp: b)
  show ?case
  proof (cases "fb = []")
    case True
    then show ?thesis using p by (subst initFree.simps) (simp add: b Let_def)
  next
    case False
    then have "p + n + 4 \<le> next_of fb 0" using Cons.prems(2) by (cases fb) (auto simp: b)
    then show ?thesis using p rec by (subst initFree.simps) (simp add: b Let_def)
  qed
qed

lemma decodeFlags_rc: "fst (decodeFlags bt q f) = fst (decodeFlags bt pg f)"
  by (simp add: decodeFlags_def Let_def)

lemma decodeFlags_other:
  "hdrOffset (snd (decodeFlags bt q f)) = hdrOffset q" "aData (snd (decodeFlags bt q f)) = aData q"
  "isInit (snd (decodeFlags bt q f)) = isInit q" "nFree (snd (decodeFlags bt q f)) = nFree q"
  by (simp_all add: decodeFlags_def Let_def)

lemma decodeFlags_set:
  assumes "decodeFlags bt pg f = (SQLITE_OK, pg)"
  shows "leaf (snd (decodeFlags bt q f)) = leaf pg" "childPtrSize (snd (decodeFlags bt q f)) = childPtrSize pg"
    "intKey (snd (decodeFlags bt q f)) = intKey pg" "intKeyLeaf (snd (decodeFlags bt q f)) = intKeyLeaf pg"
    "noPayload (snd (decodeFlags bt q f)) = noPayload pg" "maxLocal (snd (decodeFlags bt q f)) = maxLocal pg"
    "minLocal (snd (decodeFlags bt q f)) = minLocal pg" "max1bytePayload (snd (decodeFlags bt q f)) = max1bytePayload pg"
proof -
  have "f \<in> {2, 5, 10, 13}" by (rule decodeFlags_cases [OF assms])
  then consider "f = 2" | "f = 5" | "f = 10" | "f = 13" by auto
  then have "leaf (snd (decodeFlags bt q f)) = leaf p \<and> childPtrSize (snd (decodeFlags bt q f)) = childPtrSize p \<and>
      intKey (snd (decodeFlags bt q f)) = intKey p \<and> intKeyLeaf (snd (decodeFlags bt q f)) = intKeyLeaf p \<and>
      noPayload (snd (decodeFlags bt q f)) = noPayload p \<and> maxLocal (snd (decodeFlags bt q f)) = maxLocal p \<and>
      minLocal (snd (decodeFlags bt q f)) = minLocal p \<and> max1bytePayload (snd (decodeFlags bt q f)) = max1bytePayload p"
    if "p = snd (decodeFlags bt pg f)" for p
    unfolding that by cases (simp_all add: decodeFlags_def Let_def PTF_LEAF_def PTF_LEAFDATA_def PTF_INTKEY_def PTF_ZERODATA_def)
  from this [of pg] show "leaf (snd (decodeFlags bt q f)) = leaf pg" "childPtrSize (snd (decodeFlags bt q f)) = childPtrSize pg"
    "intKey (snd (decodeFlags bt q f)) = intKey pg" "intKeyLeaf (snd (decodeFlags bt q f)) = intKeyLeaf pg"
    "noPayload (snd (decodeFlags bt q f)) = noPayload pg" "maxLocal (snd (decodeFlags bt q f)) = maxLocal pg"
    "minLocal (snd (decodeFlags bt q f)) = minLocal pg" "max1bytePayload (snd (decodeFlags bt q f)) = max1bytePayload pg"
    using assms by simp_all
qed

lemma decodeFlags_child: "decodeFlags bt pg f = (SQLITE_OK, pg) \<Longrightarrow> leaf pg = 0 \<Longrightarrow> childPtrSize pg = 4"
proof -
  assume d: "decodeFlags bt pg f = (SQLITE_OK, pg)" "leaf pg = 0"
  have "f \<in> {2, 5, 10, 13}" by (rule decodeFlags_cases [OF d(1)])
  then consider "f = 2" | "f = 5" | "f = 10" | "f = 13" by auto
  then have "leaf (snd (decodeFlags bt pg f)) = 0 \<longrightarrow> childPtrSize (snd (decodeFlags bt pg f)) = 4"
    by cases (simp_all add: decodeFlags_def Let_def PTF_LEAF_def PTF_LEAFDATA_def PTF_INTKEY_def PTF_ZERODATA_def)
  then show ?thesis using d by simp
qed

lemma initCells_update [simp]: "initCells bt (pg\<lparr>isInit := b, nFree := n\<rparr>) = initCells bt pg"
proof -
  have "cellSizePtr bt (pg\<lparr>isInit := b, nFree := n\<rparr>) = cellSizePtr bt pg"
    by (simp add: fun_eq_iff cellSizePtr_def localPayload_def Let_def case_prod_beta)
  then show ?thesis by (simp add: initCells_def Let_def)
qed

text \<open>What a page in a good state meets when it is read: all of the checks.\<close>

lemma page_checks:
  assumes g: "geometry bt" and r: "readable bt pg" and p: "page_inv bt pg cs fb"
  shows "initCells bt pg" "nCell pg \<le> MX_CELL bt"
    "initFree (aData pg) (gap pg) (usableSize bt) (get2byte (aData pg) (hdrOffset pg + 1))
       (unat (aData pg (hdrOffset pg + 7)) + content pg) = Some (nFree pg + gap pg)"
proof -
  note ps = p [unfolded page_inv_def page_space_def]
  have pk: "packed (content pg) (usableSize bt) (ivls cs @ fb)" and nc: "nCell pg = length cs"
    and cells: "cells_at (aData pg) cs" "ptrs_at (aData pg) (cellOffset pg) cs" and gd: "\<forall>(a, c) \<in> set cs. good bt pg c"
    and ch: "chain (aData pg) (hdrOffset pg + 1) fb" "asc (content pg + 1) fb" and gp: "gap pg \<le> content pg"
    and nf: "nFree pg + gap pg + total (ivls cs) = usableSize bt" and sh: "shape bt pg" using ps by simp_all
  have d: "decodeFlags bt pg (unat (aData pg (hdrOffset pg))) = (SQLITE_OK, pg)" using r by (simp add: readable_def)
  show "initCells bt pg"
    unfolding initCells_def Let_def
  proof (intro allI impI)
    fix i assume i: "i < nCell pg"
    obtain a c where ac: "cs ! i = (a, c)" by fastforce
    have "(a, c) \<in> set cs" using i nc ac nth_mem by metis
    then have m: "(a, length c) \<in> set (ivls cs @ fb)" "good bt pg c" "holds (\<lambda>k. aData pg (a + k)) c"
      using gd cells by (force simp: ivls_def, auto simp: cells_at_def)
    have pc: "get2byte (aData pg) (cellOffset pg + i * 2) = a" using cells(2) i nc ac by (simp add: ptrs_at_def mult.commute)
    have sz: "cellSizePtr bt pg (\<lambda>k. aData pg (a + k)) = length c" "4 \<le> length c" "childPtrSize pg < length c"
      using m by (auto simp: good_def)
    have "leaf pg = 0 \<Longrightarrow> childPtrSize pg = 4" by (rule decodeFlags_child [OF d])
    then show "gap pg \<le> get2byte (aData pg) (cellOffset pg + i * 2) \<and>
        get2byte (aData pg) (cellOffset pg + i * 2) \<le> usableSize bt - 4 - (if leaf pg = 0 then 1 else 0) \<and>
        get2byte (aData pg) (cellOffset pg + i * 2) +
          cellSizePtr bt pg (\<lambda>k. aData pg (get2byte (aData pg) (cellOffset pg + i * 2) + k)) \<le> usableSize bt"
      using packed_in [OF pk m(1)] gp sz(2,3) unfolding pc sz(1) by auto
  qed
  have "4 * length cs \<le> total (ivls cs)"
  proof -
    have "\<forall>(a, c) \<in> set cs. 4 \<le> length c" using gd by (auto simp: good_def)
    then show ?thesis by (induction cs) auto
  qed
  then have "6 * nCell pg + 8 \<le> pageSize bt"
    using nf nc g shape_hdr [OF sh] by (simp add: geometry_def)
  then show "nCell pg \<le> MX_CELL bt" by (simp add: MX_CELL_def less_eq_div_iff_mult_less_eq)
  have "initFree (aData pg) (gap pg) (usableSize bt) (next_of fb 0) (unat (aData pg (hdrOffset pg + 7)) + content pg) =
      Some (unat (aData pg (hdrOffset pg + 7)) + content pg + total fb)"
  proof (rule initFree_chain)
    show "\<forall>(q, n) \<in> set fb. gap pg \<le> q \<and> q + n \<le> usableSize bt \<and> 4 \<le> n"
      using packed_in [OF pk] gp by fastforce
  qed (use ch in \<open>auto simp: chain_def\<close>)
  moreover have "unat (aData pg (hdrOffset pg + 7)) + content pg + total fb = nFree pg + gap pg"
  proof -
    have "unat (aData pg (hdrOffset pg + 7)) + total (ivls cs) + total fb = usableSize bt - content pg"
      "content pg \<le> usableSize bt" "nFree pg + gap pg + total (ivls cs) = usableSize bt" using ps by simp_all
    then show ?thesis by linarith
  qed
  ultimately show "initFree (aData pg) (gap pg) (usableSize bt) (get2byte (aData pg) (hdrOffset pg + 1))
       (unat (aData pg (hdrOffset pg + 7)) + content pg) = Some (nFree pg + gap pg)"
    using ch(1) by (simp add: chain_def)
qed

lemma init_state:
  assumes g: "geometry bt" and s: "page_state bt pg cells"
  shows "btreeInitPage bt (pg0\<lparr>isInit := False, hdrOffset := hdrOffset pg, aData := aData pg\<rparr>) = (SQLITE_OK, pg)"
proof -
  obtain cs fb where p: "page_inv bt pg cs fb" "cells = map snd cs" and r: "readable bt pg"
    using s by (auto simp: page_state_def)
  note ps = p(1) [unfolded page_inv_def page_space_def]
  let ?h = "hdrOffset pg" and ?q0 = "pg0\<lparr>isInit := False, hdrOffset := hdrOffset pg, aData := aData pg\<rparr>"
  let ?f = "unat (aData pg ?h)"
  have d: "decodeFlags bt pg ?f = (SQLITE_OK, pg)" and isI: "isInit pg" and mask: "maskPage pg = u16of (pageSize bt - 1)"
    using r by (simp_all add: readable_def)
  define q where "q = snd (decodeFlags bt ?q0 ?f)"
  have q: "decodeFlags bt ?q0 ?f = (SQLITE_OK, q)" using decodeFlags_rc [of bt ?q0 ?f pg] d by (simp add: q_def prod_eq_iff)
  note set = decodeFlags_set [OF d, of ?q0, folded q_def] and other = decodeFlags_other [of bt ?q0 ?f, folded q_def]
  define q2 where "q2 = q\<lparr>maskPage := u16of (pageSize bt - 1), apOvfl := [], cellOffset := hdrOffset q + 8 + childPtrSize q,
    nCell := get2byte (aData q) (hdrOffset q + 3)\<rparr>"
  have q2: "q2 = pg\<lparr>isInit := False, nFree := nFree q\<rparr>"
    using ps mask set other by (intro mem_page.equality) (simp_all add: q2_def shape_def)
  note ch = page_checks [OF g r p(1)]
  have q0: "isInit ?q0 = False" "hdrOffset ?q0 = ?h" "aData ?q0 = aData pg" by simp_all
  have "btreeInitPage bt ?q0 =
      (if MX_CELL bt < nCell q2 then (SQLITE_CORRUPT, q2)
       else if cellSizeCheck bt \<and> \<not> initCells bt q2 then (SQLITE_CORRUPT, q2)
       else case initFree (aData q) (gap q2) (usableSize bt) (get2byte (aData q) (hdrOffset q + 1))
           (unat (aData q (hdrOffset q + 7)) + get2byteNotZero (aData q) (hdrOffset q + 5)) of
         None \<Rightarrow> (SQLITE_CORRUPT, q2)
       | Some n \<Rightarrow>
           if usableSize bt < n then (SQLITE_CORRUPT, q2)
           else (SQLITE_OK, q2\<lparr>nFree := nat ((int n - int (gap q2)) mod 0x10000), isInit := True\<rparr>))"
    unfolding btreeInitPage_def Let_def by (simp only: q0 q prod.case q2_def if_False simp_thms)
  also have "\<dots> = (SQLITE_OK, pg)"
  proof -
    have "nFree pg + gap pg \<le> usableSize bt" "usableSize bt \<le> 65536" "?h + 8 \<le> cellOffset pg"
    proof -
      have "nFree pg + gap pg + total (ivls cs) = usableSize bt" "shape bt pg" using ps by simp_all
      then show "nFree pg + gap pg \<le> usableSize bt" "usableSize bt \<le> 65536" "?h + 8 \<le> cellOffset pg"
        by (linarith, simp_all add: shape_def)
    qed
    moreover have "pg\<lparr>isInit := True\<rparr> = pg" using isI by (intro mem_page.equality) simp_all
    moreover from calculation have "nat ((int (nFree pg + gap pg) - int (gap pg)) mod 0x10000) = nFree pg" by simp
    moreover have "gap q2 = gap pg" "nCell q2 = nCell pg" "initCells bt q2 = initCells bt pg" by (simp_all add: q2)
    moreover have "q2\<lparr>nFree := nFree pg, isInit := True\<rparr> = pg"
      using isI by (intro mem_page.equality) (simp_all add: q2)
    moreover have "aData q = aData pg" "hdrOffset q = ?h" using other by simp_all
    ultimately show ?thesis using ch by (simp only: option.case) (simp add: not_less)
  qed
  finally show ?thesis .
qed

subsection \<open>Histories\<close>

datatype cell_op = InsertOp nat "u8 list" u32 | DropOp nat

fun list_op :: "cell_op \<Rightarrow> u8 list list \<Rightarrow> u8 list list" where
  "list_op (InsertOp i c iChild) cells = take i cells @ stored iChild c # drop i cells"
| "list_op (DropOp i) cells = take i cells @ drop (Suc i) cells"

fun page_op :: "bt_shared \<Rightarrow> memory \<Rightarrow> cell_op \<Rightarrow> mem_page \<Rightarrow> (int \<times> mem_page) exec" where
  "page_op bt junk (InsertOp i c iChild) pg = insertCell bt SQLITE_OK junk pg i c iChild SQLITE_OK"
| "page_op bt junk (DropOp i) pg =
     Done (dropCell bt pg i (cellSizePtr bt pg (\<lambda>k. aData pg (findCell pg i + k))) SQLITE_OK)"

text \<open>The indexes are in range, and a new cell measures itself and fits.\<close>

fun op_fits :: "bt_shared \<Rightarrow> mem_page \<Rightarrow> cell_op \<Rightarrow> u8 list list \<Rightarrow> bool" where
  "op_fits bt pg (InsertOp i c iChild) cells \<longleftrightarrow>
     i \<le> length cells \<and> 4 \<le> length c \<and> good bt pg (stored iChild c) \<and> length c + 2 \<le> room bt pg cells"
| "op_fits bt pg (DropOp i) cells \<longleftrightarrow> i < length cells"

fun ops_fit :: "bt_shared \<Rightarrow> mem_page \<Rightarrow> cell_op list \<Rightarrow> u8 list list \<Rightarrow> bool" where
  "ops_fit bt pg [] cells \<longleftrightarrow> True"
| "ops_fit bt pg (x # ops) cells \<longleftrightarrow> op_fits bt pg x cells \<and> ops_fit bt pg ops (list_op x cells)"

fun page_ops :: "bt_shared \<Rightarrow> memory \<Rightarrow> cell_op list \<Rightarrow> mem_page \<Rightarrow> (int \<times> mem_page) exec" where
  "page_ops bt junk [] pg = Done (SQLITE_OK, pg)"
| "page_ops bt junk (x # ops) pg =
     exec_bind (page_op bt junk x pg) (\<lambda>(rc, pg). if rc \<noteq> SQLITE_OK then Done (rc, pg) else page_ops bt junk ops pg)"

declare page_ops.simps [simp del]

lemma same_kind_fits: "same_kind bt pg pg' \<Longrightarrow> op_fits bt pg' x cells = op_fits bt pg x cells"
  by (cases x) (simp_all add: same_kind_def room_def)

lemma same_kind_all: "same_kind bt pg pg' \<Longrightarrow> ops_fit bt pg' ops cells = ops_fit bt pg ops cells"
  by (induction ops arbitrary: cells) (simp_all add: same_kind_fits)

lemma op_state:
  assumes g: "geometry bt" and s: "page_state bt pg cells" and f: "op_fits bt pg x cells"
  shows "\<exists>pg'. page_op bt junk x pg = Done (SQLITE_OK, pg') \<and> page_state bt pg' (list_op x cells) \<and> same_kind bt pg pg'"
proof (cases x)
  case (InsertOp i c iChild)
  then show ?thesis using insert_state [OF s, of i c iChild junk] f by simp
next
  case (DropOp i)
  then show ?thesis using drop_state [OF s, of i] page_state_cells(2) [OF g s, of i] f by simp
qed

lemma ops_state:
  assumes g: "geometry bt"
  shows "page_state bt pg cells \<Longrightarrow> ops_fit bt pg ops cells \<Longrightarrow>
    \<exists>pg'. page_ops bt junk ops pg = Done (SQLITE_OK, pg') \<and> page_state bt pg' (fold list_op ops cells) \<and> hdrOffset pg' = hdrOffset pg"
proof (induction ops arbitrary: pg cells)
  case (Cons x ops)
  obtain pg1 where p1: "page_op bt junk x pg = Done (SQLITE_OK, pg1)" "page_state bt pg1 (list_op x cells)" "same_kind bt pg pg1"
    using op_state [OF g Cons.prems(1)] Cons.prems(2) by fastforce
  moreover obtain pg' where "page_ops bt junk ops pg1 = Done (SQLITE_OK, pg')" "page_state bt pg' (fold list_op ops (list_op x cells))"
    "hdrOffset pg' = hdrOffset pg1"
    using Cons.IH [OF p1(2)] Cons.prems(2) same_kind_all [OF p1(3)] by auto
  ultimately show ?case by (simp add: same_kind_def page_ops.simps)
qed (simp add: page_ops.simps)

subsection \<open>Properties\<close>

text \<open>A database of 512-byte pages, and two cells of a leaf of a table.\<close>

definition sample_bt :: bt_shared where
  "sample_bt = setLimits \<lparr>usableSize = 512, pageSize = 512, bt_maxLocal = 0, bt_minLocal = 0, bt_maxLeaf = 0,
     bt_minLeaf = 0, bt_max1bytePayload = 0, secureDelete = True, cellSizeCheck = True\<rparr>"

definition sample_page :: mem_page where
  "sample_page = zeroPage sample_bt \<lparr>isInit = False, apOvfl = [], intKey = False, intKeyLeaf = False, noPayload = False,
     leaf = 0, hdrOffset = 100, childPtrSize = 0, max1bytePayload = 0, maxLocal = 0, minLocal = 0, cellOffset = 0,
     nFree = 0, nCell = 0, maskPage = 0, aData = (\<lambda>k. of_nat (k * 7))\<rparr> 13"

lemma sample_geometry: "geometry sample_bt"
proof -
  have "pageSize sample_bt = 2 ^ 9" "usableSize sample_bt = 512" by (simp_all add: sample_bt_def setLimits_def Let_def)
  moreover have "(2 :: nat) ^ 9 \<in> (\<lambda>k. 2 ^ k) ` {9..16}" by (rule imageI) simp
  ultimately show ?thesis by (simp only: geometry_def) simp
qed

lemma sample_state: "page_state sample_bt sample_page []"
  unfolding sample_page_def
  by (rule zeroPage_state [OF sample_geometry])
    (simp_all add: decodeFlags_def Let_def PTF_LEAF_def PTF_LEAFDATA_def PTF_INTKEY_def PTF_ZERODATA_def SQLITE_OK_def)

lemma sample_fields:
  "childPtrSize sample_page = 0" "cellOffset sample_page = 108" "\<not> noPayload sample_page" "intKey sample_page"
  "maxLocal sample_page = 477" "usableSize sample_bt = 512"
  by (simp_all add: sample_page_def sample_bt_def zeroPage_def setLimits_def decodeFlags_def Let_def PTF_LEAF_def
      PTF_LEAFDATA_def PTF_INTKEY_def PTF_ZERODATA_def SQLITE_OK_def u16of_def)

lemma sample_good: "good sample_bt sample_page [3, 7, 1, 2, 3]" "good sample_bt sample_page [2, 5, 9, 8]"
proof -
  have one: "skipVarint p 1 10 = 2" if "p 1 = b" "b AND 0x80 = 0" for p b
    using that by (subst skipVarint.simps) simp
  have "cellSizePtr sample_bt sample_page p = 2 + n" if "p 0 = of_nat n" "p 1 = b" "b AND 0x80 = 0" "2 \<le> n" "n < 10" for p n b
  proof -
    have w: "of_nat n < (0x80 :: u8)" "unat (ucast (of_nat n :: u8) :: u32) = n"
      using that(5) by (simp_all add: word_less_nat_alt unsigned_of_nat unsigned_ucast_eq take_bit_nat_eq_self)
    then show ?thesis
      using one [of p b] that by (simp add: cellSizePtr_def Let_def sample_fields not_le [symmetric] u16of_def not_less)
  qed
  from this [of _ 3 7] this [of _ 2 5]
  show "good sample_bt sample_page [3, 7, 1, 2, 3]" "good sample_bt sample_page [2, 5, 9, 8]"
    by (simp_all add: good_def sample_fields)
qed

text \<open>
  Property C12.  \<^verbatim>\<open>allocateSpace\<close>, on a page in a good state with room for the request and a pointer,
  returns space that no cell uses: every cell is still read, in the same order and with the same
  bytes, whether the space comes from a free block, from the gap, or after defragmenting the page.
\<close>

theorem allocated_space_is_free:
  assumes "geometry bt" "page_state bt pg cells" "4 \<le> nByte" "nByte + 2 \<le> nFree pg"
  shows "\<exists>idx pg'. allocateSpace bt junk pg nByte = Done (SQLITE_OK, idx, pg') \<and> idx + nByte \<le> usableSize bt \<and>
    cellOffset pg + 2 * (nCell pg + 1) \<le> idx \<and> page_cells bt pg' = page_cells bt pg \<and>
    (\<forall>i < nCell pg'. apart (findCell pg' i, length (cell_bytes bt pg' i)) (idx, nByte))"
proof -
  obtain cs fb where p: "page_inv bt pg cs fb" "cells = map snd cs" and r: "readable bt pg"
    using assms(2) by (auto simp: page_state_def)
  have s: "page_space bt pg cs [] fb" using p(1) by (simp add: page_inv_def)
  obtain idx cs' fb' d' where al: "allocateSpace bt junk pg nByte = Done (SQLITE_OK, idx, pg\<lparr>aData := d'\<rparr>)"
    "map snd cs' = map snd cs" "page_space bt (pg\<lparr>aData := d'\<rparr>) cs' [(idx, nByte)] fb'"
    "gap pg + 2 \<le> content (pg\<lparr>aData := d'\<rparr>)" "same_head pg d'"
    using allocateSpace_space [OF s assms(3,4), of junk] by blast
  let ?pg = "pg\<lparr>aData := d'\<rparr>"
  have r': "readable bt ?pg"
    using readable_data [OF r, of d'] al(5) by (simp add: same_head_def)
  note ps = al(3) [unfolded page_space_def]
  have pk: "packed (content ?pg) (usableSize bt) ((idx, nByte) # ivls cs' @ fb')"
    using ps packed_move [of "content ?pg" "usableSize bt" "ivls cs'" "(idx, nByte)" fb'] by simp
  have n: "nCell pg = length cs'" using ps by simp
  have cs: "findCell ?pg i = fst (cs' ! i) \<and> cell_bytes bt ?pg i = snd (cs' ! i) \<and> apart (idx, nByte) (fst (cs' ! i), length (snd (cs' ! i)))"
    if i: "i < length cs'" for i
  proof -
    obtain a c where ac: "cs' ! i = (a, c)" by fastforce
    have mem: "(a, c) \<in> set cs'" using i ac nth_mem by metis
    then have iv: "(a, length c) \<in> set (ivls cs' @ fb')" by (force simp: ivls_def)
    have "good bt pg c" "holds (\<lambda>k. d' (a + k)) c" using ps mem by (auto simp: cells_at_def)
    then have sz: "cellSizePtr bt pg (\<lambda>k. d' (a + k)) = length c" and eq: "map (\<lambda>k. d' (a + k)) [0..<length c] = c"
      by (auto simp: good_def holds_def intro: nth_equalityI)
    have "a < usableSize bt" using packed_in [OF packed_tail [OF pk] iv] by simp
    moreover have "get2byte d' (cellOffset pg + 2 * i) = a" using ps i ac by (simp add: ptrs_at_def)
    ultimately have f: "findCell ?pg i = a" using readable_mask [OF assms(1) r] by (simp add: findCell_def)
    then have "cell_bytes bt ?pg i = c" using sz eq by (simp add: cell_bytes_def)
    then show ?thesis using f ac packed_apart [OF pk iv] by simp
  qed
  have "page_cells bt ?pg = map snd cs'"
    using cs n by (intro nth_equalityI) (simp_all add: page_cells_def)
  moreover have "page_cells bt pg = map snd cs'" using page_state_cells(1) [OF assms(1,2)] p(2) al(2) by simp
  moreover have "gap pg + 2 \<le> idx" "idx + nByte \<le> usableSize bt" using pk al(4) by (auto simp: packed_Cons)
  ultimately show ?thesis using al(1) cs n by (intro exI [of _ idx] exI [of _ ?pg]) (simp add: apart_sym)
qed

theorem allocated_space_is_free_witness:
  "\<exists>idx pg'. allocateSpace sample_bt (\<lambda>_. 0) sample_page 5 = Done (SQLITE_OK, idx, pg') \<and> idx + 5 \<le> 512 \<and> 110 \<le> idx"
proof -
  have "nFree sample_page = 404" using page_state_nFree [OF sample_state] by (simp add: room_def sample_fields)
  moreover have "nCell sample_page = 0" using page_state_nCell [OF sample_state] by simp
  ultimately show ?thesis
    using allocated_space_is_free [OF sample_geometry sample_state, of 5 "\<lambda>_. 0"] by (auto simp: sample_fields)
qed

text \<open>
  Property C10.  Inserting a cell, when it fits with its pointer, is inserting into the list of cells at
  index \<^verbatim>\<open>i\<close>, with the child page number written into the copy; it never fails, it takes exactly the
  bytes of the cell and of the pointer, and the page stays in a good state.
\<close>

theorem insert_cell_is_list_insert:
  assumes "geometry bt" "page_state bt pg cells" "i \<le> nCell pg" "4 \<le> length c" "good bt pg (stored iChild c)"
    "length c + 2 \<le> nFree pg"
  shows "\<exists>pg'. insertCell bt SQLITE_OK junk pg i c iChild SQLITE_OK = Done (SQLITE_OK, pg') \<and>
    page_cells bt pg' = take i (page_cells bt pg) @ stored iChild c # drop i (page_cells bt pg) \<and>
    nFree pg' + length c + 2 = nFree pg \<and> page_state bt pg' (page_cells bt pg')"
proof -
  note st = page_state_nCell [OF assms(2)] page_state_nFree [OF assms(2)]
  obtain pg' where p: "insertCell bt SQLITE_OK junk pg i c iChild SQLITE_OK = Done (SQLITE_OK, pg')"
    "page_state bt pg' (take i cells @ stored iChild c # drop i cells)" "same_kind bt pg pg'"
    using insert_state [OF assms(2) _ assms(4,5)] assms(3,6) st by auto
  have "sum_list (map length (take i cells)) + sum_list (map length (drop i cells)) = sum_list (map length cells)"
    by (metis append_take_drop_id map_append sum_list_append)
  then have "nFree pg' + length c + 2 = nFree pg"
    using page_state_nFree [OF p(2)] st assms(3,4,6) p(3) by (simp add: room_def same_kind_def; linarith)
  then show ?thesis using p page_state_cells(1) [OF assms(1,2)] page_state_cells(1) [OF assms(1) p(2)] by auto
qed

theorem insert_cell_is_list_insert_witness:
  "\<exists>pg'. insertCell sample_bt SQLITE_OK (\<lambda>_. 0) sample_page 0 [3, 7, 1, 2, 3] 0 SQLITE_OK = Done (SQLITE_OK, pg') \<and>
    page_cells sample_bt pg' = [[3, 7, 1, 2, 3]]"
proof -
  have "nFree sample_page = 404" using page_state_nFree [OF sample_state] by (simp add: room_def sample_fields)
  then show ?thesis
    using insert_cell_is_list_insert [OF sample_geometry sample_state, of 0 "[3, 7, 1, 2, 3]" 0 "\<lambda>_. 0"]
      page_state_cells(1) [OF sample_geometry sample_state] sample_good by (auto simp: stored_def)
qed

text \<open>
  Property C11.  Dropping cell \<^verbatim>\<open>i\<close> with its size is removing it from the list of cells; it never
  reports corruption, gives back exactly the bytes of the cell and of its pointer, and the page stays
  in a good state; a page that loses its last cell is reset.
\<close>

theorem drop_cell_is_list_delete:
  assumes "geometry bt" "page_state bt pg cells" "i < nCell pg" "sz = length (cell_bytes bt pg i)"
  shows "\<exists>pg'. dropCell bt pg i sz SQLITE_OK = (SQLITE_OK, pg') \<and>
    page_cells bt pg' = take i (page_cells bt pg) @ drop (Suc i) (page_cells bt pg) \<and>
    nFree pg' = nFree pg + sz + 2 \<and> page_state bt pg' (page_cells bt pg')"
proof -
  note st = page_state_nCell [OF assms(2)] page_state_nFree [OF assms(2)] page_state_cells(1) [OF assms(1,2)]
  have i: "i < length cells" using assms(3) st by simp
  have "cell_bytes bt pg i = cells ! i" using st(3) assms(3) by (auto simp: page_cells_def)
  then have sz: "sz = length (cells ! i)" using assms(4) by simp
  obtain pg' where p: "dropCell bt pg i sz SQLITE_OK = (SQLITE_OK, pg')"
    "page_state bt pg' (take i cells @ drop (Suc i) cells)" "same_kind bt pg pg'"
    using drop_state [OF assms(2) i] sz by auto
  obtain cs fb where "page_inv bt pg cs fb" "cells = map snd cs" using assms(2) by (auto simp: page_state_def)
  then have "nFree pg + gap pg + total (ivls cs) = usableSize bt" by (simp add: page_inv_def page_space_def)
  then have fits: "nFree pg + (cellOffset pg + 2 * length cells + sum_list (map length cells)) = usableSize bt"
    using st(1) \<open>cells = map snd cs\<close> unfolding total_ivls by simp
  have "sum_list (map length (take i cells)) + (length (cells ! i) + sum_list (map length (drop (Suc i) cells))) =
      sum_list (map length cells)"
    using arg_cong [OF id_take_nth_drop [OF i], of "\<lambda>l. sum_list (map length l)"] by simp
  then have "nFree pg' = nFree pg + sz + 2"
    using page_state_nFree [OF p(2)] fits p(3) i sz by (simp add: room_def same_kind_def min_def; linarith)
  then show ?thesis using p st(3) page_state_cells(1) [OF assms(1) p(2)] by auto
qed

theorem drop_cell_is_list_delete_witness:
  "\<exists>pg pg'. page_ops sample_bt (\<lambda>_. 0) [InsertOp 0 [3, 7, 1, 2, 3] 0, InsertOp 0 [2, 5, 9, 8] 0] sample_page = Done (SQLITE_OK, pg) \<and>
    dropCell sample_bt pg 1 5 SQLITE_OK = (SQLITE_OK, pg') \<and> page_cells sample_bt pg' = [[2, 5, 9, 8]]"
proof -
  have "\<exists>pg. page_ops sample_bt (\<lambda>_. 0) [InsertOp 0 [3, 7, 1, 2, 3] 0, InsertOp 0 [2, 5, 9, 8] 0] sample_page = Done (SQLITE_OK, pg) \<and>
      page_state sample_bt pg [[2, 5, 9, 8], [3, 7, 1, 2, 3]]"
    using ops_state [OF sample_geometry sample_state, of "[InsertOp 0 [3, 7, 1, 2, 3] 0, InsertOp 0 [2, 5, 9, 8] 0]" "\<lambda>_. 0"]
      sample_good by (auto simp: stored_def room_def sample_fields)
  then obtain pg where pg: "page_ops sample_bt (\<lambda>_. 0) [InsertOp 0 [3, 7, 1, 2, 3] 0, InsertOp 0 [2, 5, 9, 8] 0] sample_page = Done (SQLITE_OK, pg)"
    "page_state sample_bt pg [[2, 5, 9, 8], [3, 7, 1, 2, 3]]" by blast
  have n: "nCell pg = 2" using page_state_nCell [OF pg(2)] by simp
  have c: "page_cells sample_bt pg = [[2, 5, 9, 8], [3, 7, 1, 2, 3]]" by (rule page_state_cells(1) [OF sample_geometry pg(2)])
  then have "cell_bytes sample_bt pg 1 = [3, 7, 1, 2, 3]" by (simp add: page_cells_def n eval_nat_numeral)
  then show ?thesis
    using drop_cell_is_list_delete [OF sample_geometry pg(2), of 1 5] pg(1) n c by auto
qed

text \<open>
  Property C13.  \<^verbatim>\<open>btreeInitPage\<close> reads a page in a good state back: whatever the header in memory was,
  all of its fields (number of cells, free bytes, limits, offsets) are rebuilt from the bytes, and no
  check of the page fails, the optional check of the cells included.
\<close>

theorem page_is_read_back:
  assumes "geometry bt" "page_state bt pg cells"
  shows "btreeInitPage bt (pg0\<lparr>isInit := False, hdrOffset := hdrOffset pg, aData := aData pg\<rparr>) = (SQLITE_OK, pg)"
  by (rule init_state [OF assms])

theorem page_is_read_back_witness:
  "btreeInitPage sample_bt (sample_page\<lparr>nFree := 3, isInit := False\<rparr>) = (SQLITE_OK, sample_page)"
proof -
  have "sample_page\<lparr>nFree := 3, isInit := False\<rparr> =
      sample_page\<lparr>nFree := 3, isInit := False, hdrOffset := hdrOffset sample_page, aData := aData sample_page\<rparr>"
    by (intro mem_page.equality) simp_all
  then show ?thesis
    using page_is_read_back [OF sample_geometry sample_state, of "sample_page\<lparr>nFree := 3\<rparr>"] by simp
qed

text \<open>
  Property C9.  From \<^verbatim>\<open>zeroPage\<close> on, any history of insertions that fit and deletions does on the page
  what it does on a list: no operation fails, the cells are those of the list, the free bytes are
  what the cells and their pointers leave, and the header in memory is the one \<^verbatim>\<open>btreeInitPage\<close> would
  read from the bytes.
\<close>

theorem page_history:
  assumes "geometry bt" "hdrOffset pg0 \<le> 100" "fst (decodeFlags bt pg0 flags) = SQLITE_OK"
    "ops_fit bt (zeroPage bt pg0 flags) ops []"
  shows "\<exists>pg. page_ops bt junk ops (zeroPage bt pg0 flags) = Done (SQLITE_OK, pg) \<and>
    page_cells bt pg = fold list_op ops [] \<and> nFree pg = room bt pg (fold list_op ops []) \<and>
    btreeInitPage bt (pg0\<lparr>isInit := False, hdrOffset := hdrOffset pg, aData := aData pg\<rparr>) = (SQLITE_OK, pg)"
proof -
  obtain pg where "page_ops bt junk ops (zeroPage bt pg0 flags) = Done (SQLITE_OK, pg)" "page_state bt pg (fold list_op ops [])"
    using ops_state [OF assms(1) zeroPage_state [OF assms(1-3)] assms(4)] by blast
  then show ?thesis using page_state_cells(1) [OF assms(1)] page_state_nFree init_state [OF assms(1)] by blast
qed

theorem page_history_witness:
  "\<exists>pg. page_ops sample_bt (\<lambda>_. 0) [InsertOp 0 [3, 7, 1, 2, 3] 0, InsertOp 0 [2, 5, 9, 8] 0, DropOp 1, InsertOp 1 [3, 7, 1, 2, 3] 0]
      sample_page = Done (SQLITE_OK, pg) \<and> page_cells sample_bt pg = [[2, 5, 9, 8], [3, 7, 1, 2, 3]]"
proof -
  let ?ops = "[InsertOp 0 [3, 7, 1, 2, 3] 0, InsertOp 0 [2, 5, 9, 8] 0, DropOp 1, InsertOp 1 [3, 7, 1, 2, 3] 0]"
  let ?pg0 = "\<lparr>isInit = False, apOvfl = [], intKey = False, intKeyLeaf = False, noPayload = False,
     leaf = 0, hdrOffset = 100, childPtrSize = 0, max1bytePayload = 0, maxLocal = 0, minLocal = 0, cellOffset = 0,
     nFree = 0, nCell = 0, maskPage = 0, aData = (\<lambda>k. of_nat (k * 7))\<rparr>"
  have fits: "ops_fit sample_bt (zeroPage sample_bt ?pg0 13) ?ops []"
    unfolding sample_page_def [symmetric] using sample_good by (simp add: stored_def room_def sample_fields)
  have f: "fst (decodeFlags sample_bt ?pg0 13) = SQLITE_OK"
    by (simp add: decodeFlags_def Let_def PTF_LEAF_def PTF_LEAFDATA_def PTF_INTKEY_def PTF_ZERODATA_def SQLITE_OK_def)
  have "\<exists>pg. page_ops sample_bt (\<lambda>_. 0) ?ops (zeroPage sample_bt ?pg0 13) = Done (SQLITE_OK, pg) \<and>
      page_cells sample_bt pg = fold list_op ?ops []"
    using page_history [OF sample_geometry _ f fits, of "\<lambda>_. 0"] by (auto simp del: fold_simps)
  then show ?thesis unfolding sample_page_def [symmetric] by (simp add: stored_def)
qed

end
