(* ===== verification/Spec2Isabelle.thy ===== *)
theory Spec2Isabelle
  imports CBase Verix VerixFile Varint Bitvec Ctype Numbers RowSet Hash MemJournal Keywords Tokenize Complete Utf Like Serial Records BtCell BtPage BtRefine BtFree BtOps BtSpec
begin

text \<open>
  VxSQLite: SQLite on the Verifone Verix terminal platform.

  \<^bold>\<open>The program.\<close>  The repository builds one library from two C files: the SQLite amalgamation
  \<^verbatim>\<open>src/sqlite/3.8.11/sqlite3.c\<close>, which includes the port \<^verbatim>\<open>src/verix/verix.c\<close>.  A statement
  travels from the text to the file: \<^verbatim>\<open>sqlite3_complete\<close> tells a shell when a text is a whole
  statement; \<^verbatim>\<open>sqlite3RunParser\<close> cuts it into tokens (\<^verbatim>\<open>sqlite3GetToken\<close>, keywords by
  \<^verbatim>\<open>keywordCode\<close>) and feeds them to the generated parser; the code generator looks names up in hash
  tables (\<^verbatim>\<open>hash.c\<close>), reads numbers (\<^verbatim>\<open>util.c\<close>) and emits bytecode; the virtual machine collects
  rowids in row sets (\<^verbatim>\<open>rowset.c\<close>), matches patterns (\<^verbatim>\<open>func.c\<close>) over UTF-8 (\<^verbatim>\<open>utf.c\<close>), and makes,
  unpacks and compares records (\<^verbatim>\<open>vdbeaux.c\<close>), which the B-tree keeps as cells on pages
  (\<^verbatim>\<open>btree.c\<close>); the pager remembers the pages it has
  journalled in bit vectors (\<^verbatim>\<open>bitvec.c\<close>), keeps the journal in memory or in a file
  (\<^verbatim>\<open>memjournal.c\<close>), and reads and writes through the I/O methods of the Verix layer.

  The code is modelled as compiled for the terminal: \<^verbatim>\<open>SQLITE_OS_OTHER\<close>, \<^verbatim>\<open>SQLITE_OS_VERIX\<close>,
  \<^verbatim>\<open>SQLITE_OMIT_UTF16\<close>, \<^verbatim>\<open>SQLITE_OMIT_TCL_VARIABLE\<close>, \<^verbatim>\<open>SQLITE_DISABLE_LFS\<close>, assertions off, ASCII,
  32-bit \<^verbatim>\<open>int\<close> and pointers of four bytes.

  \<^bold>\<open>The theories.\<close>
  \<^item> \<^theory_text>\<open>CBase\<close>: C types as words, library calls, and the conventions below.  Locale
    \<^theory_text>\<open>simulation\<close>: an object whose every operation is simulated by an abstract one answers a
    whole history of operations as the abstract object does; row sets and hash tables are its
    instances.  Its generalisation \<^theory_text>\<open>outcome_simulation\<close> also says when a history is undefined; the
    in-memory journal is its instance.
  \<^item> \<^theory_text>\<open>Verix\<close>, \<^theory_text>\<open>VerixFile\<close>: \<^verbatim>\<open>verix.c\<close>.  The file object \<^verbatim>\<open>verixFile\<close> is a record, the state
    \<^theory_text>\<open>vx\<close> holds the Verix world, the log of errno values and the globals; each I/O method
    (\<^verbatim>\<open>verixRead\<close>, \<^verbatim>\<open>verixWrite\<close>, \<^verbatim>\<open>verixTruncate\<close>, ...) and VFS method (\<^verbatim>\<open>verixOpen\<close>,
    \<^verbatim>\<open>verixDelete\<close>, \<^verbatim>\<open>verixCurrentTime\<close>, ...) is one definition.  The Verix calls are the record
    \<^theory_text>\<open>verix_os\<close>, a parameter; what a device promises of them is the predicate
    \<^theory_text>\<open>file_contract\<close>, and a small device in memory satisfies it.  The lemmas show what reading,
    writing and truncating do to the bytes of a file, for the offsets that survive the cut to 32 bits,
    and where the layer falls short of the VFS interface.
  \<^item> \<^theory_text>\<open>Varint\<close>: the integer encodings of \<^verbatim>\<open>util.c\<close>.  The unrolled decoder equals the loop of the
    format; encoders and decoders are instances of the locale \<^theory_text>\<open>codec\<close>, in which sequences are
    read back and codes are prefix free.
  \<^item> \<^theory_text>\<open>Bitvec\<close>: \<^verbatim>\<open>bitvec.c\<close>, a datatype with the three representations of the union.  An
    invariant is kept by every operation, histories refine a set (locale \<^theory_text>\<open>bitset\<close>), and the
    program's own self test returns 0.
  \<^item> \<^theory_text>\<open>Ctype\<close>: the character tables of \<^verbatim>\<open>global.c\<close>, comparison without case, dequoting and hex
    digits.
  \<^item> \<^theory_text>\<open>Numbers\<close>: checked 64-bit arithmetic, logarithmic estimates and the parsing of integers.
  \<^item> \<^theory_text>\<open>RowSet\<close>: \<^verbatim>\<open>rowset.c\<close>.  The state is a record of the list of fresh entries, the forest of
    trees and the allocator; sorting, merging and building trees are proved sorted and balanced, and
    a history of inserts and tests answers as sets of batches.
  \<^item> \<^theory_text>\<open>Hash\<close>: \<^verbatim>\<open>hash.c\<close>.  The elements live in an explicit store and are linked both ways;
    the invariant says that the links, the chains of the buckets and the counts agree, and a history
    refines a map from folded keys.
  \<^item> \<^theory_text>\<open>MemJournal\<close>: \<^verbatim>\<open>memjournal.c\<close>.  Chunks, write position and cached read position refine a
    sequence of bytes, also when memory runs out, up to the one read that finds a stale position.
  \<^item> \<^theory_text>\<open>Keywords\<close>: token codes and the keyword hash; the recognizer is a search of a list.
  \<^item> \<^theory_text>\<open>Tokenize\<close>: \<^verbatim>\<open>sqlite3GetToken\<close> case by case and the loop of \<^verbatim>\<open>sqlite3RunParser\<close>, with
    the generated parser a parameter; the tokens cut the text, and the loop feeds any parser exactly
    them, until it stops with a result code.  To say so, every parser has a copy that logs its calls.
  \<^item> \<^theory_text>\<open>Complete\<close>: \<^verbatim>\<open>complete.c\<close>, the lexer and the table of its state machine.
  \<^item> \<^theory_text>\<open>Utf\<close>: reading, skipping, counting and writing of UTF-8 characters.
  \<^item> \<^theory_text>\<open>Like\<close>: \<^verbatim>\<open>patternCompare\<close>, the matcher of LIKE and GLOB with its shortcuts for what follows a
    wildcard; it is proved equal to a declarative meaning of patterns where it is, and two inputs
    show where it is not.
  \<^item> \<^theory_text>\<open>Serial\<close>: cells (the value part of \<^verbatim>\<open>struct Mem\<close>; a double is its 64 bits) and the serial types
    of the record format, with the round trip of one value.
  \<^item> \<^theory_text>\<open>Records\<close>: \<^verbatim>\<open>OP_MakeRecord\<close>, \<^verbatim>\<open>sqlite3VdbeRecordUnpack\<close> and the three comparison routines that
    read a record in place.  A record is made when length and memory allow and unpacks to what it was made of, and whichever routine
    \<^verbatim>\<open>sqlite3VdbeFindCompare\<close> picks gives the sign of the comparison field by field.
  \<^item> \<^theory_text>\<open>BtCell\<close>, \<^theory_text>\<open>BtPage\<close>: pages of the B-tree (\<^verbatim>\<open>btree.c\<close>).  \<^verbatim>\<open>MemPage\<close> is a record whose \<^verbatim>\<open>aData\<close>
    is a function from offsets to bytes; parsing and measuring cells, \<^verbatim>\<open>allocateSpace\<close> with the
    search of the free blocks and the defragmentation, \<^verbatim>\<open>freeSpace\<close>, \<^verbatim>\<open>insertCell\<close>, \<^verbatim>\<open>dropCell\<close>,
    \<^verbatim>\<open>zeroPage\<close> and \<^verbatim>\<open>btreeInitPage\<close>.  Of \<^verbatim>\<open>BtShared\<close> the model has the sizes and flags these use.
  \<^item> \<^theory_text>\<open>BtRefine\<close>, \<^theory_text>\<open>BtFree\<close>, \<^theory_text>\<open>BtOps\<close>, \<^theory_text>\<open>BtSpec\<close>: the invariant of a page (cells, free blocks, fragments
    and the gap do not overlap and fill the page) and its preservation; the page refines the list of
    its cells, any history of insertions that fit and of deletions loses no byte, and the header in
    memory can be read back from the bytes at any time.

  \<^bold>\<open>Conventions.\<close>  A function that can go wrong in C (NULL or freed memory, an index out of an array)
  returns \<^theory_text>\<open>exec\<close>, with \<^theory_text>\<open>Undefined\<close> for that; theorems about histories conclude
  \<^theory_text>\<open>Done\<close>.  Allocation takes its outcomes from a list of booleans in the state, and succeeds when
  the list is used up; "no allocation fails" is \<^theory_text>\<open>False \<notin> set ms\<close>.  A C string is the list of
  its characters without the terminating NUL, and reading behind its end gives NUL.  Memory that
  is only passed through is a function from addresses.

  \<^bold>\<open>Loops and bounds.\<close>  Recursion is structural or has a measure, but for two places.
  \<^theory_text>\<open>verixWriteLoop\<close> is a partial function: it returns when the device accepts at least a byte or
  reports an error (as the contract says), and the property \<^theory_text>\<open>verix_write_may_not_return\<close> shows the
  device on which it does not.  The loops that follow pointers carry a bound: \<^theory_text>\<open>bitvecSetLoop\<close> has
  depth 7, enough since every level divides the size by 125 and sizes are below \<^theory_text>\<open>2 ^ 32\<close>;
  \<^theory_text>\<open>rehashLoop\<close> follows at most as many links as there are elements.
  The row set sorts in 40 buckets, enough for \<^theory_text>\<open>2 ^ 40\<close> entries.  That the bounds are never
  reached is part of the theorems, which conclude \<^theory_text>\<open>Done\<close>.

  \<^bold>\<open>Not modelled.\<close>  The pager, the B-tree above the single page (balancing, cursors, overflow and
  free-list pages, the pointer map), the page cache, the instructions of the virtual machine and the
  code generator; the generated parser and the C heap (parameters); floating-point
  conversions; log output; the older versions kept in the repository and the platforms that are not
  compiled.  Mutexes are taken to serialise the operations of a connection.
\<close>

end
